(* ===== verification/Prelude.thy ===== *)
theory Prelude
  imports Main "HOL-Library.Word" "HOL-Library.Monad_Syntax"
begin

text \<open>
  Shared vocabulary of the development: machine integers and their ranges, bytes and
  C strings as lists, the part of the C library the program formats with
  (\<open>snprintf\<close> conversions, \<open>strncpy\<close>), and generic lemmas on lists, words and
  options.  Undefined behaviour of the C++ code (a write outside an object, a use of
  freed memory, a null dereference) is the value \<^const>\<open>None\<close> of an option type, so
  that the absence of undefined behaviour is a theorem and not an assumption.
\<close>

unbundle bit_operations_syntax

named_theorems no_NUL \<open>the texts the program writes have no NUL inside\<close>

section \<open>Machine integers\<close>

type_synonym u8 = "8 word"
type_synonym u32 = "32 word"
type_synonym u64 = "64 word"

abbreviation INT_MAX :: int where
  "INT_MAX \<equiv> 2147483647"

abbreviation NUL :: char where
  "NUL \<equiv> CHR 0x00"

text \<open>A C \<open>int\<close> is a 32-bit two's complement number.\<close>

definition is_c_int :: "int \<Rightarrow> bool" where
  "is_c_int i \<longleftrightarrow> - 2147483648 \<le> i \<and> i \<le> INT_MAX"

text \<open>The conversion of a signed value to \<open>size_t\<close> is reduction modulo \<open>2 ^ 64\<close>.\<close>

definition size_of_int :: "int \<Rightarrow> nat" where
  "size_of_int i = nat (i mod 18446744073709551616)"

lemma size_of_int_nonneg [simp]:
  "0 \<le> i \<Longrightarrow> i \<le> INT_MAX \<Longrightarrow> size_of_int i = nat i"
  by (simp add: size_of_int_def)

text \<open>A 64-bit value from its two 32-bit halves.\<close>

lemma combine_halves:
  fixes h l :: u32
  shows "unat (push_bit 32 (ucast h) OR ucast l :: u64) = unat h * 4294967296 + unat l"
proof -
  have d: "push_bit 32 (ucast h) AND (ucast l :: u64) = 0"
    by (rule bit_word_eqI) (auto simp: bit_simps dest: bit_imp_le_length)
  have "(push_bit 32 (ucast h) OR ucast l :: u64) = push_bit 32 (ucast h) + ucast l"
    using d by (simp add: disjunctive_add_eq_or)
  also have "\<dots> = of_nat (unat h * 4294967296 + unat l)"
    by (simp add: push_bit_eq_mult ac_simps)
  finally have "(push_bit 32 (ucast h) OR ucast l :: u64) = of_nat (unat h * 4294967296 + unat l)" .
  moreover have "unat h * 4294967296 + unat l < 2 ^ 64"
  proof -
    have "unat h < 4294967296" "unat l < 4294967296"
      using unsigned_less [of h] unsigned_less [of l] by simp_all
    then show ?thesis by simp
  qed
  then have "unat (of_nat (unat h * 4294967296 + unat l) :: u64) = unat h * 4294967296 + unat l"
    by (intro of_nat_inverse [OF refl]) simp
  ultimately show ?thesis by (simp only:)
qed

text \<open>\<open>T clip(n, lower, upper)\<close> of \<open>trace_message.h\<close>: the larger of the lower
  bound and the smaller of the value and the upper bound.\<close>

definition clip :: "int \<Rightarrow> int \<Rightarrow> int \<Rightarrow> int" where
  "clip n lower upper = max lower (min n upper)"

lemma clip_bounds:
  "lower \<le> upper \<Longrightarrow> lower \<le> clip n lower upper \<and> clip n lower upper \<le> upper"
  by (auto simp: clip_def)

lemma clip_id [simp]: "lower \<le> n \<Longrightarrow> n \<le> upper \<Longrightarrow> clip n lower upper = n"
  by (simp add: clip_def)

lemma mod_square: "l < B \<Longrightarrow> (x * B + l) mod (B * B) = x mod B * B + l" for x l B :: nat
  by (simp add: mod_mult2_eq ac_simps)

text \<open>Indices kept inside a power of two with a mask.\<close>

lemma unat_and_size_mask: "unat (x AND (of_nat (2 ^ k) - 1) :: 'a :: len word) = unat x mod 2 ^ k"
proof -
  have "(of_nat (2 ^ k) - 1 :: 'a :: len word) = mask k" by (simp add: mask_eq_exp_minus_1)
  then have "x AND (of_nat (2 ^ k) - 1) = take_bit k x" by (simp add: take_bit_eq_mask)
  then have "unat (x AND (of_nat (2 ^ k) - 1)) = take_bit k (unat x)"
    by (simp only: unsigned_take_bit_eq)
  then show ?thesis by (simp only: take_bit_eq_mod)
qed

lemma unat_of_nat_small: "n < 2 ^ LENGTH('a) \<Longrightarrow> unat (of_nat n :: 'a :: len word) = n"
  by (simp add: unsigned_of_nat take_bit_nat_eq_self)

lemma unat_inc_mod:
  assumes "k \<le> 64"
  shows "unat (x + 1 :: u64) mod 2 ^ k = (unat x + 1) mod 2 ^ k"
proof -
  have "unat (x + 1) = (unat x + 1) mod 2 ^ 64" by (simp add: unat_word_ariths)
  moreover have "(2 :: nat) ^ k dvd 2 ^ 64" using assms by (rule le_imp_power_dvd)
  ultimately show ?thesis by (simp only: mod_mod_cancel)
qed

lemma word_of_nat_le: "n < 2 ^ 64 \<Longrightarrow> (of_nat n \<le> (x :: u64)) = (n \<le> unat x)"
  by (simp add: word_le_nat_alt unat_of_nat)

section \<open>Lists\<close>

lemma count_list_update:
  "p < length xs \<Longrightarrow>
   count_list (xs[p := y]) a + (if xs ! p = a then 1 else 0) = count_list xs a + (if y = a then 1 else 0)"
proof (induction xs arbitrary: p)
  case (Cons x xs)
  show ?case
  proof (cases p)
    case (Suc q)
    with Cons.IH [of q] Cons.prems show ?thesis by (auto split: if_splits)
  qed auto
qed simp

lemma length_filter_update:
  "p < length xs \<Longrightarrow> length (filter P (xs[p := y])) + (if P (xs ! p) then 1 else 0) =
     length (filter P xs) + (if P y then 1 else 0)"
proof (induction xs arbitrary: p)
  case (Cons x xs)
  show ?case
  proof (cases p)
    case (Suc q)
    with Cons.IH [of q] Cons.prems show ?thesis by (auto split: if_splits)
  qed auto
qed simp

lemma list_all_update: "list_all P xs \<Longrightarrow> P x \<Longrightarrow> list_all P (xs[i := x])"
  using set_update_subset_insert [of xs i x] by (auto simp: list_all_iff)


lemma take_update_beyond [simp]: "n \<le> i \<Longrightarrow> take n (xs[i := x]) = take n xs"
  by (induction xs arbitrary: n i) (auto simp: take_Cons' split: nat.splits)

lemma take_Suc_update:
  "i < length xs \<Longrightarrow> take (Suc i) (xs[i := x]) = take i xs @ [x]"
  by (simp add: take_Suc_conv_app_nth)

lemma takeWhile_stop:
  "(\<And>x. x \<in> set xs \<Longrightarrow> P x) \<Longrightarrow> \<not> P y \<Longrightarrow> takeWhile P (xs @ y # ys) = xs"
  by (induction xs) auto

lemma takeWhile_take_stop:
  assumes "i < length xs" and "\<not> P (xs ! i)" and "\<And>x. x \<in> set (take i xs) \<Longrightarrow> P x"
  shows "takeWhile P xs = take i xs"
  using assms by (metis id_take_nth_drop takeWhile_stop)

lemma take_snoc_last: "length xs = Suc n \<Longrightarrow> take n xs @ [xs ! n] = xs"
  by (metis lessI order_refl take_Suc_conv_app_nth take_all)

lemma takeWhile_drop_last:
  assumes "length xs = Suc n" and "\<not> P (xs ! n)"
  shows "takeWhile P xs = takeWhile P (take n xs)"
proof -
  have "takeWhile P (take n xs @ [xs ! n]) = takeWhile P (take n xs)"
    using assms(2) by (simp add: takeWhile_append) (metis takeWhile_eq_all_conv)
  then show ?thesis by (simp add: take_snoc_last [OF assms(1)])
qed

section \<open>Arrays\<close>

text \<open>Reading and writing an array element; undefined outside the array.\<close>

definition arr_get :: "'a list \<Rightarrow> int \<Rightarrow> 'a option" where
  "arr_get xs i = (if 0 \<le> i \<and> i < int (length xs) then Some (xs ! nat i) else None)"

definition arr_set :: "'a list \<Rightarrow> int \<Rightarrow> 'a \<Rightarrow> 'a list option" where
  "arr_set xs i x = (if 0 \<le> i \<and> i < int (length xs) then Some (xs[nat i := x]) else None)"

lemma arr_get_nat [simp]: "i < length xs \<Longrightarrow> arr_get xs (int i) = Some (xs ! i)"
  by (simp add: arr_get_def)

lemma arr_set_nat [simp]: "i < length xs \<Longrightarrow> arr_set xs (int i) x = Some (xs[i := x])"
  by (simp add: arr_set_def)

text \<open>The conversion of a \<open>size_t\<close> to \<open>int\<close> keeps the low 32 bits.\<close>

definition int_of_size :: "nat \<Rightarrow> int" where
  "int_of_size n = sint (word_of_nat n :: 32 word)"

lemma int_of_size_small [simp]: "n < 2147483648 \<Longrightarrow> int_of_size n = int n"
  by (simp add: int_of_size_def signed_of_nat signed_take_bit_int_eq_self)

section \<open>C strings\<close>

text \<open>The string a C function reads from an array: the bytes before the first NUL;
  undefined when the array holds none.\<close>

definition c_str :: "char list \<Rightarrow> string option" where
  "c_str cs = (if NUL \<in> set cs then Some (takeWhile (\<lambda>c. c \<noteq> NUL) cs) else None)"

lemma c_str_take:
  assumes "i < length cs" and "cs ! i = NUL" and "NUL \<notin> set (take i cs)"
  shows "c_str cs = Some (take i cs)"
proof -
  have "NUL \<in> set cs" using assms(1,2) by (metis nth_mem)
  moreover have "takeWhile (\<lambda>c. c \<noteq> NUL) cs = take i cs"
    using assms by (intro takeWhile_take_stop) auto
  ultimately show ?thesis by (simp add: c_str_def)
qed

lemma c_str_append: "NUL \<notin> set t \<Longrightarrow> c_str (t @ NUL # r) = Some t"
  unfolding c_str_def by (subst takeWhile_stop) auto

text \<open>\<open>strncpy(dst, src, n)\<close>: copies at most \<open>n\<close> bytes, stopping at the NUL of the
  source and padding with NUL; it is undefined to read past the end of a source that
  has no NUL in its first \<open>n\<close> bytes, or to write past the end of the destination.\<close>

definition strncpy :: "char list \<Rightarrow> char list \<Rightarrow> nat \<Rightarrow> char list option" where
  "strncpy dst src n =
     (if n \<le> length dst \<and> (NUL \<in> set (take n src) \<or> n \<le> length src)
      then (let t = takeWhile (\<lambda>c. c \<noteq> NUL) (take n src)
            in Some (t @ replicate (n - length t) NUL @ drop n dst))
      else None)"

lemma strncpy_length: "strncpy dst src n = Some d \<Longrightarrow> length d = length dst"
proof -
  assume "strncpy dst src n = Some d"
  moreover have "length (takeWhile (\<lambda>c. c \<noteq> NUL) (take n src)) \<le> n"
    by (rule order_trans [OF length_takeWhile_le]) simp
  ultimately show ?thesis
    by (auto simp: strncpy_def Let_def split: if_splits)
qed

section \<open>Decimal conversions of printf\<close>

fun dec_digits :: "nat \<Rightarrow> nat list" where
  "dec_digits n = (if n < 10 then [n] else dec_digits (n div 10) @ [n mod 10])"

declare dec_digits.simps [simp del]

definition digit_char :: "nat \<Rightarrow> char" where
  "digit_char d = char_of (48 + d)"

definition char_digit :: "char \<Rightarrow> nat" where
  "char_digit c = of_char c - 48"

text \<open>\<open>%u\<close>, \<open>%lu\<close>: the decimal digits of an unsigned value.\<close>

definition fmt_u :: "nat \<Rightarrow> string" where
  "fmt_u n = map digit_char (dec_digits n)"

text \<open>\<open>%d\<close>, \<open>%ld\<close>: a minus sign where the value is negative, then the digits.\<close>

definition fmt_d :: "int \<Rightarrow> string" where
  "fmt_d i = (if i < 0 then ''-'' else []) @ fmt_u (nat \<bar>i\<bar>)"

text \<open>\<open>%0wd\<close>: zeros between the sign and the digits up to a field of width \<open>w\<close>.\<close>

definition fmt_0d :: "nat \<Rightarrow> int \<Rightarrow> string" where
  "fmt_0d w i =
     (let sign = (if i < 0 then ''-'' else []); ds = fmt_u (nat \<bar>i\<bar>)
      in sign @ replicate (w - length sign - length ds) (CHR ''0'') @ ds)"

text \<open>Reading a decimal numeral back, as a log consumer does.\<close>

definition dec_val :: "string \<Rightarrow> nat" where
  "dec_val s = foldl (\<lambda>a c. 10 * a + char_digit c) 0 s"

lemma dec_digits_small: "d \<in> set (dec_digits n) \<Longrightarrow> d < 10"
proof (induction n rule: dec_digits.induct)
  case (1 n)
  then show ?case by (subst (asm) (2) dec_digits.simps) (auto split: if_splits)
qed

lemma dec_digits_nonempty [simp]: "dec_digits n \<noteq> []"
  by (subst dec_digits.simps) simp

lemma foldl_dec_digits: "foldl (\<lambda>a d. 10 * a + d) 0 (dec_digits n) = n"
proof (induction n rule: dec_digits.induct)
  case (1 n)
  then show ?case by (subst dec_digits.simps) auto
qed

lemma dec_digits_length: "n < 10 ^ Suc k \<Longrightarrow> length (dec_digits n) \<le> Suc k"
proof (induction k arbitrary: n)
  case 0
  then show ?case by (subst dec_digits.simps) simp
next
  case (Suc k)
  have "n div 10 < 10 ^ Suc k" using Suc.prems by (simp add: less_mult_imp_div_less mult.commute)
  then have "length (dec_digits (n div 10)) \<le> Suc k" by (rule Suc.IH)
  then show ?case by (subst dec_digits.simps) simp
qed

lemma char_digit_digit_char: "d < 10 \<Longrightarrow> char_digit (digit_char d) = d"
  by (simp add: char_digit_def digit_char_def)

lemma digit_char_not_NUL: "d < 10 \<Longrightarrow> digit_char d \<noteq> NUL"
proof
  assume d: "d < 10" and "digit_char d = NUL"
  then have "of_char (digit_char d) = (of_char NUL :: nat)" by simp
  with d show False by (simp add: digit_char_def)
qed

definition is_digit :: "char \<Rightarrow> bool" where
  "is_digit c \<longleftrightarrow> 48 \<le> (of_char c :: nat) \<and> (of_char c :: nat) \<le> 57"

lemma digit_char_is_digit: "d < 10 \<Longrightarrow> is_digit (digit_char d)"
  by (simp add: is_digit_def digit_char_def)

lemma dec_val_map_digit_char:
  "(\<And>d. d \<in> set ds \<Longrightarrow> d < 10) \<Longrightarrow>
   foldl (\<lambda>a c. 10 * a + char_digit c) b (map digit_char ds) = foldl (\<lambda>a d. 10 * a + d) b ds"
  by (induction ds arbitrary: b) (auto simp: char_digit_digit_char)

lemma dec_val_fmt_u [simp]: "dec_val (fmt_u n) = n"
  by (simp add: dec_val_def fmt_u_def dec_val_map_digit_char dec_digits_small foldl_dec_digits)

lemma fmt_u_inject: "fmt_u m = fmt_u n \<longleftrightarrow> m = n"
  by (metis dec_val_fmt_u)

lemma fmt_u_nonempty [simp]: "fmt_u n \<noteq> []"
  by (simp add: fmt_u_def)

lemma fmt_u_length: "n < 10 ^ Suc k \<Longrightarrow> length (fmt_u n) \<le> Suc k"
  by (simp add: fmt_u_def dec_digits_length)

lemma fmt_u_chars: "c \<in> set (fmt_u n) \<Longrightarrow> \<exists>d < 10. c = digit_char d"
  by (auto simp: fmt_u_def dest: dec_digits_small)

lemma fmt_u_no_NUL [no_NUL]: "NUL \<notin> set (fmt_u n)"
  by (metis fmt_u_chars digit_char_not_NUL)

lemma fmt_u_digits: "c \<in> set (fmt_u n) \<Longrightarrow> is_digit c"
  by (auto dest!: fmt_u_chars intro: digit_char_is_digit)

lemma char_digit_zero [simp]: "char_digit (CHR ''0'') = 0"
  by (simp add: char_digit_def)

lemma dec_val_replicate_0: "dec_val (replicate k (CHR ''0'') @ s) = dec_val s"
  by (induction k) (simp_all add: dec_val_def)

lemma dec_val_fmt_0d: "0 \<le> i \<Longrightarrow> dec_val (fmt_0d w i) = nat i"
  by (simp add: fmt_0d_def Let_def dec_val_replicate_0)

lemma fmt_0d_length:
  "0 \<le> i \<Longrightarrow> nat i < 10 ^ Suc k \<Longrightarrow> length (fmt_0d w i) \<le> max w (Suc k)"
  using fmt_u_length [of "nat i" k] by (simp add: fmt_0d_def Let_def)

lemma fmt_0d_length_exact:
  "0 \<le> i \<Longrightarrow> nat i < 10 ^ Suc k \<Longrightarrow> Suc k \<le> w \<Longrightarrow> length (fmt_0d w i) = w"
  using fmt_u_length [of "nat i" k] by (simp add: fmt_0d_def Let_def)

lemma fmt_0d_no_NUL [no_NUL]: "NUL \<notin> set (fmt_0d w i)"
  by (auto simp: fmt_0d_def Let_def no_NUL)

lemma fmt_d_no_NUL [no_NUL]: "NUL \<notin> set (fmt_d i)"
  by (auto simp: fmt_d_def no_NUL)

lemma fmt_d_length: "nat \<bar>i\<bar> < 10 ^ Suc k \<Longrightarrow> length (fmt_d i) \<le> Suc (Suc k)"
  using fmt_u_length [of "nat \<bar>i\<bar>" k] by (auto simp: fmt_d_def abs_if split: if_splits)

section \<open>snprintf\<close>

text \<open>
  \<open>snprintf(dst, size, ...)\<close> on the expanded text \<open>out\<close>: what it stores at the
  destination (nothing when \<open>size\<close> is 0, otherwise at most \<open>size - 1\<close> bytes and a NUL)
  and what it returns (the length of the whole text, negative when that is no \<open>int\<close>).
\<close>

definition snprintf_stored :: "nat \<Rightarrow> string \<Rightarrow> char list" where
  "snprintf_stored n out = (if n = 0 then [] else take (n - 1) out @ [NUL])"

definition snprintf_result :: "string \<Rightarrow> int" where
  "snprintf_result out = (if int (length out) \<le> INT_MAX then int (length out) else -1)"

lemma snprintf_stored_length: "length (snprintf_stored n out) \<le> n"
  by (auto simp: snprintf_stored_def)

lemma snprintf_stored_fits:
  "length out < n \<Longrightarrow> snprintf_stored n out = out @ [NUL]"
  by (simp add: snprintf_stored_def)

end
