(* ===== verification/Trace_Message.thy ===== *)
theory Trace_Message
  imports Prelude
begin

text \<open>
  \<open>class TraceMessage\<close> of \<open>trace_message.h\<close>: a fixed-size text buffer with a write
  index and a movable limit.  The buffer pointer is a value of \<open>cbuffer\<close>: the static
  literal \<open>""\<close> of a message without capacity, an array from \<open>new char[]\<close>, or an array
  that \<open>delete[]\<close> has given back.  Every access goes through \<open>buf_bytes\<close> and
  \<open>buf_write\<close>, which are undefined outside the object.  What fresh heap memory holds is
  the parameter \<open>g\<close> of the operations that allocate.
\<close>

section \<open>Buffers\<close>

datatype cbuffer = Static | Heap "char list" | Freed

fun buf_bytes :: "cbuffer \<Rightarrow> char list option" where
  "buf_bytes Static = Some [NUL]"
| "buf_bytes (Heap cs) = Some cs"
| "buf_bytes Freed = None"

fun buf_write :: "cbuffer \<Rightarrow> int \<Rightarrow> char \<Rightarrow> cbuffer option" where
  "buf_write (Heap cs) i c =
     (if 0 \<le> i \<and> i < int (length cs) then Some (Heap (cs[nat i := c])) else None)"
| "buf_write Static i c = None"
| "buf_write Freed i c = None"

text \<open>A run of bytes stored from an offset on, as \<open>vsnprintf\<close> stores its output.\<close>

fun buf_write_list :: "cbuffer \<Rightarrow> int \<Rightarrow> char list \<Rightarrow> cbuffer option" where
  "buf_write_list b i [] = Some b"
| "buf_write_list b i (c # cs) = do { b' \<leftarrow> buf_write b i c; buf_write_list b' (i + 1) cs }"

text \<open>\<open>delete[]\<close> of a buffer pointer.\<close>

fun buf_delete :: "cbuffer \<Rightarrow> cbuffer option" where
  "buf_delete (Heap cs) = Some Freed"
| "buf_delete Static = None"
| "buf_delete Freed = None"

section \<open>The class\<close>

record trace_message =
  tm_capacity :: int
  tm_buffer :: cbuffer
  write_index :: int
  limit_index :: int
  tm_severity :: int
  tm_timestamp :: u64

abbreviation SEVERITY_NOTSET :: int where
  "SEVERITY_NOTSET \<equiv> - 1"

definition recycle :: "trace_message \<Rightarrow> trace_message option" where
  "recycle m = do {
     b \<leftarrow> buf_write (tm_buffer m) (tm_capacity m) NUL;
     b' \<leftarrow> buf_write b 0 NUL;
     Some (m\<lparr>tm_buffer := b', write_index := 0, limit_index := tm_capacity m,
             tm_severity := SEVERITY_NOTSET, tm_timestamp := 0\<rparr>) }"

definition new_chars :: "(nat \<Rightarrow> char) \<Rightarrow> int \<Rightarrow> cbuffer" where
  "new_chars g n = Heap (map g [0..<nat n])"

definition realloc :: "(nat \<Rightarrow> char) \<Rightarrow> int \<Rightarrow> trace_message \<Rightarrow> trace_message option" where
  "realloc g new_capacity m = do {
     b \<leftarrow> (if tm_capacity m > 0 then buf_delete (tm_buffer m) else Some (tm_buffer m));
     m' \<leftarrow> (if new_capacity > 0
            then (if new_capacity = INT_MAX then None
                  else Some (m\<lparr>tm_capacity := new_capacity,
                               tm_buffer := new_chars g (new_capacity + 1)\<rparr>))
            else Some (m\<lparr>tm_buffer := b\<rparr>));
     recycle m' }"

definition trace_message_new :: "(nat \<Rightarrow> char) \<Rightarrow> int \<Rightarrow> trace_message option" where
  "trace_message_new g n =
     (let m = \<lparr>tm_capacity = 0, tm_buffer = Static, write_index = 0, limit_index = 0,
               tm_severity = SEVERITY_NOTSET, tm_timestamp = 0\<rparr>
      in if n > 0 then realloc g n m else Some m)"

text \<open>The destructor; its result is what is left of the buffer.\<close>

definition trace_message_delete :: "trace_message \<Rightarrow> cbuffer option" where
  "trace_message_delete m =
     (if tm_capacity m > 0 then buf_delete (tm_buffer m) else Some (tm_buffer m))"

text \<open>\<open>operator=\<close>: the scalar fields and at most \<open>capacity\<close> bytes of text.\<close>

definition copy_text :: "cbuffer \<Rightarrow> cbuffer \<Rightarrow> int \<Rightarrow> cbuffer option" where
  "copy_text dst src n = do {
     s \<leftarrow> buf_bytes src;
     d \<leftarrow> buf_bytes dst;
     d' \<leftarrow> strncpy d s (size_of_int n);
     (if n = 0 then Some dst
      else case dst of Heap _ \<Rightarrow> Some (Heap d') | _ \<Rightarrow> None) }"

definition assign :: "(nat \<Rightarrow> char) \<Rightarrow> trace_message \<Rightarrow> trace_message \<Rightarrow> trace_message option" where
  "assign g other m = do {
     m' \<leftarrow> (if tm_capacity other \<noteq> tm_capacity m then realloc g (tm_capacity other) m else Some m);
     b \<leftarrow> copy_text (tm_buffer m') (tm_buffer other) (tm_capacity m');
     Some (m'\<lparr>write_index := write_index other, limit_index := limit_index other,
              tm_severity := tm_severity other, tm_timestamp := tm_timestamp other,
              tm_buffer := b\<rparr>) }"

definition get_buffer :: "trace_message \<Rightarrow> string option" where
  "get_buffer m = do { cs \<leftarrow> buf_bytes (tm_buffer m); c_str cs }"

definition avail_size :: "trace_message \<Rightarrow> int" where
  "avail_size m = limit_index m - write_index m"

definition limit :: "int \<Rightarrow> trace_message \<Rightarrow> int \<times> trace_message" where
  "limit sz m =
     (limit_index m, m\<lparr>limit_index := write_index m + clip sz 0 (avail_size m)\<rparr>)"

definition unlimit :: "trace_message \<Rightarrow> trace_message" where
  "unlimit m = m\<lparr>limit_index := tm_capacity m\<rparr>"

definition unlimit_to :: "int \<Rightarrow> trace_message \<Rightarrow> trace_message" where
  "unlimit_to i m = m\<lparr>limit_index := clip i 0 (tm_capacity m)\<rparr>"

definition rewind :: "int \<Rightarrow> trace_message \<Rightarrow> trace_message option" where
  "rewind offset m =
     (let w = clip offset 0 (limit_index m)
      in do { b \<leftarrow> buf_write (tm_buffer m) w NUL;
              Some (m\<lparr>write_index := w, tm_buffer := b\<rparr>) })"

text \<open>\<open>write(str)\<close>: byte by byte up to and including the NUL; the list is the text
  before the NUL.\<close>

fun tm_write :: "string \<Rightarrow> trace_message \<Rightarrow> (bool \<times> trace_message) option" where
  "tm_write [] m =
     (if write_index m < limit_index m
      then do { b \<leftarrow> buf_write (tm_buffer m) (write_index m) NUL;
                Some (True, m\<lparr>tm_buffer := b\<rparr>) }
      else Some (False, m))"
| "tm_write (c # cs) m =
     (if write_index m < limit_index m
      then do { b \<leftarrow> buf_write (tm_buffer m) (write_index m) c;
                (if c = NUL then Some (True, m\<lparr>tm_buffer := b\<rparr>)
                 else tm_write cs (m\<lparr>tm_buffer := b, write_index := write_index m + 1\<rparr>)) }
      else Some (False, m))"

text \<open>\<open>vnprintf(max_size, fmt, ap)\<close> on the text \<open>out\<close> that the format and its
  arguments expand to.\<close>

definition vnprintf :: "int \<Rightarrow> string \<Rightarrow> trace_message \<Rightarrow> (bool \<times> trace_message) option" where
  "vnprintf max_size out m = do {
     b \<leftarrow> buf_write_list (tm_buffer m) (write_index m)
            (snprintf_stored (size_of_int (min (avail_size m) max_size)) out);
     (let n = snprintf_result out
      in if n > -1 \<and> n \<le> avail_size m
         then Some (True, m\<lparr>tm_buffer := b, write_index := write_index m + n\<rparr>)
         else do { b' \<leftarrow> buf_write b (write_index m) NUL;
                   Some (False, m\<lparr>tm_buffer := b'\<rparr>) }) }"

definition tm_printf :: "string \<Rightarrow> trace_message \<Rightarrow> (bool \<times> trace_message) option" where
  "tm_printf out m = vnprintf (avail_size m) out m"

definition tm_nprintf :: "int \<Rightarrow> string \<Rightarrow> trace_message \<Rightarrow> (bool \<times> trace_message) option" where
  "tm_nprintf max_size out m = vnprintf max_size out m"

text \<open>\<open>set_timestamp\<close>, from the clock reading of the platform: \<open>gettimeofday\<close> gives
  seconds and microseconds, \<open>GetSystemTimeAsFileTime\<close> two 32-bit halves.\<close>

definition set_timestamp :: "int \<Rightarrow> int \<Rightarrow> trace_message \<Rightarrow> trace_message" where
  "set_timestamp tv_sec tv_usec m =
     m\<lparr>tm_timestamp := word_of_int (tv_sec * 1000 + tv_usec div 1000)\<rparr>"

definition set_timestamp_msvc :: "u32 \<Rightarrow> u32 \<Rightarrow> trace_message \<Rightarrow> trace_message" where
  "set_timestamp_msvc high low m =
     m\<lparr>tm_timestamp := (push_bit 32 (ucast high) OR ucast low) div 10 - 11644473600000000\<rparr>"

definition set_severity :: "int \<Rightarrow> trace_message \<Rightarrow> trace_message" where
  "set_severity s m = m\<lparr>tm_severity := s\<rparr>"

section \<open>Well-formed messages\<close>

text \<open>A message with capacity: one byte more than the capacity is allocated, that last
  byte is NUL, and the indices are ordered.\<close>

definition tm_alloc :: "trace_message \<Rightarrow> bool" where
  "tm_alloc m \<longleftrightarrow>
     (case tm_buffer m of
        Heap cs \<Rightarrow> 0 < tm_capacity m \<and> tm_capacity m < INT_MAX \<and> length cs = Suc (nat (tm_capacity m))
      | _ \<Rightarrow> False)"

definition tm_bytes :: "trace_message \<Rightarrow> char list" where
  "tm_bytes m = (case tm_buffer m of Heap cs \<Rightarrow> cs | _ \<Rightarrow> [])"

definition tm_ok :: "trace_message \<Rightarrow> bool" where
  "tm_ok m \<longleftrightarrow>
     tm_alloc m \<and> tm_bytes m ! nat (tm_capacity m) = NUL \<and>
     0 \<le> write_index m \<and> write_index m \<le> limit_index m \<and> limit_index m \<le> tm_capacity m"

text \<open>The text a message holds: the bytes before the write index.\<close>

definition tm_text :: "trace_message \<Rightarrow> string" where
  "tm_text m = take (nat (write_index m)) (tm_bytes m)"

text \<open>A message is closed when the byte at the write index is NUL.\<close>

definition tm_closed :: "trace_message \<Rightarrow> bool" where
  "tm_closed m \<longleftrightarrow> tm_bytes m ! nat (write_index m) = NUL"

text \<open>What \<open>recycle\<close> leaves: an empty message.\<close>

definition tm_fresh :: "trace_message \<Rightarrow> bool" where
  "tm_fresh m \<longleftrightarrow> tm_ok m \<and> tm_closed m \<and> write_index m = 0 \<and>
     limit_index m = tm_capacity m \<and> tm_severity m = SEVERITY_NOTSET \<and> tm_timestamp m = 0"

lemma tm_allocE:
  assumes "tm_alloc m"
  obtains cs where "tm_buffer m = Heap cs" "0 < tm_capacity m"
    "tm_capacity m < INT_MAX" "length cs = Suc (nat (tm_capacity m))"
  using assms by (auto simp: tm_alloc_def split: cbuffer.splits)

lemma tm_allocI:
  "tm_buffer m = Heap cs \<Longrightarrow> 0 < tm_capacity m \<Longrightarrow> tm_capacity m < INT_MAX \<Longrightarrow>
   length cs = Suc (nat (tm_capacity m)) \<Longrightarrow> tm_alloc m"
  by (simp add: tm_alloc_def)

lemma tm_bytes_Heap [simp]: "tm_buffer m = Heap cs \<Longrightarrow> tm_bytes m = cs"
  by (simp add: tm_bytes_def)

lemma tm_okE:
  assumes "tm_ok m"
  obtains cs where "tm_buffer m = Heap cs" "0 < tm_capacity m"
    "tm_capacity m < INT_MAX" "length cs = Suc (nat (tm_capacity m))"
    "cs ! nat (tm_capacity m) = NUL" "0 \<le> write_index m" "write_index m \<le> limit_index m"
    "limit_index m \<le> tm_capacity m"
  using assms unfolding tm_ok_def by (elim conjE tm_allocE) simp

lemma tm_ok_alloc: "tm_ok m \<Longrightarrow> tm_alloc m"
  by (simp add: tm_ok_def)

lemma tm_fresh_ok: "tm_fresh m \<Longrightarrow> tm_ok m"
  by (simp add: tm_fresh_def)

lemma tm_fresh_text: "tm_fresh m \<Longrightarrow> tm_text m = []"
  by (simp add: tm_fresh_def tm_text_def)

lemma get_buffer_text:
  assumes "tm_ok m" and "tm_closed m" and "NUL \<notin> set (tm_text m)"
  shows "get_buffer m = Some (tm_text m)"
proof -
  from assms(1) obtain cs where cs: "tm_buffer m = Heap cs"
    "length cs = Suc (nat (tm_capacity m))" "write_index m \<le> tm_capacity m" "0 \<le> write_index m"
    by (elim tm_okE) auto
  then have "c_str cs = Some (take (nat (write_index m)) cs)"
    using assms(2,3) by (intro c_str_take) (auto simp: tm_closed_def tm_text_def)
  with cs show ?thesis by (simp add: get_buffer_def tm_text_def)
qed

lemma get_buffer_defined: "tm_ok m \<Longrightarrow> \<exists>t. get_buffer m = Some t"
proof -
  assume "tm_ok m"
  then obtain cs where cs: "tm_buffer m = Heap cs" "length cs = Suc (nat (tm_capacity m))"
    "cs ! nat (tm_capacity m) = NUL"
    by (elim tm_okE) auto
  then have "NUL \<in> set cs" by (metis lessI nth_mem)
  with cs show ?thesis by (simp add: get_buffer_def c_str_def)
qed

section \<open>What the operations do\<close>

lemma buf_write_Heap [simp]:
  "0 \<le> i \<Longrightarrow> i < int (length cs) \<Longrightarrow> buf_write (Heap cs) i c = Some (Heap (cs[nat i := c]))"
  by simp

lemma buf_write_list_Heap:
  "0 \<le> i \<Longrightarrow> nat i + length xs \<le> length cs \<Longrightarrow>
   buf_write_list (Heap cs) i xs = Some (Heap (take (nat i) cs @ xs @ drop (nat i + length xs) cs))"
proof (induction xs arbitrary: i cs)
  case Nil
  then show ?case by simp
next
  case (Cons x xs)
  then have i: "nat i < length cs" "nat (i + 1) = Suc (nat i)" by auto
  with Cons.prems have "buf_write_list (Heap (cs[nat i := x])) (i + 1) xs =
      Some (Heap (take (Suc (nat i)) (cs[nat i := x]) @ xs @ drop (Suc (nat i) + length xs) (cs[nat i := x])))"
    using Cons.IH [of "i + 1" "cs[nat i := x]"] by simp
  with i Cons.prems show ?case by (simp add: take_Suc_update)
qed

lemma recycle_fresh:
  assumes "tm_alloc m"
  obtains m' where "recycle m = Some m'" "tm_fresh m'" "tm_capacity m' = tm_capacity m"
proof -
  from assms obtain cs where cs: "tm_buffer m = Heap cs" "0 < tm_capacity m"
    "tm_capacity m < INT_MAX" "length cs = Suc (nat (tm_capacity m))"
    by (elim tm_allocE)
  let ?m' = "m\<lparr>tm_buffer := Heap (cs[nat (tm_capacity m) := NUL, 0 := NUL]), write_index := 0,
     limit_index := tm_capacity m, tm_severity := SEVERITY_NOTSET, tm_timestamp := 0\<rparr>"
  have "recycle m = Some ?m'" using cs by (simp add: recycle_def)
  moreover have "tm_fresh ?m'"
    using cs by (simp add: tm_fresh_def tm_ok_def tm_alloc_def tm_bytes_def tm_closed_def)
  ultimately show thesis using that by simp
qed

lemma realloc_fresh:
  assumes "0 < n" "n < INT_MAX" "tm_capacity m > 0 \<longrightarrow> tm_alloc m"
  obtains m' where "realloc g n m = Some m'" "tm_fresh m'" "tm_capacity m' = n"
proof -
  let ?m = "m\<lparr>tm_capacity := n, tm_buffer := new_chars g (n + 1)\<rparr>"
  have "tm_alloc ?m"
    using assms by (auto simp: tm_alloc_def new_chars_def)
  then obtain m' where "recycle ?m = Some m'" "tm_fresh m'" "tm_capacity m' = tm_capacity ?m"
    by (rule recycle_fresh)
  moreover have "realloc g n m = recycle ?m"
  proof (cases "tm_capacity m > 0")
    case True
    with assms(3) obtain cs where "tm_buffer m = Heap cs" by (auto elim: tm_allocE)
    with True assms(1,2) show ?thesis by (simp add: realloc_def)
  next
    case False
    with assms(1,2) show ?thesis by (simp add: realloc_def)
  qed
  ultimately show thesis using that by simp
qed

lemma trace_message_new_fresh:
  assumes "0 < n" "n < INT_MAX"
  obtains m' where "trace_message_new g n = Some m'" "tm_fresh m'" "tm_capacity m' = n"
proof -
  let ?m = "\<lparr>tm_capacity = 0, tm_buffer = Static, write_index = 0, limit_index = 0,
     tm_severity = SEVERITY_NOTSET, tm_timestamp = 0\<rparr>"
  obtain m' where "realloc g n ?m = Some m'" "tm_fresh m'" "tm_capacity m' = n"
    using assms by (rule realloc_fresh [of n ?m]) simp
  with assms that show thesis by (simp add: trace_message_new_def)
qed

text \<open>One byte stored below the limit and the write index moved past it.\<close>

lemma tm_ok_put:
  fixes c :: char
  assumes "tm_ok m" "write_index m < limit_index m"
  defines "m' \<equiv> m\<lparr>tm_buffer := Heap ((tm_bytes m)[nat (write_index m) := c]),
                   write_index := write_index m + 1\<rparr>"
  shows "buf_write (tm_buffer m) (write_index m) c = Some (Heap ((tm_bytes m)[nat (write_index m) := c]))"
    and "tm_ok m'" and "tm_text m' = tm_text m @ [c]"
    and "limit_index m' = limit_index m" and "tm_capacity m' = tm_capacity m"
    and "avail_size m' = avail_size m - 1"
proof -
  from assms(1) obtain cs where cs: "tm_buffer m = Heap cs" "0 < tm_capacity m"
    "tm_capacity m < INT_MAX" "length cs = Suc (nat (tm_capacity m))"
    "cs ! nat (tm_capacity m) = NUL" "0 \<le> write_index m" "limit_index m \<le> tm_capacity m"
    by (elim tm_okE)
  have i: "nat (write_index m) < nat (tm_capacity m)" "nat (write_index m + 1) = Suc (nat (write_index m))"
    using cs assms(2) by auto
  show "buf_write (tm_buffer m) (write_index m) c = Some (Heap ((tm_bytes m)[nat (write_index m) := c]))"
    using cs i by simp
  show "tm_ok m'" using cs i assms(2) by (simp add: m'_def tm_ok_def tm_alloc_def tm_bytes_def)
  show "tm_text m' = tm_text m @ [c]"
    using cs i by (simp add: m'_def tm_text_def tm_bytes_def take_Suc_update)
qed (simp_all add: m'_def avail_size_def)

lemma tm_ok_terminate:
  assumes "tm_ok m" "0 \<le> i" "i \<le> tm_capacity m"
  shows "buf_write (tm_buffer m) i NUL = Some (Heap ((tm_bytes m)[nat i := NUL]))"
    and "tm_ok (m\<lparr>tm_buffer := Heap ((tm_bytes m)[nat i := NUL])\<rparr>)"
proof -
  from assms(1) obtain cs where cs: "tm_buffer m = Heap cs"
    "tm_capacity m < INT_MAX" "length cs = Suc (nat (tm_capacity m))"
    "cs ! nat (tm_capacity m) = NUL" by (elim tm_okE)
  show "buf_write (tm_buffer m) i NUL = Some (Heap ((tm_bytes m)[nat i := NUL]))"
    using cs assms(2,3) by simp
  show "tm_ok (m\<lparr>tm_buffer := Heap ((tm_bytes m)[nat i := NUL])\<rparr>)"
    using cs assms by (auto simp: tm_ok_def tm_alloc_def tm_bytes_def nth_list_update split: cbuffer.splits)
qed

text \<open>The effect of \<open>write\<close>: as much of the text as fits below the limit is appended;
  the call succeeds, and closes the message, exactly when the NUL fits too.\<close>

lemma tm_write_spec:
  assumes "tm_ok m" "NUL \<notin> set s"
  shows "\<exists>m'. tm_write s m = Some (int (length s) < avail_size m, m') \<and> tm_ok m' \<and>
    tm_text m' = tm_text m @ take (nat (avail_size m)) s \<and>
    limit_index m' = limit_index m \<and> tm_capacity m' = tm_capacity m \<and>
    tm_severity m' = tm_severity m \<and> tm_timestamp m' = tm_timestamp m \<and>
    (int (length s) < avail_size m \<longrightarrow> tm_closed m')"
  using assms
proof (induction s arbitrary: m)
  case Nil
  show ?case
  proof (cases "write_index m < limit_index m")
    case True
    let ?m' = "m\<lparr>tm_buffer := Heap ((tm_bytes m)[nat (write_index m) := NUL])\<rparr>"
    from Nil.prems(1) True have w: "0 \<le> write_index m" "write_index m < tm_capacity m"
      by (auto elim: tm_okE)
    with Nil.prems(1) have "tm_ok ?m'" "tm_write [] m = Some (True, ?m')"
      using tm_ok_terminate [of m "write_index m"] True by auto
    moreover have "tm_closed ?m'" "tm_text ?m' = tm_text m"
      using Nil.prems(1) w by (auto simp: tm_closed_def tm_text_def tm_bytes_def elim!: tm_okE)
    ultimately show ?thesis using True by (simp add: avail_size_def)
  next
    case False
    with Nil.prems show ?thesis by (simp add: avail_size_def)
  qed
next
  case (Cons c s)
  show ?case
  proof (cases "write_index m < limit_index m")
    case True
    let ?m1 = "m\<lparr>tm_buffer := Heap ((tm_bytes m)[nat (write_index m) := c]), write_index := write_index m + 1\<rparr>"
    note put = tm_ok_put [OF Cons.prems(1) True, of c]
    from Cons.IH [of ?m1] Cons.prems(2) put(2) obtain m' where
      m': "tm_write s ?m1 = Some (int (length s) < avail_size ?m1, m')" "tm_ok m'"
        "tm_text m' = tm_text ?m1 @ take (nat (avail_size ?m1)) s"
        "limit_index m' = limit_index m" "tm_capacity m' = tm_capacity m"
        "tm_severity m' = tm_severity m" "tm_timestamp m' = tm_timestamp m"
        "int (length s) < avail_size ?m1 \<longrightarrow> tm_closed m'" by auto
    have a: "nat (avail_size m) = Suc (nat (avail_size ?m1))"
      "(int (length s) < avail_size ?m1) = (int (length (c # s)) < avail_size m)"
      using True by (auto simp: avail_size_def)
    have "tm_write (c # s) m = tm_write s ?m1" using True put(1) Cons.prems(2) by auto
    with m' put(3) a show ?thesis by simp
  next
    case False
    with Cons.prems show ?thesis by (simp add: avail_size_def)
  qed
qed

text \<open>A run of bytes stored between the write index and the limit.\<close>

lemma tm_ok_splice:
  assumes "tm_ok m" "int (length xs) \<le> avail_size m"
    and "0 \<le> n" "n \<le> avail_size m"
  defines "cs' \<equiv> take (nat (write_index m)) (tm_bytes m) @ xs @
                  drop (nat (write_index m) + length xs) (tm_bytes m)"
  shows "buf_write_list (tm_buffer m) (write_index m) xs = Some (Heap cs')"
    and "tm_ok (m\<lparr>tm_buffer := Heap cs', write_index := write_index m + n\<rparr>)"
    and "tm_ok (m\<lparr>tm_buffer := Heap cs'\<rparr>)"
    and "tm_text (m\<lparr>tm_buffer := Heap cs'\<rparr>) = tm_text m"
    and "int (length xs) = n \<Longrightarrow>
         tm_text (m\<lparr>tm_buffer := Heap cs', write_index := write_index m + n\<rparr>) = tm_text m @ xs"
    and "nat n < length xs \<Longrightarrow> xs ! nat n = NUL \<Longrightarrow>
         tm_closed (m\<lparr>tm_buffer := Heap cs', write_index := write_index m + n\<rparr>)"
    and "nat n < length xs \<Longrightarrow>
         tm_text (m\<lparr>tm_buffer := Heap cs', write_index := write_index m + n\<rparr>) = tm_text m @ take (nat n) xs"
proof -
  from assms(1) obtain cs where cs: "tm_buffer m = Heap cs" "0 < tm_capacity m"
    "tm_capacity m < INT_MAX" "length cs = Suc (nat (tm_capacity m))"
    "cs ! nat (tm_capacity m) = NUL" "0 \<le> write_index m" "limit_index m \<le> tm_capacity m"
    "write_index m \<le> limit_index m"
    by (elim tm_okE)
  let ?w = "nat (write_index m)"
  have cs': "cs' = take ?w cs @ xs @ drop (?w + length xs) cs"
    using cs by (simp add: cs'_def)
  have fit: "?w + length xs \<le> nat (tm_capacity m)" "?w < length cs"
    using cs assms(2) by (auto simp: avail_size_def)
  have len: "length cs' = length cs" "length (take ?w cs) = ?w" using fit cs by (auto simp: cs')
  have last: "cs' ! nat (tm_capacity m) = NUL"
  proof -
    have "\<not> nat (tm_capacity m) - ?w < length xs" "\<not> nat (tm_capacity m) < ?w"
      "nat (tm_capacity m) - ?w - length xs = nat (tm_capacity m) - (?w + length xs)"
      using fit by linarith+
    with fit cs(4,5) len(2) show ?thesis by (simp add: cs' nth_append)
  qed
  have wn: "nat (write_index m + n) = ?w + nat n" using cs assms(3) by (simp add: nat_add_distrib)
  show "buf_write_list (tm_buffer m) (write_index m) xs = Some (Heap cs')"
    using cs fit by (simp add: buf_write_list_Heap cs')
  show "tm_ok (m\<lparr>tm_buffer := Heap cs', write_index := write_index m + n\<rparr>)"
    and "tm_ok (m\<lparr>tm_buffer := Heap cs'\<rparr>)"
    using cs len last assms(3,4) by (auto simp: tm_ok_def tm_alloc_def avail_size_def)
  show "tm_text (m\<lparr>tm_buffer := Heap cs'\<rparr>) = tm_text m"
    using len cs by (simp add: tm_text_def) (simp add: cs')
  show "int (length xs) = n \<Longrightarrow>
    tm_text (m\<lparr>tm_buffer := Heap cs', write_index := write_index m + n\<rparr>) = tm_text m @ xs"
    using wn cs fit by (simp add: tm_text_def cs')
  show "nat n < length xs \<Longrightarrow> xs ! nat n = NUL \<Longrightarrow>
    tm_closed (m\<lparr>tm_buffer := Heap cs', write_index := write_index m + n\<rparr>)"
    using wn cs fit by (simp add: tm_closed_def cs' nth_append)
  show "nat n < length xs \<Longrightarrow>
    tm_text (m\<lparr>tm_buffer := Heap cs', write_index := write_index m + n\<rparr>) = tm_text m @ take (nat n) xs"
    using wn cs fit by (simp add: tm_text_def cs')
qed

lemma tm_ok_close:
  assumes "tm_ok m"
  defines "m' \<equiv> m\<lparr>tm_buffer := Heap ((tm_bytes m)[nat (write_index m) := NUL])\<rparr>"
  shows "buf_write (tm_buffer m) (write_index m) NUL = Some (tm_buffer m')"
    and "tm_ok m'" "tm_closed m'" "tm_text m' = tm_text m"
proof -
  from assms(1) obtain cs where cs: "tm_buffer m = Heap cs" "length cs = Suc (nat (tm_capacity m))"
    "0 \<le> write_index m" "write_index m \<le> tm_capacity m"
    by (elim tm_okE) auto
  then show "buf_write (tm_buffer m) (write_index m) NUL = Some (tm_buffer m')"
    and "tm_closed m'" "tm_text m' = tm_text m"
    by (auto simp: m'_def tm_closed_def tm_text_def)
  show "tm_ok m'"
    unfolding m'_def using assms(1) cs by (intro tm_ok_terminate)
qed

text \<open>The effect of \<open>vnprintf\<close>: it reports success when the whole text is at most as long
  as the room, and then moves the write index by the length of the text; what it stores
  is the text only when it is shorter than the room and than \<open>max_size\<close>.\<close>

lemma vnprintf_spec:
  assumes "tm_ok m" "0 \<le> max_size" "NUL \<notin> set out" "int (length out) \<le> INT_MAX"
  shows "\<exists>m'. vnprintf max_size out m = Some (int (length out) \<le> avail_size m, m') \<and> tm_ok m' \<and>
    tm_capacity m' = tm_capacity m \<and> limit_index m' = limit_index m \<and>
    tm_severity m' = tm_severity m \<and> tm_timestamp m' = tm_timestamp m \<and>
    (int (length out) < min (avail_size m) max_size \<longrightarrow>
       tm_text m' = tm_text m @ out \<and> tm_closed m') \<and>
    (int (length out) > avail_size m \<longrightarrow> tm_text m' = tm_text m \<and> tm_closed m' \<and>
       write_index m' = write_index m) \<and>
    (int (length out) \<le> avail_size m \<longrightarrow> write_index m' = write_index m + int (length out)) \<and>
    (out \<noteq> [] \<and> int (length out) = avail_size m \<and> avail_size m \<le> max_size \<longrightarrow>
       tm_text m' = tm_text m @ butlast out @ [NUL])"
proof -
  let ?sz = "min (avail_size m) max_size"
  let ?xs = "snprintf_stored (nat ?sz) out"
  from assms(1) have a: "0 \<le> avail_size m" "avail_size m \<le> INT_MAX"
    by (auto simp: avail_size_def elim!: tm_okE)
  then have sz: "size_of_int ?sz = nat ?sz" using assms(2) by (simp add: size_of_int_def)
  have len: "int (length ?xs) \<le> avail_size m"
    using snprintf_stored_length [of "nat ?sz" out] a by linarith
  have res: "snprintf_result out = int (length out)" using assms(4) by (simp add: snprintf_result_def)
  let ?cs = "take (nat (write_index m)) (tm_bytes m) @ ?xs @
             drop (nat (write_index m) + length ?xs) (tm_bytes m)"
  show ?thesis
  proof (cases "int (length out) \<le> avail_size m")
    case True
    let ?m' = "m\<lparr>tm_buffer := Heap ?cs, write_index := write_index m + int (length out)\<rparr>"
    note sp = tm_ok_splice [OF assms(1) len _ True]
    have run: "vnprintf max_size out m = Some (True, ?m')"
      using sp(1) True by (simp add: vnprintf_def sz res)
    have small: "tm_text ?m' = tm_text m @ out \<and> tm_closed ?m'" if "int (length out) < ?sz"
    proof -
      have "?xs = out @ [NUL]" using that by (intro snprintf_stored_fits) linarith
      with sp(6,7) show ?thesis by simp
    qed
    have exact: "tm_text ?m' = tm_text m @ butlast out @ [NUL]"
      if "out \<noteq> []" "int (length out) = avail_size m" "avail_size m \<le> max_size"
    proof -
      have "nat ?sz = length out" using that by linarith
      with that(1) have "?xs = butlast out @ [NUL]"
        by (simp add: snprintf_stored_def butlast_conv_take)
      with sp(5) that(1) show ?thesis by simp
    qed
    show ?thesis using run sp(2) small exact True by (intro exI [of _ ?m']) auto
  next
    case False
    let ?m1 = "m\<lparr>tm_buffer := Heap ?cs\<rparr>"
    note sp = tm_ok_splice [OF assms(1) len order_refl a(1)]
    let ?m' = "?m1\<lparr>tm_buffer := Heap (?cs[nat (write_index m) := NUL])\<rparr>"
    have c: "tm_bytes ?m1 = ?cs" "write_index ?m1 = write_index m" by simp_all
    note cl = tm_ok_close [OF sp(3), unfolded c]
    have "vnprintf max_size out m = Some (False, ?m')"
      using sp(1) False cl(1) by (simp add: vnprintf_def sz res)
    moreover have "tm_ok ?m'" "tm_closed ?m'" "tm_text ?m' = tm_text m"
      using cl(2-4) sp(4) by simp_all
    ultimately show ?thesis using False by (intro exI [of _ ?m']) simp
  qed
qed

lemma tm_ok_timestamp [simp]: "tm_ok (m\<lparr>tm_timestamp := t\<rparr>) = tm_ok m"
  by (cases "tm_buffer m") (simp_all add: tm_ok_def tm_alloc_def tm_bytes_def)

lemma tm_ok_severity [simp]: "tm_ok (m\<lparr>tm_severity := i\<rparr>) = tm_ok m"
  by (cases "tm_buffer m") (simp_all add: tm_ok_def tm_alloc_def tm_bytes_def)

lemma tm_ok_limit: "tm_ok m \<Longrightarrow> tm_ok (snd (limit sz m))"
  by (auto simp: tm_ok_def limit_def clip_def avail_size_def tm_alloc_def tm_bytes_def split: cbuffer.splits)

lemma tm_ok_unlimit: "tm_ok m \<Longrightarrow> tm_ok (unlimit m)"
  by (auto simp: tm_ok_def unlimit_def tm_alloc_def tm_bytes_def split: cbuffer.splits)

lemma tm_ok_unlimit_to: "tm_ok m \<Longrightarrow> write_index m \<le> i \<Longrightarrow> tm_ok (unlimit_to i m)"
  by (auto simp: tm_ok_def unlimit_to_def clip_def tm_alloc_def tm_bytes_def split: cbuffer.splits)

lemma rewind_spec:
  assumes "tm_ok m"
  shows "\<exists>m'. rewind i m = Some m' \<and> tm_ok m' \<and> tm_closed m' \<and> tm_capacity m' = tm_capacity m \<and>
    limit_index m' = limit_index m \<and> write_index m' = clip i 0 (limit_index m) \<and>
    (i \<le> write_index m \<longrightarrow> tm_text m' = take (nat i) (tm_text m))"
proof -
  from assms obtain cs where cs: "tm_buffer m = Heap cs" "0 < tm_capacity m"
    "length cs = Suc (nat (tm_capacity m))" "0 \<le> write_index m" "write_index m \<le> limit_index m"
    "limit_index m \<le> tm_capacity m" by (elim tm_okE)
  let ?w = "clip i 0 (limit_index m)"
  have w: "0 \<le> ?w" "?w \<le> limit_index m" using cs clip_bounds [of 0 "limit_index m" i] by auto
  note t = tm_ok_terminate [OF assms w(1) order_trans [OF w(2) cs(6)]]
  let ?m' = "m\<lparr>write_index := ?w, tm_buffer := Heap ((tm_bytes m)[nat ?w := NUL])\<rparr>"
  have "rewind i m = Some ?m'" using t(1) by (simp add: rewind_def Let_def)
  moreover have "tm_ok ?m'" using t(2) w by (auto simp: tm_ok_def tm_alloc_def)
  moreover have "tm_closed ?m'" using cs w by (simp add: tm_closed_def)
  moreover have "tm_text ?m' = take (nat i) (tm_text m)" if "i \<le> write_index m"
    using that cs w by (auto simp: tm_text_def clip_def min_def max_def)
  ultimately show ?thesis by (intro exI [of _ ?m']) auto
qed

text \<open>\<open>operator=\<close> from a message with capacity: the copy has the same fields and the same
  text, whatever the destination held.\<close>

lemma copy_text_spec:
  assumes "tm_alloc d" "tm_alloc m" "tm_capacity d = tm_capacity m"
    and "tm_bytes d ! nat (tm_capacity d) = NUL"
  obtains ds where "copy_text (tm_buffer d) (tm_buffer m) (tm_capacity d) = Some (Heap ds)"
    "length ds = length (tm_bytes d)" "ds ! nat (tm_capacity d) = NUL"
    "takeWhile (\<lambda>c. c \<noteq> NUL) ds = takeWhile (\<lambda>c. c \<noteq> NUL) (take (nat (tm_capacity m)) (tm_bytes m))"
proof -
  from assms(1,2) obtain cd cm where c: "tm_buffer d = Heap cd" "tm_buffer m = Heap cm"
    "length cd = Suc (nat (tm_capacity d))" "length cm = Suc (nat (tm_capacity m))"
    "0 < tm_capacity m" "tm_capacity m < INT_MAX" by (elim tm_allocE)
  let ?n = "nat (tm_capacity m)"
  let ?t = "takeWhile (\<lambda>c. c \<noteq> NUL) (take ?n cm)"
  let ?ds = "?t @ replicate (?n - length ?t) NUL @ drop ?n cd"
  have sz: "size_of_int (tm_capacity m) = ?n" using c by simp
  have t: "length ?t \<le> ?n" by (rule order_trans [OF length_takeWhile_le]) simp
  have "copy_text (tm_buffer d) (tm_buffer m) (tm_capacity d) = Some (Heap ?ds)"
    using c assms(3) by (simp add: copy_text_def strncpy_def sz Let_def)
  moreover have "length ?ds = length (tm_bytes d)" using c assms(3) t by simp
  moreover have "?ds ! ?n = NUL" using t c assms(3,4) by (simp add: nth_append)
  moreover have "takeWhile (\<lambda>c. c \<noteq> NUL) ?ds = ?t"
  proof (cases "length ?t < ?n")
    case True
    then obtain k where "?n - length ?t = Suc k" by (metis Suc_diff_Suc)
    then have "?ds = ?t @ NUL # (replicate k NUL @ drop ?n cd)" by simp
    then show ?thesis by (simp only:) (rule takeWhile_stop, auto dest: set_takeWhileD)
  next
    case False
    have "drop ?n cd = NUL # []" using c assms(3,4)
      by (metis Cons_nth_drop_Suc append_Nil2 drop_all lessI order_refl tm_bytes_Heap)
    with False have "?ds = ?t @ NUL # []" by simp
    then show ?thesis by (simp only:) (rule takeWhile_stop, auto dest: set_takeWhileD)
  qed
  ultimately show thesis using that assms(3) c by simp
qed

lemma assign_spec:
  assumes "tm_ok m" and "tm_capacity d > 0 \<longrightarrow> tm_alloc d"
    and "tm_capacity d = tm_capacity m \<longrightarrow> tm_bytes d ! nat (tm_capacity d) = NUL"
  shows "\<exists>d'. assign g m d = Some d' \<and> tm_ok d' \<and> tm_capacity d' = tm_capacity m \<and>
    write_index d' = write_index m \<and> limit_index d' = limit_index m \<and>
    tm_severity d' = tm_severity m \<and> tm_timestamp d' = tm_timestamp m \<and>
    get_buffer d' = get_buffer m"
proof -
  from assms(1) obtain cm where cm: "tm_buffer m = Heap cm" "0 < tm_capacity m"
    "tm_capacity m < INT_MAX" "length cm = Suc (nat (tm_capacity m))"
    "cm ! nat (tm_capacity m) = NUL" "0 \<le> write_index m" "write_index m \<le> limit_index m"
    "limit_index m \<le> tm_capacity m" by (elim tm_okE)
  obtain d1 where d1: "(if tm_capacity m \<noteq> tm_capacity d then realloc g (tm_capacity m) d else Some d) = Some d1"
    "tm_alloc d1" "tm_capacity d1 = tm_capacity m" "tm_bytes d1 ! nat (tm_capacity d1) = NUL"
  proof (cases "tm_capacity m = tm_capacity d")
    case True
    with assms cm that show ?thesis by auto
  next
    case False
    obtain d1 where r: "realloc g (tm_capacity m) d = Some d1" "tm_fresh d1" "tm_capacity d1 = tm_capacity m"
      using cm(2,3) assms(2) by (rule realloc_fresh)
    show ?thesis using that r False by (auto simp: tm_fresh_def tm_ok_def)
  qed
  obtain ds where ds: "copy_text (tm_buffer d1) (tm_buffer m) (tm_capacity d1) = Some (Heap ds)"
    "length ds = length (tm_bytes d1)" "ds ! nat (tm_capacity d1) = NUL"
    "takeWhile (\<lambda>c. c \<noteq> NUL) ds = takeWhile (\<lambda>c. c \<noteq> NUL) (take (nat (tm_capacity m)) (tm_bytes m))"
    using d1(2) tm_ok_alloc [OF assms(1)] d1(3,4) by (rule copy_text_spec)
  let ?d' = "d1\<lparr>write_index := write_index m, limit_index := limit_index m, tm_severity := tm_severity m,
     tm_timestamp := tm_timestamp m, tm_buffer := Heap ds\<rparr>"
  have run: "assign g m d = Some ?d'" using d1(1) ds(1) by (auto simp: assign_def)
  have len: "length ds = Suc (nat (tm_capacity m))" using ds(2) d1(2,3) by (auto elim!: tm_allocE)
  have ok: "tm_ok ?d'" using cm len ds(3) d1(3) by (simp add: tm_ok_def tm_alloc_def)
  have "takeWhile (\<lambda>c. c \<noteq> NUL) cm = takeWhile (\<lambda>c. c \<noteq> NUL) (take (nat (tm_capacity m)) cm)"
    using cm by (intro takeWhile_drop_last) auto
  moreover have "NUL \<in> set cm" using cm(4,5) by (metis lessI nth_mem)
  moreover have "NUL \<in> set ds" using len ds(3) d1(3) by (metis lessI nth_mem)
  ultimately have "get_buffer ?d' = get_buffer m"
    using cm(1) ds(4) by (simp add: get_buffer_def c_str_def)
  with run ok d1(3) show ?thesis by (intro exI [of _ ?d']) simp
qed

section \<open>The producer interface\<close>

text \<open>Every call a producer makes on a message, as data; \<open>legal_op\<close> are the calls whose
  arguments the callers keep: a limit is only restored upwards, and \<open>nprintf\<close> is given a
  size and not a negative number.\<close>

datatype tm_op =
    Recycle | Limit int | Unlimit | Unlimit_To int | Rewind int
  | Write string | Printf string | Nprintf int string | Stamp int int | Severity int

fun run_op :: "tm_op \<Rightarrow> trace_message \<Rightarrow> trace_message option" where
  "run_op Recycle m = recycle m"
| "run_op (Limit n) m = Some (snd (limit n m))"
| "run_op Unlimit m = Some (unlimit m)"
| "run_op (Unlimit_To i) m = Some (unlimit_to i m)"
| "run_op (Rewind i) m = rewind i m"
| "run_op (Write s) m = map_option snd (tm_write s m)"
| "run_op (Printf s) m = map_option snd (tm_printf s m)"
| "run_op (Nprintf n s) m = map_option snd (tm_nprintf n s m)"
| "run_op (Stamp t u) m = Some (set_timestamp t u m)"
| "run_op (Severity n) m = Some (set_severity n m)"

fun legal_op :: "tm_op \<Rightarrow> trace_message \<Rightarrow> bool" where
  "legal_op (Unlimit_To i) m \<longleftrightarrow> write_index m \<le> i"
| "legal_op (Write s) m \<longleftrightarrow> NUL \<notin> set s"
| "legal_op (Printf s) m \<longleftrightarrow> NUL \<notin> set s \<and> int (length s) \<le> INT_MAX"
| "legal_op (Nprintf n s) m \<longleftrightarrow> 0 \<le> n \<and> NUL \<notin> set s \<and> int (length s) \<le> INT_MAX"
| "legal_op x m \<longleftrightarrow> True"

fun run_ops :: "tm_op list \<Rightarrow> trace_message \<Rightarrow> trace_message option" where
  "run_ops [] m = Some m"
| "run_ops (x # xs) m = do { m' \<leftarrow> run_op x m; run_ops xs m' }"

fun legal_ops :: "tm_op list \<Rightarrow> trace_message \<Rightarrow> bool" where
  "legal_ops [] m \<longleftrightarrow> True"
| "legal_ops (x # xs) m \<longleftrightarrow>
     legal_op x m \<and> (case run_op x m of None \<Rightarrow> True | Some m' \<Rightarrow> legal_ops xs m')"

lemma run_op_ok:
  assumes "tm_ok m" "legal_op x m"
  shows "\<exists>m'. run_op x m = Some m' \<and> tm_ok m' \<and> tm_capacity m' = tm_capacity m"
proof (cases x)
  case Recycle
  from assms(1) obtain m' where "recycle m = Some m'" "tm_fresh m'" "tm_capacity m' = tm_capacity m"
    by (blast intro: recycle_fresh tm_ok_alloc)
  with Recycle show ?thesis by (auto dest: tm_fresh_ok)
next
  case (Limit n)
  with tm_ok_limit [OF assms(1)] show ?thesis by (simp add: limit_def)
next
  case Unlimit
  with tm_ok_unlimit [OF assms(1)] show ?thesis by (simp add: unlimit_def)
next
  case (Unlimit_To i)
  with tm_ok_unlimit_to [OF assms(1)] assms(2) show ?thesis by (simp add: unlimit_to_def)
next
  case (Rewind i)
  with rewind_spec [OF assms(1), of i] show ?thesis by auto
next
  case (Write s)
  with tm_write_spec [OF assms(1), of s] assms(2) show ?thesis by auto
next
  case (Printf s)
  have "0 \<le> avail_size m" using assms(1) by (simp add: tm_ok_def avail_size_def)
  with Printf vnprintf_spec [OF assms(1), of "avail_size m" s] assms(2) show ?thesis
    by (auto simp: tm_printf_def)
next
  case (Nprintf n s)
  with vnprintf_spec [OF assms(1), of n s] assms(2) show ?thesis by (auto simp: tm_nprintf_def)
next
  case (Stamp t u)
  with assms(1) show ?thesis by (simp add: set_timestamp_def)
next
  case (Severity n)
  with assms(1) show ?thesis by (simp add: set_severity_def)
qed

lemma run_ops_ok:
  "tm_ok m \<Longrightarrow> legal_ops xs m \<Longrightarrow>
   \<exists>m'. run_ops xs m = Some m' \<and> tm_ok m' \<and> tm_capacity m' = tm_capacity m"
proof (induction xs arbitrary: m)
  case Nil
  then show ?case by simp
next
  case (Cons x xs)
  from Cons.prems obtain m1 where "run_op x m = Some m1" "tm_ok m1" "tm_capacity m1 = tm_capacity m"
    using run_op_ok [of m x] by auto
  with Cons.prems(2) Cons.IH [of m1] show ?case by auto
qed

section \<open>Properties\<close>

text \<open>C5: from a constructed message with capacity, no sequence of producer calls with legal
  arguments writes outside the buffer or reads past it: every call is defined, the message
  stays well formed with the same capacity, and \<open>get_buffer\<close> finds a terminated string.\<close>

theorem message_ops_safe:
  assumes "0 < n" "n < INT_MAX" "trace_message_new g n = Some m" "legal_ops xs m"
  shows "\<exists>m' t. run_ops xs m = Some m' \<and> tm_ok m' \<and> tm_capacity m' = n \<and> get_buffer m' = Some t"
proof -
  from assms(1-3) have "tm_ok m" "tm_capacity m = n"
    by (auto elim!: trace_message_new_fresh [of n g] dest: tm_fresh_ok)
  with run_ops_ok [OF _ assms(4)] get_buffer_defined show ?thesis by blast
qed

theorem message_ops_safe_witness:
  "\<exists>m m' t. trace_message_new (\<lambda>_. CHR ''?'') 8 = Some m \<and>
     run_ops [Write ''ab'', Limit 3, Printf ''cdefg'', Rewind 1] m = Some m' \<and> tm_ok m' \<and>
     tm_capacity m' = 8 \<and> get_buffer m' = Some t"
proof -
  obtain m where m: "trace_message_new (\<lambda>_. CHR ''?'') 8 = Some m" "tm_ok m"
    by (rule trace_message_new_fresh [of 8 "\<lambda>_. CHR ''?''"]) (auto dest: tm_fresh_ok)
  have "legal_ops [Write ''ab'', Limit 3, Printf ''cdefg'', Rewind 1] m"
    by (simp split: option.split)
  from message_ops_safe [OF _ _ m(1) this] m(1) show ?thesis by auto
qed

text \<open>C8: \<open>write\<close> appends the whole text, terminates it and returns true exactly when the
  text and its NUL fit below the limit; otherwise it appends the prefix that fits, fills the
  message up to the limit and returns false.  The limit, the severity and the timestamp stay.\<close>

theorem write_appends:
  assumes "tm_ok m" "NUL \<notin> set s"
  shows "\<exists>m'. tm_write s m = Some (int (length s) < avail_size m, m') \<and> tm_ok m' \<and>
    tm_text m' = tm_text m @ take (nat (avail_size m)) s \<and>
    limit_index m' = limit_index m \<and> tm_severity m' = tm_severity m \<and>
    tm_timestamp m' = tm_timestamp m \<and>
    (int (length s) < avail_size m \<and> NUL \<notin> set (tm_text m) \<longrightarrow>
       get_buffer m' = Some (tm_text m @ s))"
proof -
  from tm_write_spec [OF assms] obtain m' where m':
    "tm_write s m = Some (int (length s) < avail_size m, m')" "tm_ok m'"
    "tm_text m' = tm_text m @ take (nat (avail_size m)) s" "limit_index m' = limit_index m"
    "tm_severity m' = tm_severity m" "tm_timestamp m' = tm_timestamp m"
    "int (length s) < avail_size m \<longrightarrow> tm_closed m'" by blast
  moreover have "get_buffer m' = Some (tm_text m @ s)"
    if "int (length s) < avail_size m" "NUL \<notin> set (tm_text m)"
    using get_buffer_text [OF m'(2)] m'(3,7) that assms(2) by simp
  ultimately show ?thesis by blast
qed

text \<open>A concrete message for the witnesses: eight bytes of capacity, holding \<open>ab\<close>.\<close>

definition sample_message :: trace_message where
  "sample_message = \<lparr>tm_capacity = 8, tm_buffer = Heap (''ab'' @ replicate 7 NUL),
     write_index = 2, limit_index = 8, tm_severity = 7, tm_timestamp = 1000\<rparr>"

lemma sample_message_ok: "tm_ok sample_message" "tm_text sample_message = ''ab''"
  "avail_size sample_message = 6"
  by (simp_all add: sample_message_def tm_ok_def tm_alloc_def tm_bytes_def tm_text_def avail_size_def
      numeral_nat)

theorem write_appends_witness:
  "\<exists>m'. tm_write ''cde'' sample_message = Some (True, m') \<and> get_buffer m' = Some ''abcde''"
  using write_appends [OF sample_message_ok(1), of "''cde''"] sample_message_ok
  by (auto simp del: tm_write.simps)

text \<open>C9: \<open>printf\<close> of a text shorter than the room appends it, terminates it and returns
  true; of a text longer than the room it appends nothing, leaves the write index where it
  was, terminates there and returns false.  A text that is exactly as long as the room is the
  subject of \<open>exact_fit_hides_rest\<close>.\<close>

theorem printf_all_or_nothing:
  assumes "tm_ok m" "NUL \<notin> set out" "int (length out) \<le> INT_MAX" "NUL \<notin> set (tm_text m)"
    and "int (length out) \<noteq> avail_size m"
  shows "\<exists>m'. tm_printf out m = Some (int (length out) < avail_size m, m') \<and> tm_ok m' \<and>
    get_buffer m' = Some (if int (length out) < avail_size m then tm_text m @ out else tm_text m) \<and>
    write_index m' = write_index m + (if int (length out) < avail_size m then int (length out) else 0) \<and>
    limit_index m' = limit_index m \<and> tm_timestamp m' = tm_timestamp m"
proof -
  have a: "0 \<le> avail_size m" using assms(1) by (simp add: tm_ok_def avail_size_def)
  from vnprintf_spec [OF assms(1) a assms(2,3)] obtain m' where m':
    "tm_printf out m = Some (int (length out) \<le> avail_size m, m')" "tm_ok m'"
    "limit_index m' = limit_index m" "tm_timestamp m' = tm_timestamp m"
    "int (length out) < avail_size m \<longrightarrow> tm_text m' = tm_text m @ out \<and> tm_closed m'"
    "int (length out) > avail_size m \<longrightarrow> tm_text m' = tm_text m \<and> tm_closed m' \<and>
       write_index m' = write_index m"
    "int (length out) \<le> avail_size m \<longrightarrow> write_index m' = write_index m + int (length out)"
    unfolding tm_printf_def by auto
  show ?thesis
  proof (cases "int (length out) < avail_size m")
    case True
    with m' get_buffer_text [OF m'(2)] assms(2,4) show ?thesis by (intro exI [of _ m']) auto
  next
    case False
    with m' get_buffer_text [OF m'(2)] assms(4,5) show ?thesis by (intro exI [of _ m']) auto
  qed
qed

theorem printf_all_or_nothing_witness:
  "(\<exists>m'. tm_printf ''12345'' sample_message = Some (True, m') \<and> get_buffer m' = Some ''ab12345'') \<and>
   (\<exists>m'. tm_printf ''1234567'' sample_message = Some (False, m') \<and> get_buffer m' = Some ''ab'')"
  using printf_all_or_nothing [OF sample_message_ok(1), of "''12345''"]
    printf_all_or_nothing [OF sample_message_ok(1), of "''1234567''"] sample_message_ok by auto

text \<open>The success test of \<open>vnprintf\<close> compares with the room and not with what was
  stored: when the text is at least as long as \<open>max_size\<close> but no longer than the room, the
  call returns true and moves the write index by the length of the text, although the
  message now reads as the old text and the first \<open>max_size - 1\<close> bytes only.  For
  \<open>printf\<close>, whose \<open>max_size\<close> is the room, a text that fills the room loses its last byte.\<close>

lemma vnprintf_truncates_silently:
  assumes "tm_ok m" "0 < max_size" "NUL \<notin> set out" "NUL \<notin> set (tm_text m)"
    and "max_size \<le> int (length out)" "int (length out) \<le> avail_size m"
  shows "\<exists>m'. vnprintf max_size out m = Some (True, m') \<and>
    write_index m' = write_index m + int (length out) \<and>
    get_buffer m' = Some (tm_text m @ take (nat max_size - 1) out)"
proof -
  from assms(1) obtain cs where cs: "tm_buffer m = Heap cs" "length cs = Suc (nat (tm_capacity m))"
    "0 \<le> write_index m" "write_index m \<le> limit_index m" "limit_index m \<le> tm_capacity m"
    "tm_capacity m < INT_MAX" by (elim tm_okE)
  let ?xs = "take (nat max_size - 1) out @ [NUL]" and ?w = "nat (write_index m)"
  have sz: "snprintf_stored (size_of_int (min (avail_size m) max_size)) out = ?xs"
  proof -
    have "min (avail_size m) max_size = max_size" using assms(5,6) by linarith
    with assms(2,5,6) cs show ?thesis by (simp add: snprintf_stored_def avail_size_def)
  qed
  have len: "length ?xs = nat max_size" using assms(2,5) by auto
  have res: "snprintf_result out = int (length out)"
    using assms(6) cs by (auto simp: snprintf_result_def avail_size_def)
  have fit: "int (length ?xs) \<le> avail_size m" using len assms(2,5,6) by linarith
  note sp = tm_ok_splice [OF assms(1) fit _ assms(6)]
  let ?cs = "take ?w (tm_bytes m) @ ?xs @ drop (?w + length ?xs) (tm_bytes m)"
  let ?m' = "m\<lparr>tm_buffer := Heap ?cs, write_index := write_index m + int (length out)\<rparr>"
  have run: "vnprintf max_size out m = Some (True, ?m')"
    unfolding vnprintf_def sz using sp(1) assms(6) by (simp add: res del: length_append)
  have "c_str ((take ?w cs @ take (nat max_size - 1) out) @ NUL # drop (?w + length ?xs) cs) =
      Some (take ?w cs @ take (nat max_size - 1) out)"
  proof -
    let ?t = "take ?w cs @ take (nat max_size - 1) out"
    have "NUL \<notin> set ?t" using assms(3,4) cs(1) by (auto simp: tm_text_def dest: in_set_takeD)
    then show ?thesis by (rule c_str_append)
  qed
  then have "get_buffer ?m' = Some (tm_text m @ take (nat max_size - 1) out)"
    using cs(1) by (simp add: get_buffer_def tm_text_def)
  with run show ?thesis by (intro exI [of _ ?m']) simp
qed

lemma vnprintf_truncates_silently_example:
  "(\<exists>m'. vnprintf 6 ''uvwxyz'' sample_message = Some (True, m') \<and> get_buffer m' = Some ''abuvwxy'') \<and>
   (\<exists>m'. vnprintf 3 ''vwxyz'' sample_message = Some (True, m') \<and> write_index m' = 7 \<and>
      get_buffer m' = Some ''abvw'')"
  using vnprintf_truncates_silently [OF sample_message_ok(1), of 6 "''uvwxyz''"]
    vnprintf_truncates_silently [OF sample_message_ok(1), of 3 "''vwxyz''"] sample_message_ok
  by (auto simp: sample_message_def numeral_nat)

text \<open>C11: assignment copies a message whatever the destination held before (any well-formed
  message, or one without a buffer): the copy is well formed, with the capacity, the
  indices, the severity, the timestamp and the string of the source.\<close>

theorem assign_copies:
  assumes "tm_ok m" and "tm_ok d \<or> trace_message_new g 0 = Some d"
  shows "\<exists>d'. assign g m d = Some d' \<and> tm_ok d' \<and> tm_capacity d' = tm_capacity m \<and>
    write_index d' = write_index m \<and> limit_index d' = limit_index m \<and>
    tm_severity d' = tm_severity m \<and> tm_timestamp d' = tm_timestamp m \<and>
    get_buffer d' = get_buffer m"
proof (rule assign_spec [OF assms(1)])
  show "tm_capacity d > 0 \<longrightarrow> tm_alloc d"
    using assms(2) by (auto simp: tm_ok_def trace_message_new_def)
  have "0 < tm_capacity m" using assms(1) by (elim tm_okE)
  then show "tm_capacity d = tm_capacity m \<longrightarrow> tm_bytes d ! nat (tm_capacity d) = NUL"
    using assms(2) by (auto simp: tm_ok_def trace_message_new_def)
qed

theorem assign_copies_witness:
  "\<exists>d d'. trace_message_new (\<lambda>_. CHR ''?'') 0 = Some d \<and> assign (\<lambda>_. CHR ''?'') sample_message d = Some d' \<and>
     tm_timestamp d' = 1000 \<and> get_buffer d' = get_buffer sample_message"
proof -
  obtain d where d: "trace_message_new (\<lambda>_. CHR ''?'') 0 = Some d" by (simp add: trace_message_new_def)
  from assign_copies [OF sample_message_ok(1), of d "\<lambda>_. CHR ''?''"] d show ?thesis
    by (auto simp: sample_message_def)
qed

text \<open>Rewinding to an earlier offset undoes a write, whether it succeeded or was cut at
  the limit: the message reads again as the text before it.\<close>

lemma rewind_undoes_write:
  assumes "tm_ok m" "NUL \<notin> set s" "NUL \<notin> set (tm_text m)"
  shows "\<exists>b m1 m2. tm_write s m = Some (b, m1) \<and> rewind (write_index m) m1 = Some m2 \<and>
    tm_ok m2 \<and> write_index m2 = write_index m \<and> get_buffer m2 = Some (tm_text m)"
proof -
  from tm_write_spec [OF assms(1,2)] obtain b m1 where m1: "tm_write s m = Some (b, m1)" "tm_ok m1"
    "tm_text m1 = tm_text m @ take (nat (avail_size m)) s" "limit_index m1 = limit_index m" by blast
  from assms(1) have w: "0 \<le> write_index m" "write_index m \<le> limit_index m" by (simp_all add: tm_ok_def)
  have lt: "length (tm_text m) = nat (write_index m)"
    using assms(1) by (auto simp: tm_text_def elim!: tm_okE)
  have le: "write_index m \<le> write_index m1"
  proof -
    have "length (tm_text m1) \<le> nat (write_index m1)" by (simp add: tm_text_def)
    moreover have "length (tm_text m) \<le> length (tm_text m1)" by (simp add: m1(3))
    moreover have "0 \<le> write_index m1" using m1(2) by (simp add: tm_ok_def)
    ultimately show ?thesis using lt w(1) by linarith
  qed
  from rewind_spec [OF m1(2), of "write_index m"] le obtain m2 where m2:
    "rewind (write_index m) m1 = Some m2" "tm_ok m2" "tm_closed m2"
    "write_index m2 = clip (write_index m) 0 (limit_index m1)"
    "tm_text m2 = take (nat (write_index m)) (tm_text m1)" by blast
  have "tm_text m2 = tm_text m" using m2(5) lt by (simp add: m1(3))
  with get_buffer_text [OF m2(2,3)] assms(3) m1(1) m2(1,2,4) w m1(4) show ?thesis by auto
qed

lemma rewind_undoes_write_example:
  "\<exists>b m1 m2. tm_write ''123456789'' sample_message = Some (b, m1) \<and>
     rewind (write_index sample_message) m1 = Some m2 \<and> get_buffer m2 = Some ''ab''"
  using rewind_undoes_write [OF sample_message_ok(1), of "''123456789''"] sample_message_ok
  by (auto simp del: tm_write.simps)

text \<open>\<open>realloc\<close> to no capacity is undefined: the buffer is given back or is the literal
  \<open>""\<close>, the capacity field is not reset, and \<open>recycle\<close> then writes through the pointer.\<close>

lemma realloc_zero_undefined:
  assumes "tm_ok m \<or> trace_message_new g 0 = Some m" and "n \<le> 0"
  shows "realloc g n m = None"
proof -
  from assms(1) have "tm_capacity m > 0 \<and> (\<exists>cs. tm_buffer m = Heap cs) \<or>
      tm_capacity m = 0 \<and> tm_buffer m = Static"
    by (auto simp: trace_message_new_def elim: tm_okE)
  with assms(2) show ?thesis by (auto simp: realloc_def recycle_def)
qed

lemma realloc_zero_undefined_example:
  "realloc (\<lambda>_. NUL) 0 sample_message = None"
  by (rule realloc_zero_undefined) (simp_all add: sample_message_ok)

end
