(* ===== verification/Mintomic.thy ===== *)
theory Mintomic
  imports Prelude
begin

text \<open>
  The atomic operations of \<open>mintomic/\<close>: loads, stores, compare-and-exchange and the
  read-modify-write operations the ring buffer is built on, in their x86, x64, ARM and
  MSVC forms.  An operation takes the memory cell and returns its result with the new
  cell.  Where the code retries (a \<open>cmpxchg\<close> loop, an \<open>ldrex\<close>/\<open>strex\<close> loop), the other
  threads act between its instructions: the list argument holds, for each round that is
  disturbed, what they do to the cell in that round; after the list the cell is quiet.
\<close>

unbundle bit_operations_syntax

section \<open>x86 instructions\<close>

text \<open>\<open>lock; cmpxchg src, mem\<close>: (ZF, EAX afterwards, memory afterwards).\<close>

definition cmpxchg :: "'a::len word \<Rightarrow> 'a word \<Rightarrow> 'a word \<Rightarrow> bool \<times> 'a word \<times> 'a word" where
  "cmpxchg eax mem src = (if mem = eax then (True, eax, src) else (False, mem, mem))"

text \<open>\<open>lock; xadd reg, mem\<close>: (register afterwards, memory afterwards).\<close>

definition xadd :: "'a::len word \<Rightarrow> 'a word \<Rightarrow> 'a word \<times> 'a word" where
  "xadd reg mem = (mem, mem + reg)"

text \<open>The loop \<open>1: mov mem, eax; mov eax, tmp; op tmp; lock cmpxchg tmp, mem; jne 1b\<close> and
  the C loop of 32-bit x86 around \<open>cmpxchg8b\<close>.  A disturbed round is what the plain load
  saw, where it was not one value of the cell (a 64-bit load in two halves), and the
  effect of the others between the load and the \<open>cmpxchg\<close>.\<close>

type_synonym 'a round = "'a word option \<times> ('a word \<Rightarrow> 'a word)"

fun cas_loop :: "('a::len word \<Rightarrow> 'a word) \<Rightarrow> 'a word \<Rightarrow> 'a round list \<Rightarrow> 'a word \<times> 'a word" where
  "cas_loop f mem [] =
     (let original = mem; (zf, eax, mem') = cmpxchg original mem (f original) in (original, mem'))"
| "cas_loop f mem ((seen, e) # es) =
     (let original = (case seen of None \<Rightarrow> mem | Some v \<Rightarrow> v);
          (zf, eax, mem') = cmpxchg original (e mem) (f original)
      in if zf then (original, mem') else cas_loop f mem' es)"

definition whole :: "('a word \<Rightarrow> 'a word) list \<Rightarrow> 'a::len round list" where
  "whole es = map (\<lambda>e. (None, e)) es"

section \<open>32-bit operations on x86\<close>

definition mint_load_32_relaxed :: "u32 \<Rightarrow> u32" where
  "mint_load_32_relaxed object = object"

definition mint_store_32_relaxed :: "u32 \<Rightarrow> u32 \<Rightarrow> u32" where
  "mint_store_32_relaxed object desired = desired"

definition mint_compare_exchange_strong_32_relaxed :: "u32 \<Rightarrow> u32 \<Rightarrow> u32 \<Rightarrow> u32 \<times> u32" where
  "mint_compare_exchange_strong_32_relaxed object expected desired =
     (let (zf, original, object') = cmpxchg expected object desired in (original, object'))"

definition mint_fetch_add_32_relaxed :: "u32 \<Rightarrow> u32 \<Rightarrow> u32 \<times> u32" where
  "mint_fetch_add_32_relaxed object operand = xadd operand object"

definition mint_fetch_and_32_relaxed :: "u32 \<Rightarrow> u32 \<Rightarrow> (u32 \<Rightarrow> u32) list \<Rightarrow> u32 \<times> u32" where
  "mint_fetch_and_32_relaxed object operand es = cas_loop (\<lambda>v. v AND operand) object (whole es)"

definition mint_fetch_or_32_relaxed :: "u32 \<Rightarrow> u32 \<Rightarrow> (u32 \<Rightarrow> u32) list \<Rightarrow> u32 \<times> u32" where
  "mint_fetch_or_32_relaxed object operand es = cas_loop (\<lambda>v. v OR operand) object (whole es)"

section \<open>64-bit operations on x64\<close>

definition mint_load_64_relaxed :: "u64 \<Rightarrow> u64" where
  "mint_load_64_relaxed object = object"

definition mint_store_64_relaxed :: "u64 \<Rightarrow> u64 \<Rightarrow> u64" where
  "mint_store_64_relaxed object desired = desired"

definition mint_compare_exchange_strong_64_relaxed :: "u64 \<Rightarrow> u64 \<Rightarrow> u64 \<Rightarrow> u64 \<times> u64" where
  "mint_compare_exchange_strong_64_relaxed object expected desired =
     (let (zf, original, object') = cmpxchg expected object desired in (original, object'))"

definition mint_fetch_add_64_relaxed :: "u64 \<Rightarrow> u64 \<Rightarrow> u64 \<times> u64" where
  "mint_fetch_add_64_relaxed object operand = xadd operand object"

definition mint_fetch_and_64_relaxed :: "u64 \<Rightarrow> u64 \<Rightarrow> (u64 \<Rightarrow> u64) list \<Rightarrow> u64 \<times> u64" where
  "mint_fetch_and_64_relaxed object operand es = cas_loop (\<lambda>v. v AND operand) object (whole es)"

definition mint_fetch_or_64_relaxed :: "u64 \<Rightarrow> u64 \<Rightarrow> (u64 \<Rightarrow> u64) list \<Rightarrow> u64 \<times> u64" where
  "mint_fetch_or_64_relaxed object operand es = cas_loop (\<lambda>v. v OR operand) object (whole es)"

section \<open>64-bit operations on 32-bit x86\<close>

text \<open>\<open>cmpxchg8b\<close> works on EDX:EAX and ECX:EBX; the load copies EBX and ECX (whatever they
  hold) to EAX and EDX first.\<close>

definition halves :: "u32 \<Rightarrow> u32 \<Rightarrow> u64" where
  "halves hi lo = push_bit 32 (ucast hi) OR ucast lo"

definition mint_load_64_relaxed_x86 :: "u32 \<Rightarrow> u32 \<Rightarrow> u64 \<Rightarrow> u64 \<times> u64" where
  "mint_load_64_relaxed_x86 ecx ebx object =
     (let eax = ebx; edx = ecx; (zf, original, object') = cmpxchg (halves edx eax) object (halves ecx ebx)
      in (original, object'))"

text \<open>The store: \<open>1: cmpxchg8b; jne 1b\<close>, where a failed \<open>cmpxchg8b\<close> leaves the value it
  found in EDX:EAX.  The first argument is what the plain load of \<open>expected\<close> saw.\<close>

fun mint_store_64_relaxed_x86 :: "u64 \<Rightarrow> u64 \<Rightarrow> u64 \<Rightarrow> (u64 \<Rightarrow> u64) list \<Rightarrow> u64" where
  "mint_store_64_relaxed_x86 expected object desired [] =
     (let (zf, eax, object') = cmpxchg expected object desired
      in if zf then object' else (let (zf2, eax2, object2) = cmpxchg eax object' desired in object2))"
| "mint_store_64_relaxed_x86 expected object desired (e # es) =
     (let (zf, eax, object') = cmpxchg expected (e object) desired
      in if zf then object' else mint_store_64_relaxed_x86 eax object' desired es)"

definition mint_compare_exchange_strong_64_relaxed_x86 :: "u64 \<Rightarrow> u64 \<Rightarrow> u64 \<Rightarrow> u64 \<times> u64" where
  "mint_compare_exchange_strong_64_relaxed_x86 object expected desired =
     (let ebx = ucast desired; ecx = ucast (drop_bit 32 desired);
          (zf, original, object') = cmpxchg expected object (halves ecx ebx)
      in (original, object'))"

definition mint_fetch_add_64_relaxed_x86 :: "u64 \<Rightarrow> u64 \<Rightarrow> 64 round list \<Rightarrow> u64 \<times> u64" where
  "mint_fetch_add_64_relaxed_x86 object operand es = cas_loop (\<lambda>v. v + operand) object es"

definition mint_fetch_and_64_relaxed_x86 :: "u64 \<Rightarrow> u64 \<Rightarrow> 64 round list \<Rightarrow> u64 \<times> u64" where
  "mint_fetch_and_64_relaxed_x86 object operand es = cas_loop (\<lambda>v. v AND operand) object es"

definition mint_fetch_or_64_relaxed_x86 :: "u64 \<Rightarrow> u64 \<Rightarrow> 64 round list \<Rightarrow> u64 \<times> u64" where
  "mint_fetch_or_64_relaxed_x86 object operand es = cas_loop (\<lambda>v. v OR operand) object es"

section \<open>MSVC on 32-bit x86\<close>

text \<open>\<open>_InterlockedCompareExchange64(object, desired, expected)\<close>, and the loop that takes the
  value it returned as the next \<open>expected\<close>.\<close>

definition interlocked_compare_exchange :: "'a::len word \<Rightarrow> 'a word \<Rightarrow> 'a word \<Rightarrow> 'a word \<times> 'a word" where
  "interlocked_compare_exchange object desired expected =
     (object, if object = expected then desired else object)"

fun interlocked_loop ::
  "('a::len word \<Rightarrow> 'a word) \<Rightarrow> 'a word \<Rightarrow> 'a word \<Rightarrow> ('a word \<Rightarrow> 'a word) list \<Rightarrow> 'a word \<times> 'a word" where
  "interlocked_loop f expected object [] =
     (let (original, object') = interlocked_compare_exchange object (f expected) expected
      in if original = expected then (original, object')
         else interlocked_compare_exchange object' (f original) original)"
| "interlocked_loop f expected object (e # es) =
     (let (original, object') = interlocked_compare_exchange (e object) (f expected) expected
      in if original = expected then (original, object') else interlocked_loop f original object' es)"

definition mint_fetch_add_64_relaxed_msvc :: "u64 \<Rightarrow> u64 \<Rightarrow> u64 \<Rightarrow> (u64 \<Rightarrow> u64) list \<Rightarrow> u64 \<times> u64" where
  "mint_fetch_add_64_relaxed_msvc seen object operand es =
     interlocked_loop (\<lambda>v. v + operand) seen object es"

definition mint_fetch_and_64_relaxed_msvc :: "u64 \<Rightarrow> u64 \<Rightarrow> u64 \<Rightarrow> (u64 \<Rightarrow> u64) list \<Rightarrow> u64 \<times> u64" where
  "mint_fetch_and_64_relaxed_msvc seen object operand es =
     interlocked_loop (\<lambda>v. v AND operand) seen object es"

definition mint_fetch_or_64_relaxed_msvc :: "u64 \<Rightarrow> u64 \<Rightarrow> u64 \<Rightarrow> (u64 \<Rightarrow> u64) list \<Rightarrow> u64 \<times> u64" where
  "mint_fetch_or_64_relaxed_msvc seen object operand es =
     interlocked_loop (\<lambda>v. v OR operand) seen object es"

section \<open>ARM\<close>

text \<open>An \<open>ldrex\<close>/\<open>strex\<close> round fails when another thread wrote the cell in between, or
  spuriously.\<close>

datatype 'w exclusive = Spurious | Writes "'w \<Rightarrow> 'w"

fun exclusive_effect :: "'w exclusive \<Rightarrow> 'w \<Rightarrow> 'w" where
  "exclusive_effect Spurious v = v"
| "exclusive_effect (Writes e) v = e v"

fun llsc_loop :: "('a::len word \<Rightarrow> 'a word) \<Rightarrow> 'a word \<Rightarrow> 'a word exclusive list \<Rightarrow> 'a word \<times> 'a word" where
  "llsc_loop f mem [] = (let original = mem; desired = f original in (original, desired))"
| "llsc_loop f mem (x # xs) = llsc_loop f (exclusive_effect x mem) xs"

text \<open>Compare-and-exchange: the comparison comes between \<open>ldrex\<close> and \<open>strex\<close> and leaves the
  loop when it fails.\<close>

fun llsc_cas :: "'a::len word \<Rightarrow> 'a word \<Rightarrow> 'a word \<Rightarrow> 'a word exclusive list \<Rightarrow> 'a word \<times> 'a word" where
  "llsc_cas mem expected desired [] =
     (let original = mem in if original \<noteq> expected then (original, mem) else (original, desired))"
| "llsc_cas mem expected desired (x # xs) =
     (let original = mem
      in if original \<noteq> expected then (original, mem)
         else llsc_cas (exclusive_effect x mem) expected desired xs)"

definition mint_compare_exchange_strong_32_relaxed_arm ::
  "u32 \<Rightarrow> u32 \<Rightarrow> u32 \<Rightarrow> u32 exclusive list \<Rightarrow> u32 \<times> u32" where
  "mint_compare_exchange_strong_32_relaxed_arm object expected desired xs =
     llsc_cas object expected desired xs"

definition mint_fetch_add_32_relaxed_arm :: "u32 \<Rightarrow> u32 \<Rightarrow> u32 exclusive list \<Rightarrow> u32 \<times> u32" where
  "mint_fetch_add_32_relaxed_arm object operand xs = llsc_loop (\<lambda>v. v + operand) object xs"

definition mint_fetch_and_32_relaxed_arm :: "u32 \<Rightarrow> u32 \<Rightarrow> u32 exclusive list \<Rightarrow> u32 \<times> u32" where
  "mint_fetch_and_32_relaxed_arm object operand xs = llsc_loop (\<lambda>v. v AND operand) object xs"

definition mint_fetch_or_32_relaxed_arm :: "u32 \<Rightarrow> u32 \<Rightarrow> u32 exclusive list \<Rightarrow> u32 \<times> u32" where
  "mint_fetch_or_32_relaxed_arm object operand xs = llsc_loop (\<lambda>v. v OR operand) object xs"

text \<open>The 64-bit operations of \<open>mintomic_gcc.c\<close> use \<open>ldrexd\<close>/\<open>strexd\<close> on register pairs
  (r0 the low half, r1 the high half) and combine the halves with 32-bit instructions:
  \<open>adds\<close> sets the carry that \<open>adc\<close> adds.\<close>

definition low_half :: "u64 \<Rightarrow> u32" where
  "low_half v = ucast v"

definition high_half :: "u64 \<Rightarrow> u32" where
  "high_half v = ucast (drop_bit 32 v)"

definition adds_adc :: "u64 \<Rightarrow> u64 \<Rightarrow> u64" where
  "adds_adc operand v =
     (let r0 = low_half v; r1 = high_half v; r4 = low_half operand; r2 = high_half operand;
          r6 = r0 + r4;
          carry = (if unat r0 + unat r4 < 4294967296 then 0 else 1);
          r7 = r1 + r2 + carry
      in halves r7 r6)"

definition and_and :: "u64 \<Rightarrow> u64 \<Rightarrow> u64" where
  "and_and operand v =
     halves (high_half v AND high_half operand) (low_half v AND low_half operand)"

definition orr_orr :: "u64 \<Rightarrow> u64 \<Rightarrow> u64" where
  "orr_orr operand v =
     halves (high_half v OR high_half operand) (low_half v OR low_half operand)"

definition mint_load_64_relaxed_arm :: "u64 \<Rightarrow> u64 exclusive list \<Rightarrow> u64 \<times> u64" where
  "mint_load_64_relaxed_arm object xs = llsc_loop (\<lambda>v. v) object xs"

definition mint_store_64_relaxed_arm :: "u64 \<Rightarrow> u64 \<Rightarrow> u64 exclusive list \<Rightarrow> u64" where
  "mint_store_64_relaxed_arm object desired xs = snd (llsc_loop (\<lambda>v. desired) object xs)"

text \<open>\<open>cmp r0, r4; cmpeq r1, r2\<close> compares the low halves and then the high halves.\<close>

fun mint_compare_exchange_strong_64_relaxed_arm ::
  "u64 \<Rightarrow> u64 \<Rightarrow> u64 \<Rightarrow> u64 exclusive list \<Rightarrow> u64 \<times> u64" where
  "mint_compare_exchange_strong_64_relaxed_arm object expected desired [] =
     (let original = object
      in if low_half original = low_half expected \<and> high_half original = high_half expected
         then (original, desired) else (original, object))"
| "mint_compare_exchange_strong_64_relaxed_arm object expected desired (x # xs) =
     (let original = object
      in if low_half original = low_half expected \<and> high_half original = high_half expected
         then mint_compare_exchange_strong_64_relaxed_arm (exclusive_effect x object) expected desired xs
         else (original, object))"

definition mint_fetch_add_64_relaxed_arm :: "u64 \<Rightarrow> u64 \<Rightarrow> u64 exclusive list \<Rightarrow> u64 \<times> u64" where
  "mint_fetch_add_64_relaxed_arm object operand xs = llsc_loop (adds_adc operand) object xs"

definition mint_fetch_and_64_relaxed_arm :: "u64 \<Rightarrow> u64 \<Rightarrow> u64 exclusive list \<Rightarrow> u64 \<times> u64" where
  "mint_fetch_and_64_relaxed_arm object operand xs = llsc_loop (and_and operand) object xs"

definition mint_fetch_or_64_relaxed_arm :: "u64 \<Rightarrow> u64 \<Rightarrow> u64 exclusive list \<Rightarrow> u64 \<times> u64" where
  "mint_fetch_or_64_relaxed_arm object operand xs = llsc_loop (orr_orr operand) object xs"

section \<open>Retry loops are atomic\<close>

text \<open>The interface of a read-modify-write loop: whatever the other threads do in the
  disturbed rounds, the call takes effect at one point between two of their actions, where
  it reads the value it returns and replaces it by its image.\<close>

locale rmw_loop =
  fixes run :: "('a::len word \<Rightarrow> 'a word) \<Rightarrow> 'a word \<Rightarrow> 'e list \<Rightarrow> 'a word \<times> 'a word"
    and effect :: "'e \<Rightarrow> 'a word \<Rightarrow> 'a word"
  assumes atomic: "run f mem es = (r, mem') \<Longrightarrow>
    \<exists>k \<le> length es. r = fold effect (take k es) mem \<and> mem' = f r"
begin

lemma undisturbed: "run f mem [] = (mem, f mem)"
  using atomic [of f mem "[]"] by (cases "run f mem []") auto

text \<open>Rely/guarantee: a condition the others keep holds of the value that is replaced.\<close>

lemma rely:
  assumes "run f mem es = (r, mem')" "P mem"
    and "\<And>e v. e \<in> set es \<Longrightarrow> P v \<Longrightarrow> P (effect e v)"
  shows "P r \<and> mem' = f r"
proof -
  from atomic [OF assms(1)] obtain k where k: "r = fold effect (take k es) mem" "mem' = f r" by blast
  have "P (fold effect xs v)" if "P v" "set xs \<subseteq> set es" for xs v
    using that assms(3) by (induction xs arbitrary: v) auto
  with k assms(2) show ?thesis by (auto dest: in_set_takeD)
qed

end

lemma cas_loop_atomic:
  "cas_loop f mem es = (r, mem') \<Longrightarrow>
   \<exists>k \<le> length es. r = fold snd (take k es) mem \<and> mem' = f r"
proof (induction es arbitrary: mem)
  case Nil
  then show ?case by (auto simp: cmpxchg_def Let_def)
next
  case (Cons x es)
  obtain seen e where x: "x = (seen, e)" by (cases x)
  let ?o = "case seen of None \<Rightarrow> mem | Some v \<Rightarrow> v"
  show ?case
  proof (cases "e mem = ?o")
    case True
    with Cons.prems x have "r = e mem \<and> mem' = f r" by (auto simp: cmpxchg_def Let_def)
    with x show ?thesis by (intro exI [of _ 1]) simp
  next
    case False
    with Cons.prems x have "cas_loop f (e mem) es = (r, mem')" by (simp add: cmpxchg_def Let_def)
    from Cons.IH [OF this] obtain k where "k \<le> length es" "r = fold snd (take k es) (e mem)" "mem' = f r"
      by blast
    with x show ?thesis by (intro exI [of _ "Suc k"]) simp
  qed
qed

lemma interlocked_loop_atomic:
  "interlocked_loop f expected mem es = (r, mem') \<Longrightarrow>
   \<exists>k \<le> length es. r = fold id (take k es) mem \<and> mem' = f r"
proof (induction es arbitrary: mem expected)
  case Nil
  then show ?case by (auto simp: interlocked_compare_exchange_def Let_def split: if_splits)
next
  case (Cons e es)
  show ?case
  proof (cases "e mem = expected")
    case True
    with Cons.prems have "r = e mem \<and> mem' = f r" by (auto simp: interlocked_compare_exchange_def)
    then show ?thesis by (intro exI [of _ 1]) simp
  next
    case False
    with Cons.prems have "interlocked_loop f (e mem) (e mem) es = (r, mem')"
      by (simp add: interlocked_compare_exchange_def)
    from Cons.IH [OF this] obtain k where "k \<le> length es" "r = fold id (take k es) (e mem)" "mem' = f r"
      by blast
    then show ?thesis by (intro exI [of _ "Suc k"]) (simp add: id_def)
  qed
qed

lemma llsc_loop_eq: "llsc_loop f mem xs = (let v = fold exclusive_effect xs mem in (v, f v))"
  by (induction xs arbitrary: mem) simp_all

lemma llsc_loop_atomic:
  assumes "llsc_loop f mem xs = (r, mem')"
  shows "\<exists>k \<le> length xs. r = fold exclusive_effect (take k xs) mem \<and> mem' = f r"
  using assms by (intro exI [of _ "length xs"]) (auto simp: llsc_loop_eq Let_def)

interpretation cas: rmw_loop cas_loop snd
  by unfold_locales (rule cas_loop_atomic)

interpretation interlocked: rmw_loop "\<lambda>f. interlocked_loop f seen" id
  by unfold_locales (rule interlocked_loop_atomic)

interpretation llsc: rmw_loop llsc_loop exclusive_effect
  by unfold_locales (rule llsc_loop_atomic)

section \<open>Halves\<close>

lemma halves_halves: "halves (high_half v) (low_half v) = v"
  by (rule bit_word_eqI) (auto simp: halves_def high_half_def low_half_def bit_simps)

lemma unat_halves: "unat (halves h l) = unat h * 4294967296 + unat l"
  by (simp only: halves_def combine_halves)

lemma unat_eq_halves: "unat v = unat (high_half v) * 4294967296 + unat (low_half v)"
  by (subst halves_halves [of v, symmetric]) (rule unat_halves)

lemma and_and_eq: "and_and operand v = v AND operand"
  by (rule bit_word_eqI) (auto simp: and_and_def halves_def high_half_def low_half_def bit_simps)

lemma orr_orr_eq: "orr_orr operand v = v OR operand"
  by (rule bit_word_eqI) (auto simp: orr_orr_def halves_def high_half_def low_half_def bit_simps)

lemma same_halves: "low_half v = low_half w \<and> high_half v = high_half w \<longleftrightarrow> v = w"
  by (metis halves_halves)

lemma adds_adc_eq: "adds_adc operand v = v + operand"
proof -
  let ?h = "unat (high_half v)" and ?a = "unat (low_half v)"
  let ?k = "unat (high_half operand)" and ?b = "unat (low_half operand)"
  let ?B = "4294967296 :: nat"
  define c :: nat where "c = (if ?a + ?b < ?B then 0 else 1)"
  have lt: "?a < ?B" "?b < ?B"
    using unsigned_less [of "low_half v"] unsigned_less [of "low_half operand"] by simp_all
  have low: "unat (low_half v + low_half operand) = (?a + ?b) mod ?B"
    by (simp add: unat_word_ariths)
  have ab: "?a + ?b = c * ?B + (?a + ?b) mod ?B"
    using lt by (auto simp: c_def not_less mod_if)
  have "unat (high_half v + high_half operand + (if ?a + ?b < ?B then 0 else 1)) = (?h + ?k + c) mod ?B"
    by (simp add: unat_word_ariths c_def mod_simps)
  then have "unat (adds_adc operand v) = (?h + ?k + c) mod ?B * ?B + (?a + ?b) mod ?B"
    by (simp add: adds_adc_def Let_def unat_halves low)
  also have "\<dots> = ((?h + ?k + c) * ?B + (?a + ?b) mod ?B) mod (?B * ?B)"
    by (rule mod_square [symmetric]) simp
  also have "(?h + ?k + c) * ?B + (?a + ?b) mod ?B = (?h * ?B + ?a) + (?k * ?B + ?b)"
    using ab by (simp add: algebra_simps)
  also have "\<dots> = unat v + unat operand"
    by (simp add: unat_eq_halves [of v] unat_eq_halves [of operand])
  finally show ?thesis by (simp add: word_unat_eq_iff unat_word_ariths)
qed

section \<open>Properties\<close>

text \<open>What an atomic update of a cell is: it happens after some of the other threads'
  actions, returns the value of the cell at that point and leaves its image.\<close>

definition atomic_update ::
  "('w \<Rightarrow> 'w) \<Rightarrow> ('w \<Rightarrow> 'w) list \<Rightarrow> 'w \<Rightarrow> 'w \<times> 'w \<Rightarrow> bool" where
  "atomic_update f others mem res \<longleftrightarrow>
     (\<exists>k \<le> length others. fst res = fold (\<lambda>e. e) (take k others) mem \<and> snd res = f (fst res))"

lemma cas_loop_update: "atomic_update f (map snd es) mem (cas_loop f mem es)"
  using cas.atomic [of f mem es "fst (cas_loop f mem es)" "snd (cas_loop f mem es)"]
  by (auto simp: atomic_update_def take_map fold_map comp_def id_def)

lemma interlocked_loop_update: "atomic_update f es mem (interlocked_loop f seen mem es)"
  using interlocked.atomic [of f seen mem es "fst (interlocked_loop f seen mem es)"
      "snd (interlocked_loop f seen mem es)"]
  by (auto simp: atomic_update_def id_def)

lemma llsc_loop_update: "atomic_update f (map exclusive_effect xs) mem (llsc_loop f mem xs)"
  using llsc.atomic [of f mem xs "fst (llsc_loop f mem xs)" "snd (llsc_loop f mem xs)"]
  by (auto simp: atomic_update_def take_map fold_map comp_def)

lemma map_snd_whole [simp]: "map snd (whole es) = es"
  by (simp add: whole_def comp_def)

text \<open>C12: on every platform but MSVC for x64, which has an intrinsic, \<open>mint_fetch_and_64_relaxed\<close> (the operation that wraps the
  head of the ring buffer) is an atomic \<open>AND\<close>: the x64 \<open>cmpxchgq\<close> loop, the 32-bit x86
  \<open>cmpxchg8b\<close> loop even when its plain load is torn, the MSVC loop whatever its first load
  saw, and the ARM \<open>ldrexd\<close>/\<open>strexd\<close> loop on the two halves.\<close>

theorem fetch_and_64_atomic:
  "atomic_update (\<lambda>v. v AND m) es x (mint_fetch_and_64_relaxed x m es) \<and>
   atomic_update (\<lambda>v. v AND m) (map snd rs) x (mint_fetch_and_64_relaxed_x86 x m rs) \<and>
   atomic_update (\<lambda>v. v AND m) es x (mint_fetch_and_64_relaxed_msvc seen x m es) \<and>
   atomic_update (\<lambda>v. v AND m) (map exclusive_effect xs) x (mint_fetch_and_64_relaxed_arm x m xs)"
proof (intro conjI)
  show "atomic_update (\<lambda>v. v AND m) es x (mint_fetch_and_64_relaxed x m es)"
    unfolding mint_fetch_and_64_relaxed_def
    using cas_loop_update [of "\<lambda>v. v AND m" "whole es" x] by simp
  show "atomic_update (\<lambda>v. v AND m) (map snd rs) x (mint_fetch_and_64_relaxed_x86 x m rs)"
    unfolding mint_fetch_and_64_relaxed_x86_def by (rule cas_loop_update)
  show "atomic_update (\<lambda>v. v AND m) es x (mint_fetch_and_64_relaxed_msvc seen x m es)"
    unfolding mint_fetch_and_64_relaxed_msvc_def by (rule interlocked_loop_update)
  have "and_and m = (\<lambda>v. v AND m)" by (simp add: fun_eq_iff and_and_eq)
  then show "atomic_update (\<lambda>v. v AND m) (map exclusive_effect xs) x (mint_fetch_and_64_relaxed_arm x m xs)"
    unfolding mint_fetch_and_64_relaxed_arm_def by (simp only:) (rule llsc_loop_update)
qed

text \<open>\<open>mint_fetch_add_64_relaxed\<close> (the increment of the head and of the counters) is an
  atomic addition modulo \<open>2 ^ 64\<close> on every platform, the ARM \<open>adds\<close>/\<open>adc\<close> pair included.\<close>

lemma fetch_add_64_atomic:
  "mint_fetch_add_64_relaxed x n = (x, x + n) \<and>
   atomic_update (\<lambda>v. v + n) (map snd rs) x (mint_fetch_add_64_relaxed_x86 x n rs) \<and>
   atomic_update (\<lambda>v. v + n) es x (mint_fetch_add_64_relaxed_msvc seen x n es) \<and>
   atomic_update (\<lambda>v. v + n) (map exclusive_effect xs) x (mint_fetch_add_64_relaxed_arm x n xs)"
proof (intro conjI)
  show "mint_fetch_add_64_relaxed x n = (x, x + n)"
    by (simp add: mint_fetch_add_64_relaxed_def xadd_def)
  show "atomic_update (\<lambda>v. v + n) (map snd rs) x (mint_fetch_add_64_relaxed_x86 x n rs)"
    unfolding mint_fetch_add_64_relaxed_x86_def by (rule cas_loop_update)
  show "atomic_update (\<lambda>v. v + n) es x (mint_fetch_add_64_relaxed_msvc seen x n es)"
    unfolding mint_fetch_add_64_relaxed_msvc_def by (rule interlocked_loop_update)
  have "adds_adc n = (\<lambda>v. v + n)" by (simp add: fun_eq_iff adds_adc_eq)
  then show "atomic_update (\<lambda>v. v + n) (map exclusive_effect xs) x (mint_fetch_add_64_relaxed_arm x n xs)"
    unfolding mint_fetch_add_64_relaxed_arm_def by (simp only:) (rule llsc_loop_update)
qed

text \<open>The 64-bit load, store and compare-and-exchange of 32-bit x86 behave as the single
  instructions of x64: the load returns the cell and leaves it, the store ends with the
  desired value whatever was read first and whatever the others do, and the exchange
  reassembles the desired value from its halves.\<close>

lemma x86_64bit_accesses:
  "mint_load_64_relaxed_x86 c b x = (mint_load_64_relaxed x, x) \<and>
   mint_store_64_relaxed_x86 seen x d es = mint_store_64_relaxed y d \<and>
   mint_compare_exchange_strong_64_relaxed_x86 x e d = mint_compare_exchange_strong_64_relaxed x e d"
proof (intro conjI)
  show "mint_load_64_relaxed_x86 c b x = (mint_load_64_relaxed x, x)"
    by (simp add: mint_load_64_relaxed_x86_def mint_load_64_relaxed_def cmpxchg_def)
  show "mint_store_64_relaxed_x86 seen x d es = mint_store_64_relaxed y d"
    by (induction es arbitrary: seen x)
      (auto simp: cmpxchg_def mint_store_64_relaxed_def Let_def)
  have "halves (ucast (drop_bit 32 d)) (ucast d) = d"
    using halves_halves [of d] by (simp add: high_half_def low_half_def)
  then show "mint_compare_exchange_strong_64_relaxed_x86 x e d = mint_compare_exchange_strong_64_relaxed x e d"
    by (simp add: mint_compare_exchange_strong_64_relaxed_x86_def
        mint_compare_exchange_strong_64_relaxed_def)
qed

end
