(* ===== verification/Mintomic_Ports.thy ===== *)
theory Mintomic_Ports
  imports Mintomic
begin

text \<open>
  The rest of the ports of \<open>mintomic/\<close>: the Windows intrinsics, the plain accesses of ARM, the
  functions for ARMv6 in Thumb mode, and the operations on pointers of 32 and 64 bits, which
  \<open>mintomic.h\<close> passes on to those on integers.
\<close>

section \<open>Windows\<close>

text \<open>\<open>_InterlockedExchangeAdd\<close>, \<open>_InterlockedAnd\<close> and \<open>_InterlockedOr\<close>, at both widths, return
  what the cell held.\<close>

definition interlocked :: "('a::len word \<Rightarrow> 'a word) \<Rightarrow> 'a word \<Rightarrow> 'a word \<times> 'a word" where
  "interlocked f object = (object, f object)"

definition mint_load_32_relaxed_msvc :: "u32 \<Rightarrow> u32" where
  "mint_load_32_relaxed_msvc object = object"

definition mint_store_32_relaxed_msvc :: "u32 \<Rightarrow> u32 \<Rightarrow> u32" where
  "mint_store_32_relaxed_msvc object v = v"

definition mint_compare_exchange_strong_32_relaxed_msvc :: "u32 \<Rightarrow> u32 \<Rightarrow> u32 \<Rightarrow> u32 \<times> u32" where
  "mint_compare_exchange_strong_32_relaxed_msvc object expected desired =
     interlocked_compare_exchange object desired expected"

definition mint_fetch_add_32_relaxed_msvc :: "u32 \<Rightarrow> u32 \<Rightarrow> u32 \<times> u32" where
  "mint_fetch_add_32_relaxed_msvc object operand = interlocked (\<lambda>v. v + operand) object"

definition mint_fetch_and_32_relaxed_msvc :: "u32 \<Rightarrow> u32 \<Rightarrow> u32 \<times> u32" where
  "mint_fetch_and_32_relaxed_msvc object operand = interlocked (\<lambda>v. v AND operand) object"

definition mint_fetch_or_32_relaxed_msvc :: "u32 \<Rightarrow> u32 \<Rightarrow> u32 \<times> u32" where
  "mint_fetch_or_32_relaxed_msvc object operand = interlocked (\<lambda>v. v OR operand) object"

text \<open>64 bits on 32-bit x86: the load compares and exchanges the value in EDX:EAX with itself; the
  store retries \<open>cmpxchg8b\<close>, which reloads EDX:EAX, starting with what the registers held.\<close>

definition mint_load_64_relaxed_msvc :: "u32 \<Rightarrow> u32 \<Rightarrow> u64 \<Rightarrow> u64 \<times> u64" where
  "mint_load_64_relaxed_msvc edx eax object =
     (let ebx = eax; ecx = edx;
          (zf, original, object') = cmpxchg (halves edx eax) object (halves ecx ebx)
      in (halves (high_half original) (low_half original), object'))"

fun mint_store_64_relaxed_msvc :: "u64 \<Rightarrow> u64 \<Rightarrow> u64 \<Rightarrow> (u64 \<Rightarrow> u64) list \<Rightarrow> u64" where
  "mint_store_64_relaxed_msvc edx_eax object v [] =
     (let ebx = low_half v; ecx = high_half v; (zf, edx_eax, object') = cmpxchg edx_eax object (halves ecx ebx)
      in if zf then object'
         else (let (zf2, edx_eax2, object2) = cmpxchg edx_eax object' (halves ecx ebx) in object2))"
| "mint_store_64_relaxed_msvc edx_eax object v (e # es) =
     (let ebx = low_half v; ecx = high_half v; (zf, edx_eax, object') = cmpxchg edx_eax (e object) (halves ecx ebx)
      in if zf then object' else mint_store_64_relaxed_msvc edx_eax object' v es)"

definition mint_compare_exchange_strong_64_relaxed_msvc :: "u64 \<Rightarrow> u64 \<Rightarrow> u64 \<Rightarrow> u64 \<times> u64" where
  "mint_compare_exchange_strong_64_relaxed_msvc object expected desired =
     interlocked_compare_exchange object desired expected"

section \<open>ARM\<close>

definition mint_load_32_relaxed_arm :: "u32 \<Rightarrow> u32" where
  "mint_load_32_relaxed_arm object = object"

definition mint_store_32_relaxed_arm :: "u32 \<Rightarrow> u32 \<Rightarrow> u32" where
  "mint_store_32_relaxed_arm object desired = desired"

text \<open>The standalone functions of \<open>mintomic_gcc.c\<close> for Thumb mode: the object's address in r4, the
  value read in r0, the operand in r1, the new value in r2, and the outcome of \<open>strex\<close> in r3.\<close>

definition mint_compare_exchange_strong_32_relaxed_thumb ::
  "u32 \<Rightarrow> u32 \<Rightarrow> u32 \<Rightarrow> u32 exclusive list \<Rightarrow> u32 \<times> u32" where
  "mint_compare_exchange_strong_32_relaxed_thumb object r1 r2 xs = llsc_cas object r1 r2 xs"

definition mint_fetch_add_32_relaxed_thumb :: "u32 \<Rightarrow> u32 \<Rightarrow> u32 exclusive list \<Rightarrow> u32 \<times> u32" where
  "mint_fetch_add_32_relaxed_thumb object r1 xs = llsc_loop (\<lambda>r0. let r2 = r0 + r1 in r2) object xs"

definition mint_fetch_and_32_relaxed_thumb :: "u32 \<Rightarrow> u32 \<Rightarrow> u32 exclusive list \<Rightarrow> u32 \<times> u32" where
  "mint_fetch_and_32_relaxed_thumb object r1 xs = llsc_loop (\<lambda>r0. let r2 = r0 AND r1 in r2) object xs"

definition mint_fetch_or_32_relaxed_thumb :: "u32 \<Rightarrow> u32 \<Rightarrow> u32 exclusive list \<Rightarrow> u32 \<times> u32" where
  "mint_fetch_or_32_relaxed_thumb object r1 xs = llsc_loop (\<lambda>r0. let r2 = r0 OR r1 in r2) object xs"

section \<open>Pointers\<close>

text \<open>Four bytes, and eight bytes; on the x86 family.\<close>

definition mint_load_ptr_relaxed_4 :: "u32 \<Rightarrow> u32" where
  "mint_load_ptr_relaxed_4 object = mint_load_32_relaxed object"

definition mint_store_ptr_relaxed_4 :: "u32 \<Rightarrow> u32 \<Rightarrow> u32" where
  "mint_store_ptr_relaxed_4 object desired = mint_store_32_relaxed object desired"

definition mint_compare_exchange_strong_ptr_relaxed_4 :: "u32 \<Rightarrow> u32 \<Rightarrow> u32 \<Rightarrow> u32 \<times> u32" where
  "mint_compare_exchange_strong_ptr_relaxed_4 object expected desired =
     mint_compare_exchange_strong_32_relaxed object expected desired"

definition mint_fetch_add_ptr_relaxed_4 :: "u32 \<Rightarrow> int \<Rightarrow> u32 \<times> u32" where
  "mint_fetch_add_ptr_relaxed_4 object operand = mint_fetch_add_32_relaxed object (word_of_int operand)"

definition mint_fetch_and_ptr_relaxed_4 :: "u32 \<Rightarrow> u32 \<Rightarrow> (u32 \<Rightarrow> u32) list \<Rightarrow> u32 \<times> u32" where
  "mint_fetch_and_ptr_relaxed_4 object operand es = mint_fetch_and_32_relaxed object operand es"

definition mint_fetch_or_ptr_relaxed_4 :: "u32 \<Rightarrow> u32 \<Rightarrow> (u32 \<Rightarrow> u32) list \<Rightarrow> u32 \<times> u32" where
  "mint_fetch_or_ptr_relaxed_4 object operand es = mint_fetch_or_32_relaxed object operand es"

definition mint_load_ptr_relaxed_8 :: "u64 \<Rightarrow> u64" where
  "mint_load_ptr_relaxed_8 object = mint_load_64_relaxed object"

definition mint_store_ptr_relaxed_8 :: "u64 \<Rightarrow> u64 \<Rightarrow> u64" where
  "mint_store_ptr_relaxed_8 object desired = mint_store_64_relaxed object desired"

definition mint_compare_exchange_strong_ptr_relaxed_8 :: "u64 \<Rightarrow> u64 \<Rightarrow> u64 \<Rightarrow> u64 \<times> u64" where
  "mint_compare_exchange_strong_ptr_relaxed_8 object expected desired =
     mint_compare_exchange_strong_64_relaxed object expected desired"

definition mint_fetch_add_ptr_relaxed_8 :: "u64 \<Rightarrow> int \<Rightarrow> u64 \<times> u64" where
  "mint_fetch_add_ptr_relaxed_8 object operand = mint_fetch_add_64_relaxed object (word_of_int operand)"

definition mint_fetch_and_ptr_relaxed_8 :: "u64 \<Rightarrow> u64 \<Rightarrow> (u64 \<Rightarrow> u64) list \<Rightarrow> u64 \<times> u64" where
  "mint_fetch_and_ptr_relaxed_8 object operand es = mint_fetch_and_64_relaxed object operand es"

definition mint_fetch_or_ptr_relaxed_8 :: "u64 \<Rightarrow> u64 \<Rightarrow> (u64 \<Rightarrow> u64) list \<Rightarrow> u64 \<times> u64" where
  "mint_fetch_or_ptr_relaxed_8 object operand es = mint_fetch_or_64_relaxed object operand es"

section \<open>The ports agree\<close>

text \<open>Every port of the 32-bit compare-and-exchange that nobody disturbs is the x86 instruction.\<close>

lemma compare_exchange_32_ports:
  "mint_compare_exchange_strong_32_relaxed_msvc x e d = mint_compare_exchange_strong_32_relaxed x e d"
  "mint_compare_exchange_strong_32_relaxed_arm x e d [] = mint_compare_exchange_strong_32_relaxed x e d"
  "mint_compare_exchange_strong_32_relaxed_thumb x e d xs = mint_compare_exchange_strong_32_relaxed_arm x e d xs"
  by (simp_all add: mint_compare_exchange_strong_32_relaxed_msvc_def mint_compare_exchange_strong_32_relaxed_def
      mint_compare_exchange_strong_32_relaxed_arm_def mint_compare_exchange_strong_32_relaxed_thumb_def
      interlocked_compare_exchange_def cmpxchg_def)

lemma interlocked_update: "atomic_update f [] x (interlocked f x)"
  by (simp add: atomic_update_def interlocked_def)

text \<open>The 64-bit accesses of 32-bit Windows are those of one instruction, whatever the registers hold
  before and whatever the other threads do between the attempts of the store.\<close>

lemma msvc_64bit_accesses:
  "mint_load_64_relaxed_msvc d a x = (mint_load_64_relaxed x, x)"
  "mint_store_64_relaxed_msvc seen x v es = mint_store_64_relaxed x v"
  "mint_compare_exchange_strong_64_relaxed_msvc x e v = mint_compare_exchange_strong_64_relaxed x e v"
proof -
  show "mint_load_64_relaxed_msvc d a x = (mint_load_64_relaxed x, x)"
    by (simp add: mint_load_64_relaxed_msvc_def mint_load_64_relaxed_def cmpxchg_def halves_halves Let_def)
  show "mint_store_64_relaxed_msvc seen x v es = mint_store_64_relaxed x v"
    by (induction es arbitrary: seen x)
      (auto simp: cmpxchg_def mint_store_64_relaxed_def Let_def halves_halves)
qed (simp add: mint_compare_exchange_strong_64_relaxed_msvc_def mint_compare_exchange_strong_64_relaxed_def
    interlocked_compare_exchange_def cmpxchg_def)

text \<open>The read-modify-write operations on 32 bits are atomic on every port: with any interference
  between their instructions, the x86 loop, the Windows intrinsic, the ARM loop and its standalone form for
  Thumb mode each take effect at one moment, return what the cell held then and leave its image,
  here for \<open>mint_fetch_or\<close> (also through its pointer wrapper) and \<open>mint_fetch_add\<close>.\<close>

lemma rmw_32_atomic:
  "atomic_update (\<lambda>v. v OR m) es x (mint_fetch_or_32_relaxed x m es) \<and>
   atomic_update (\<lambda>v. v OR m) [] x (mint_fetch_or_32_relaxed_msvc x m) \<and>
   atomic_update (\<lambda>v. v OR m) (map exclusive_effect xs) x (mint_fetch_or_32_relaxed_arm x m xs) \<and>
   atomic_update (\<lambda>v. v OR m) (map exclusive_effect xs) x (mint_fetch_or_32_relaxed_thumb x m xs) \<and>
   atomic_update (\<lambda>v. v OR m) es x (mint_fetch_or_ptr_relaxed_4 x m es) \<and>
   atomic_update (\<lambda>v. v + n) [] x (mint_fetch_add_32_relaxed x n) \<and>
   atomic_update (\<lambda>v. v + n) [] x (mint_fetch_add_32_relaxed_msvc x n) \<and>
   atomic_update (\<lambda>v. v + n) (map exclusive_effect xs) x (mint_fetch_add_32_relaxed_arm x n xs) \<and>
   atomic_update (\<lambda>v. v + n) (map exclusive_effect xs) x (mint_fetch_add_32_relaxed_thumb x n xs)"
  using cas_loop_update [of "\<lambda>v. v OR m" "whole es" x] llsc_loop_update [of "\<lambda>v. v OR m" xs x]
    llsc_loop_update [of "\<lambda>v. v + n" xs x] interlocked_update [of "\<lambda>v. v OR m" x] interlocked_update [of "\<lambda>v. v + n" x]
  by (simp add: mint_fetch_or_32_relaxed_def mint_fetch_or_32_relaxed_msvc_def mint_fetch_or_32_relaxed_arm_def
      mint_fetch_or_32_relaxed_thumb_def mint_fetch_or_ptr_relaxed_4_def mint_fetch_add_32_relaxed_def xadd_def
      mint_fetch_add_32_relaxed_msvc_def mint_fetch_add_32_relaxed_arm_def mint_fetch_add_32_relaxed_thumb_def interlocked_def)

end
