(* ===== verification/Ring_Buffer.thy ===== *)
theory Ring_Buffer
  imports Trace_Message Mintomic
begin

text \<open>
  \<open>trace_message_ring_buffer.h\<close>: the atomic flags and counters, and the
  multi-producer, single-consumer ring of trace messages.  \<open>reserve_push\<close> and \<open>pop\<close> are
  composed of the atomic steps they make on the ring, so that the interleavings of
  \<open>Ring_Concurrent\<close> run the same steps.  What the other threads do to a busy flag between
  two attempts to take it is the list argument of \<open>lock_element\<close>.  A thread that spins
  for ever, and an access outside an array, is \<^const>\<open>None\<close>.
\<close>

section \<open>Atomic flags and counters\<close>

definition test_and_set :: "u32 \<Rightarrow> bool \<times> u32" where
  "test_and_set flag =
     (let (old, flag') = mint_compare_exchange_strong_32_relaxed flag 0 1 in (old = 0, flag'))"

definition test_flag :: "u32 \<Rightarrow> bool" where
  "test_flag flag \<longleftrightarrow> mint_load_32_relaxed flag = 1"

definition clear_flag :: "u32 \<Rightarrow> u32" where
  "clear_flag flag = mint_store_32_relaxed flag 0"

definition inc32 :: "u32 \<Rightarrow> u32 \<times> u32" where
  "inc32 v = mint_fetch_add_32_relaxed v 1"

definition and_assign32 :: "u32 \<Rightarrow> u32 \<Rightarrow> u32 \<times> u32" where
  "and_assign32 v x = mint_fetch_and_32_relaxed v x []"

definition inc :: "u64 \<Rightarrow> u64 \<times> u64" where
  "inc v = mint_fetch_add_64_relaxed v 1"

definition and_assign :: "u64 \<Rightarrow> u64 \<Rightarrow> u64 \<times> u64" where
  "and_assign v x = mint_fetch_and_64_relaxed v x []"

definition load :: "u64 \<Rightarrow> u64" where
  "load v = mint_load_64_relaxed v"

definition store :: "u64 \<Rightarrow> u64 \<Rightarrow> u64" where
  "store v x = mint_store_64_relaxed v x"

section \<open>The ring\<close>

record ring =
  capacity :: nat
  trace_message_capacity :: nat
  elements :: "trace_message list"
  busy :: "u32 list"
  has_data :: "u32 list"
  head :: u64
  tail :: int
  overflow_counter :: u64
  resettable_overflow_counter :: u64
  spinlock_consumer_wait_counter :: u64
  spinlock_producer_wait_counter :: u64

text \<open>The constructor.  \<open>g i\<close> is what the fresh buffer of element \<open>i\<close> holds.\<close>

definition ring_new :: "(nat \<Rightarrow> nat \<Rightarrow> char) \<Rightarrow> nat \<Rightarrow> nat \<Rightarrow> ring option" where
  "ring_new g n tm_cap = do {
     ms \<leftarrow> those (map (\<lambda>i. do { m \<leftarrow> trace_message_new (g i) 0;
                                realloc (g i) (int_of_size tm_cap) m }) [0..<n]);
     Some \<lparr>capacity = n, trace_message_capacity = tm_cap, elements = ms,
           busy = map (\<lambda>i. clear_flag 0) [0..<n], has_data = map (\<lambda>i. clear_flag 0) [0..<n],
           head = store 0 0, tail = 0, overflow_counter = store 0 0,
           resettable_overflow_counter = store 0 0, spinlock_consumer_wait_counter = store 0 0,
           spinlock_producer_wait_counter = store 0 0\<rparr> }"

text \<open>The destructor: \<open>delete[] elements\<close> runs the destructor of every message.\<close>

definition ring_delete :: "ring \<Rightarrow> cbuffer list option" where
  "ring_delete rb = those (map trace_message_delete (elements rb))"

section \<open>Locking an element\<close>

text \<open>\<open>while (!busy[i].test_and_set()) collision = true;\<close> with the effects of the other
  threads on the flag between two attempts.\<close>

partial_function (option) spin :: "u32 \<Rightarrow> (u32 \<Rightarrow> u32) list \<Rightarrow> bool \<Rightarrow> (bool \<times> u32) option" where
  "spin flag es collision =
     (let (taken, flag') = test_and_set flag
      in if taken then Some (collision, flag')
         else spin (case es of [] \<Rightarrow> flag' | e # _ \<Rightarrow> e flag') (tl es) True)"

declare spin.simps [code]

definition lock_element :: "int \<Rightarrow> (u32 \<Rightarrow> u32) list \<Rightarrow> ring \<Rightarrow> (bool \<times> ring) option" where
  "lock_element i es rb = do {
     flag \<leftarrow> arr_get (busy rb) i;
     (collision, flag') \<leftarrow> spin flag es False;
     bs \<leftarrow> arr_set (busy rb) i flag';
     Some (collision, rb\<lparr>busy := bs\<rparr>) }"

definition unlock_element :: "int \<Rightarrow> ring \<Rightarrow> ring option" where
  "unlock_element i rb = do {
     flag \<leftarrow> arr_get (busy rb) i;
     bs \<leftarrow> arr_set (busy rb) i (clear_flag flag);
     Some (rb\<lparr>busy := bs\<rparr>) }"

definition count_producer_wait :: "bool \<Rightarrow> ring \<Rightarrow> ring" where
  "count_producer_wait collision rb =
     (if collision
      then rb\<lparr>spinlock_producer_wait_counter := snd (inc (spinlock_producer_wait_counter rb))\<rparr>
      else rb)"

definition count_consumer_wait :: "bool \<Rightarrow> ring \<Rightarrow> ring" where
  "count_consumer_wait collision rb =
     (if collision
      then rb\<lparr>spinlock_consumer_wait_counter := snd (inc (spinlock_consumer_wait_counter rb))\<rparr>
      else rb)"

section \<open>The producer's side\<close>

text \<open>\<open>capacity - 1\<close> as a \<open>size_t\<close>.\<close>

definition slot_mask :: "ring \<Rightarrow> u64" where
  "slot_mask rb = of_nat (capacity rb) - 1"

text \<open>\<open>reserved_space = head.inc()\<close>.\<close>

definition take_ticket :: "ring \<Rightarrow> u64 \<times> ring" where
  "take_ticket rb = (let (t, h) = inc (head rb) in (t, rb\<lparr>head := h\<rparr>))"

text \<open>\<open>head &= capacity - 1\<close>.\<close>

definition wrap_head :: "ring \<Rightarrow> ring" where
  "wrap_head rb = rb\<lparr>head := snd (and_assign (head rb) (slot_mask rb))\<rparr>"

text \<open>\<open>has_data[i].test_and_set()\<close>; false when the slot had data.\<close>

definition mark_data :: "nat \<Rightarrow> ring \<Rightarrow> (bool \<times> ring) option" where
  "mark_data i rb = do {
     flag \<leftarrow> arr_get (has_data rb) (int i);
     (let (was_clear, flag') = test_and_set flag
      in do { hs \<leftarrow> arr_set (has_data rb) (int i) flag';
              Some (was_clear, rb\<lparr>has_data := hs\<rparr>) }) }"

definition count_overflow :: "ring \<Rightarrow> ring" where
  "count_overflow rb = rb\<lparr>overflow_counter := snd (inc (overflow_counter rb))\<rparr>"

definition count_resettable :: "ring \<Rightarrow> ring" where
  "count_resettable rb =
     rb\<lparr>resettable_overflow_counter := snd (inc (resettable_overflow_counter rb))\<rparr>"

text \<open>\<open>reserve_push\<close>; the pointer it returns is the index of the element.\<close>

definition reserve_push :: "(u32 \<Rightarrow> u32) list \<Rightarrow> ring \<Rightarrow> (nat \<times> ring) option" where
  "reserve_push es rb =
     (let (reserved_space, rb1) = take_ticket rb;
          (reserved_space, rb2) =
            (if reserved_space \<ge> of_nat (capacity rb1)
             then (reserved_space AND slot_mask rb1, wrap_head rb1)
             else (reserved_space, rb1))
      in do {
        (collision, rb3) \<leftarrow> lock_element (int_of_size (unat reserved_space)) es rb2;
        (was_clear, rb4) \<leftarrow> mark_data (unat reserved_space) (count_producer_wait collision rb3);
        Some (unat reserved_space,
              if \<not> was_clear then count_resettable (count_overflow rb4) else rb4) })"

definition commit_push :: "nat \<Rightarrow> ring \<Rightarrow> ring option" where
  "commit_push elem rb = unlock_element (int_of_size elem) rb"

section \<open>The consumer's side\<close>

text \<open>\<open>tail = (tail + 1) & (capacity - 1)\<close>: computed as a \<open>size_t\<close>, stored as an \<open>int\<close>.\<close>

definition advance_tail :: "ring \<Rightarrow> ring option" where
  "advance_tail rb =
     (if tail rb = INT_MAX then None
      else Some (rb\<lparr>tail := int_of_size (unat (word_of_int (tail rb + 1) AND slot_mask rb))\<rparr>))"

text \<open>What \<open>pop\<close> does with the element while it holds the lock and finds data: it copies
  the message out and recycles it, then clears the data flag.\<close>

definition take_out :: "(nat \<Rightarrow> char) \<Rightarrow> int \<Rightarrow> trace_message \<Rightarrow> ring \<Rightarrow> (trace_message \<times> ring) option" where
  "take_out g i message rb = do {
     rb1 \<leftarrow> advance_tail rb;
     m \<leftarrow> arr_get (elements rb1) i;
     message' \<leftarrow> assign g m message;
     m' \<leftarrow> recycle m;
     ms \<leftarrow> arr_set (elements rb1) i m';
     Some (message', rb1\<lparr>elements := ms\<rparr>) }"

definition clear_data :: "int \<Rightarrow> ring \<Rightarrow> ring option" where
  "clear_data i rb = do {
     flag \<leftarrow> arr_get (has_data rb) i;
     hs \<leftarrow> arr_set (has_data rb) i (clear_flag flag);
     Some (rb\<lparr>has_data := hs\<rparr>) }"

definition consume :: "(nat \<Rightarrow> char) \<Rightarrow> int \<Rightarrow> trace_message \<Rightarrow> ring \<Rightarrow> (trace_message \<times> ring) option" where
  "consume g i message rb = do {
     (message', rb1) \<leftarrow> take_out g i message rb;
     rb2 \<leftarrow> clear_data i rb1;
     Some (message', rb2) }"

definition pop ::
  "(u32 \<Rightarrow> u32) list \<Rightarrow> (nat \<Rightarrow> char) \<Rightarrow> trace_message \<Rightarrow> ring \<Rightarrow> (bool \<times> trace_message \<times> ring) option" where
  "pop es g message rb =
     (let i = tail rb
      in do {
        flag \<leftarrow> arr_get (has_data rb) i;
        (if \<not> test_flag flag then Some (False, message, rb)
         else do {
           (collision, rb1) \<leftarrow> lock_element i es rb;
           (let rb2 = count_consumer_wait collision rb1
            in do {
              flag' \<leftarrow> arr_get (has_data rb2) i;
              (message', rb3) \<leftarrow> (if test_flag flag' then consume g i message rb2
                                   else Some (message, rb2));
              rb4 \<leftarrow> unlock_element i rb3;
              Some (test_flag flag', message', rb4) }) }) })"

section \<open>Counters\<close>

definition get_overflow_counter :: "ring \<Rightarrow> u64" where
  "get_overflow_counter rb = load (overflow_counter rb)"

text \<open>\<open>get_and_reset_overflow_counter\<close>: a load, then a store; the producers count between
  the two, which is the first argument.\<close>

definition get_and_reset_overflow_counter :: "(u64 \<Rightarrow> u64) \<Rightarrow> ring \<Rightarrow> u64 \<times> ring" where
  "get_and_reset_overflow_counter between rb =
     (let r = load (resettable_overflow_counter rb);
          rb' = rb\<lparr>resettable_overflow_counter := between (resettable_overflow_counter rb)\<rparr>
      in (r, rb'\<lparr>resettable_overflow_counter := store (resettable_overflow_counter rb') 0\<rparr>))"

definition get_spinlock_consumer_wait_counter :: "ring \<Rightarrow> u64" where
  "get_spinlock_consumer_wait_counter rb = load (spinlock_consumer_wait_counter rb)"

definition get_spinlock_producer_wait_counter :: "ring \<Rightarrow> u64" where
  "get_spinlock_producer_wait_counter rb = load (spinlock_producer_wait_counter rb)"

section \<open>A producer's call\<close>

text \<open>A producer reserves a slot, works on the message in it and commits it.\<close>

definition push_with :: "(u32 \<Rightarrow> u32) list \<Rightarrow> (trace_message \<Rightarrow> trace_message option) \<Rightarrow> ring \<Rightarrow> ring option" where
  "push_with es f rb = do {
     (i, rb1) \<leftarrow> reserve_push es rb;
     m \<leftarrow> arr_get (elements rb1) (int i);
     m' \<leftarrow> f m;
     ms \<leftarrow> arr_set (elements rb1) (int i) m';
     commit_push i (rb1\<lparr>elements := ms\<rparr>) }"

abbreviation push :: "(u32 \<Rightarrow> u32) list \<Rightarrow> tm_op list \<Rightarrow> ring \<Rightarrow> ring option" where
  "push es ops \<equiv> push_with es (run_ops ops)"

text \<open>\<open>PyWriter.write(severity, message_str)\<close>, at a time the clock shows.\<close>

definition py_write :: "(u32 \<Rightarrow> u32) list \<Rightarrow> int \<Rightarrow> int \<Rightarrow> int \<Rightarrow> string \<Rightarrow> ring \<Rightarrow> ring option" where
  "py_write es tv_sec tv_usec severity message_str rb =
     push es [Stamp tv_sec tv_usec, Severity severity, Write message_str] rb"

section \<open>Flags and locks\<close>

definition is_flag :: "u32 \<Rightarrow> bool" where
  "is_flag f \<longleftrightarrow> f = 0 \<or> f = 1"

lemma test_and_set_0 [simp]: "test_and_set 0 = (True, 1)"
  by (simp add: test_and_set_def mint_compare_exchange_strong_32_relaxed_def cmpxchg_def)

lemma test_and_set_1 [simp]: "test_and_set 1 = (False, 1)"
  by (simp add: test_and_set_def mint_compare_exchange_strong_32_relaxed_def cmpxchg_def)

lemma test_flag_iff [simp]: "test_flag f \<longleftrightarrow> f = 1"
  by (simp add: test_flag_def mint_load_32_relaxed_def)

lemma clear_flag_0 [simp]: "clear_flag f = 0"
  by (simp add: clear_flag_def mint_store_32_relaxed_def)

lemma inc_eq [simp]: "inc v = (v, v + 1)"
  by (simp add: inc_def mint_fetch_add_64_relaxed_def xadd_def)

lemma and_assign_eq [simp]: "and_assign v x = (v, v AND x)"
  by (simp add: and_assign_def mint_fetch_and_64_relaxed_def whole_def cmpxchg_def)

lemma load_eq [simp]: "load v = v"
  by (simp add: load_def mint_load_64_relaxed_def)

lemma store_eq [simp]: "store v x = x"
  by (simp add: store_def mint_store_64_relaxed_def)

lemma spin_free [simp]: "spin 0 es c = Some (c, 1)"
  by (simp add: spin.simps)

lemma spin_taken: "spin 1 (e # es) c = spin (e 1) es True"
  by (subst spin.simps) simp

text \<open>A flag that its holder never clears is spun on for ever.\<close>

lemma spin_stuck: "spin 1 [] c = None"
proof -
  have "spin f es c = Some r \<Longrightarrow> f = 1 \<and> es = [] \<longrightarrow> False" for f es c r
    by (rule spin.raw_induct [of "\<lambda>f es c r. f = 1 \<and> es = [] \<longrightarrow> False"])
      (auto split: prod.splits, fastforce)
  then show ?thesis by (cases "spin 1 [] c") fastforce+
qed

section \<open>The ring invariant\<close>

text \<open>A ring as the program keeps it: a power-of-two number of slots, whose number is an
  \<open>int\<close>, with well-formed messages of the ring's message capacity.\<close>

definition ring_ok :: "ring \<Rightarrow> bool" where
  "ring_ok rb \<longleftrightarrow>
     (\<exists>k \<le> 30. capacity rb = 2 ^ k) \<and>
     0 < trace_message_capacity rb \<and> int (trace_message_capacity rb) < INT_MAX \<and>
     length (elements rb) = capacity rb \<and> length (busy rb) = capacity rb \<and>
     length (has_data rb) = capacity rb \<and>
     list_all (\<lambda>m. tm_ok m \<and> tm_capacity m = int (trace_message_capacity rb)) (elements rb) \<and>
     list_all is_flag (busy rb) \<and> list_all is_flag (has_data rb) \<and>
     0 \<le> tail rb \<and> tail rb < int (capacity rb)"

text \<open>The slot \<open>j\<close> places after the tail.\<close>

definition slot_at :: "ring \<Rightarrow> nat \<Rightarrow> nat" where
  "slot_at rb j = (nat (tail rb) + j) mod capacity rb"

text \<open>No thread is inside an operation, \<open>n\<close> messages wait from the tail on, and the head
  has been moved \<open>d\<close> slots too far by overruns.\<close>

definition ring_at :: "ring \<Rightarrow> nat \<Rightarrow> nat \<Rightarrow> bool" where
  "ring_at rb n d \<longleftrightarrow>
     ring_ok rb \<and> n \<le> capacity rb \<and>
     (\<forall>i < capacity rb. busy rb ! i = 0) \<and>
     (\<forall>j < capacity rb. has_data rb ! slot_at rb j = (if j < n then 1 else 0)) \<and>
     (\<forall>j < capacity rb. n \<le> j \<longrightarrow> tm_fresh (elements rb ! slot_at rb j)) \<and>
     unat (head rb) mod capacity rb = slot_at rb (n + d)"

text \<open>What a reader of the log sees of a message.\<close>

type_synonym msg_view = "string \<times> int \<times> u64"

definition msg_view :: "trace_message \<Rightarrow> msg_view" where
  "msg_view m = (the (get_buffer m), tm_severity m, tm_timestamp m)"

text \<open>The messages that wait, in the order \<open>pop\<close> meets them.\<close>

definition waiting :: "ring \<Rightarrow> msg_view list" where
  "waiting rb = map (\<lambda>i. msg_view (elements rb ! i))
     (takeWhile (\<lambda>i. has_data rb ! i = 1) (map (slot_at rb) [0..<capacity rb]))"

lemma ring_okD:
  assumes "ring_ok rb"
  shows "0 < capacity rb" "capacity rb < 2147483648"
    "length (elements rb) = capacity rb" "length (busy rb) = capacity rb"
    "length (has_data rb) = capacity rb" "0 \<le> tail rb" "tail rb < int (capacity rb)"
    "0 < trace_message_capacity rb" "int (trace_message_capacity rb) < INT_MAX"
proof -
  from assms obtain k where "k \<le> 30" "capacity rb = 2 ^ k" unfolding ring_ok_def by blast
  moreover from this(1) have "(2 :: nat) ^ k \<le> 2 ^ 30" by (rule power_increasing) simp
  ultimately show "0 < capacity rb" "capacity rb < 2147483648" by simp_all
  from assms show "length (elements rb) = capacity rb" "length (busy rb) = capacity rb"
    "length (has_data rb) = capacity rb" "0 \<le> tail rb" "tail rb < int (capacity rb)"
    "0 < trace_message_capacity rb" "int (trace_message_capacity rb) < INT_MAX"
    by (simp_all add: ring_ok_def)
qed

lemma ring_ok_element:
  "ring_ok rb \<Longrightarrow> i < capacity rb \<Longrightarrow>
   tm_ok (elements rb ! i) \<and> tm_capacity (elements rb ! i) = int (trace_message_capacity rb)"
  by (auto simp: ring_ok_def list_all_length)

lemma ring_ok_slot_mask:
  assumes "ring_ok rb"
  shows "unat (x AND slot_mask rb) = unat x mod capacity rb"
proof -
  from assms obtain k where "capacity rb = 2 ^ k" unfolding ring_ok_def by blast
  then show ?thesis by (simp only: slot_mask_def unat_and_size_mask)
qed

lemma ring_ok_inc:
  assumes "ring_ok rb"
  shows "unat (x + 1 :: u64) mod capacity rb = (unat x + 1) mod capacity rb"
proof -
  from assms obtain k where "k \<le> 30" "capacity rb = 2 ^ k" unfolding ring_ok_def by blast
  then show ?thesis using unat_inc_mod [of k x] by simp
qed

lemma ring_ok_ge:
  "ring_ok rb \<Longrightarrow> of_nat (capacity rb) \<le> (x :: u64) \<longleftrightarrow> capacity rb \<le> unat x"
  using word_of_nat_le [of "capacity rb" x] ring_okD(2) [of rb] by auto

lemma slot_at_simps [simp]:
  "slot_at (rb\<lparr>head := h\<rparr>) = slot_at rb"
  "slot_at (rb\<lparr>busy := bs\<rparr>) = slot_at rb"
  "slot_at (rb\<lparr>has_data := hs\<rparr>) = slot_at rb"
  "slot_at (rb\<lparr>elements := ms\<rparr>) = slot_at rb"
  "slot_at (rb\<lparr>overflow_counter := a\<rparr>) = slot_at rb"
  "slot_at (rb\<lparr>resettable_overflow_counter := a\<rparr>) = slot_at rb"
  by (simp_all add: slot_at_def fun_eq_iff)

lemma slot_at_less: "ring_ok rb \<Longrightarrow> slot_at rb j < capacity rb"
  using ring_okD(1) [of rb] by (simp add: slot_at_def)

lemma slot_at_0: "ring_ok rb \<Longrightarrow> slot_at rb 0 = nat (tail rb)"
  using ring_okD(6,7) [of rb] by (simp add: slot_at_def)

lemma slot_at_inj:
  "j < capacity rb \<Longrightarrow> k < capacity rb \<Longrightarrow> slot_at rb j = slot_at rb k \<longleftrightarrow> j = k"
proof -
  assume a: "j < capacity rb" "k < capacity rb"
  have "j = k" if "slot_at rb j = slot_at rb k"
  proof -
    from that have "(nat (tail rb) + j) mod capacity rb = (nat (tail rb) + k) mod capacity rb"
      by (simp add: slot_at_def)
    then have "j mod capacity rb = k mod capacity rb"
      by (auto simp: nat_mod_eq_iff)
    with a show "j = k" by simp
  qed
  then show ?thesis by blast
qed

lemma slot_at_wrap: "slot_at rb (j + capacity rb) = slot_at rb j"
  by (simp add: slot_at_def add.assoc [symmetric])

lemma slot_at_surj:
  assumes "ring_ok rb" "i < capacity rb"
  obtains j where "j < capacity rb" "slot_at rb j = i"
proof -
  let ?C = "capacity rb" and ?t = "nat (tail rb)"
  have t: "?t < ?C" using ring_okD(6,7) [OF assms(1)] by simp
  show thesis
  proof (cases "?t \<le> i")
    case True
    with assms(2) that [of "i - ?t"] show ?thesis by (simp add: slot_at_def)
  next
    case False
    with assms(2) t have "slot_at rb (?C - ?t + i) = i" by (simp add: slot_at_def)
    with False t that [of "?C - ?t + i"] show ?thesis by simp
  qed
qed

lemma waiting_at:
  assumes "ring_at rb n d"
  shows "waiting rb = map (\<lambda>j. msg_view (elements rb ! slot_at rb j)) [0..<n]"
proof -
  let ?P = "\<lambda>i. has_data rb ! i = 1"
  have d: "\<And>j. j < capacity rb \<Longrightarrow> ?P (slot_at rb j) = (j < n)" "n \<le> capacity rb"
    using assms by (simp_all add: ring_at_def)
  have "takeWhile (?P \<circ> slot_at rb) [0..<capacity rb] = [0..<n]"
  proof -
    have "[0..<capacity rb] = [0..<n] @ [n..<capacity rb]" using d(2)
      by (metis le0 le_add_diff_inverse upt_add_eq_append)
    moreover have "takeWhile (?P \<circ> slot_at rb) ([0..<n] @ [n..<capacity rb]) =
        [0..<n] @ takeWhile (?P \<circ> slot_at rb) [n..<capacity rb]"
      using d by (intro takeWhile_append2) simp
    moreover have "takeWhile (?P \<circ> slot_at rb) [n..<capacity rb] = []"
      using d by (cases "n < capacity rb") (simp_all add: upt_conv_Cons)
    ultimately show ?thesis by simp
  qed
  then show ?thesis by (simp add: waiting_def takeWhile_map comp_def)
qed

section \<open>What the operations do\<close>

lemma those_map_Some: "(\<And>x. x \<in> set xs \<Longrightarrow> f x = Some (h x)) \<Longrightarrow> those (map f xs) = Some (map h xs)"
  by (induction xs) auto

lemma ring_new_at:
  assumes "k \<le> 30" "0 < c" "int c < INT_MAX"
  obtains rb where "ring_new g (2 ^ k) c = Some rb" "ring_at rb 0 0" "capacity rb = 2 ^ k"
    "trace_message_capacity rb = c"
proof -
  have "\<exists>m. (do { m \<leftarrow> trace_message_new (g i) 0; realloc (g i) (int_of_size c) m }) = Some m \<and>
      tm_fresh m \<and> tm_capacity m = int c" for i
  proof -
    let ?m = "\<lparr>tm_capacity = 0, tm_buffer = Static, write_index = 0, limit_index = 0,
       tm_severity = SEVERITY_NOTSET, tm_timestamp = 0\<rparr>"
    obtain m where "realloc (g i) (int c) ?m = Some m" "tm_fresh m" "tm_capacity m = int c"
      by (rule realloc_fresh [of "int c" ?m "g i"]) (use assms(2,3) in simp_all)
    with assms show ?thesis by (simp add: trace_message_new_def)
  qed
  then obtain h where h: "\<And>i. (do { m \<leftarrow> trace_message_new (g i) 0;
        realloc (g i) (int_of_size c) m }) = Some (h i) \<and> tm_fresh (h i) \<and> tm_capacity (h i) = int c"
    by metis
  have ms: "those (map (\<lambda>i. do { m \<leftarrow> trace_message_new (g i) 0;
      realloc (g i) (int_of_size c) m }) [0..<2 ^ k]) = Some (map h [0..<2 ^ k])"
    using h by (intro those_map_Some) blast
  let ?rb = "\<lparr>capacity = 2 ^ k, trace_message_capacity = c, elements = map h [0..<2 ^ k],
     busy = map (\<lambda>i. 0) [0..<2 ^ k], has_data = map (\<lambda>i. 0) [0..<2 ^ k], head = 0, tail = 0,
     overflow_counter = 0, resettable_overflow_counter = 0, spinlock_consumer_wait_counter = 0,
     spinlock_producer_wait_counter = 0\<rparr>"
  have "ring_new g (2 ^ k) c = Some ?rb" by (simp only: ring_new_def ms) simp
  moreover have "ring_at ?rb 0 0"
    using assms h by (auto simp: ring_at_def ring_ok_def list_all_length is_flag_def slot_at_def
        intro: tm_fresh_ok)
  ultimately show thesis by (rule that) simp_all
qed

lemma ring_new_fields:
  "ring_new g n c = Some rb \<Longrightarrow> head rb = 0 \<and> tail rb = 0 \<and> capacity rb = n \<and>
   overflow_counter rb = 0 \<and> resettable_overflow_counter rb = 0 \<and>
   busy rb = replicate n 0 \<and> has_data rb = replicate n 0"
  by (auto simp: ring_new_def bind_eq_Some_conv map_replicate_const)

text \<open>The ticket, masked where the counter has left the range, names the slot
  \<open>head mod capacity\<close>; the head moves one on, modulo the capacity.\<close>

definition next_head :: "ring \<Rightarrow> u64" where
  "next_head rb =
     (if head rb \<ge> of_nat (capacity rb) then (head rb + 1) AND slot_mask rb else head rb + 1)"

lemma next_head_mod:
  "ring_ok rb \<Longrightarrow> unat (next_head rb) mod capacity rb = (unat (head rb) + 1) mod capacity rb"
  by (simp add: next_head_def ring_ok_slot_mask ring_ok_inc)

lemma ticket_slot:
  assumes "ring_ok rb"
  shows "unat (if head rb \<ge> of_nat (capacity rb) then head rb AND slot_mask rb else head rb) =
    unat (head rb) mod capacity rb"
  using assms by (simp add: ring_ok_slot_mask ring_ok_ge)

lemma slot_mask_head [simp]: "slot_mask (rb\<lparr>head := h\<rparr>) = slot_mask rb"
  by (simp add: slot_mask_def)

lemma lock_element_free:
  "i < length (busy rb) \<Longrightarrow> i < 2147483648 \<Longrightarrow> busy rb ! i = 0 \<Longrightarrow>
   lock_element (int i) es rb = Some (False, rb\<lparr>busy := (busy rb)[i := 1]\<rparr>)"
  by (simp add: lock_element_def)

lemma unlock_element_nat:
  "i < length (busy rb) \<Longrightarrow> unlock_element (int i) rb = Some (rb\<lparr>busy := (busy rb)[i := 0]\<rparr>)"
  by (simp add: unlock_element_def)

lemma mark_data_nat:
  "i < length (has_data rb) \<Longrightarrow> is_flag (has_data rb ! i) \<Longrightarrow>
   mark_data i rb = Some (has_data rb ! i = 0, rb\<lparr>has_data := (has_data rb)[i := 1]\<rparr>)"
  by (auto simp: mark_data_def is_flag_def)

lemma reserve_push_free:
  assumes "ring_ok rb" "i = unat (head rb) mod capacity rb" "busy rb ! i = 0"
  shows "reserve_push es rb = Some (i,
    rb\<lparr>head := next_head rb, busy := (busy rb)[i := 1], has_data := (has_data rb)[i := 1],
       overflow_counter := overflow_counter rb + (if has_data rb ! i = 1 then 1 else 0),
       resettable_overflow_counter :=
         resettable_overflow_counter rb + (if has_data rb ! i = 1 then 1 else 0)\<rparr>)"
proof -
  note C = ring_okD [OF assms(1)]
  have i: "i < capacity rb" using C(1) assms(2) by simp
  have f: "is_flag (has_data rb ! i)" using assms(1) i by (auto simp: ring_ok_def list_all_length)
  show ?thesis
  proof (cases "head rb \<ge> of_nat (capacity rb)")
    case True
    then have "unat (head rb AND slot_mask rb) = i" using ring_ok_slot_mask [OF assms(1)] assms(2) by simp
    with True f i C(1-5) assms(3) show ?thesis
      by (auto simp: reserve_push_def take_ticket_def wrap_head_def lock_element_free mark_data_nat
          count_producer_wait_def count_overflow_def count_resettable_def next_head_def is_flag_def)
  next
    case False
    then have "unat (head rb) = i" using ring_ok_ge [OF assms(1)] assms(2) by simp
    with False f i C(1-5) assms(3) show ?thesis
      by (auto simp: reserve_push_def take_ticket_def lock_element_free mark_data_nat
          count_producer_wait_def count_overflow_def count_resettable_def next_head_def is_flag_def)
  qed
qed

lemma push_free:
  assumes "ring_ok rb" "i = unat (head rb) mod capacity rb" "busy rb ! i = 0"
    and "f (elements rb ! i) = Some m"
  shows "push_with es f rb = Some (
    rb\<lparr>head := next_head rb, has_data := (has_data rb)[i := 1], elements := (elements rb)[i := m],
       overflow_counter := overflow_counter rb + (if has_data rb ! i = 1 then 1 else 0),
       resettable_overflow_counter :=
         resettable_overflow_counter rb + (if has_data rb ! i = 1 then 1 else 0)\<rparr>)"
proof -
  note C = ring_okD [OF assms(1)]
  have i: "i < capacity rb" using C(1) assms(2) by simp
  have b: "(busy rb)[i := 0] = busy rb" using assms(3) by (metis list_update_id)
  show ?thesis
    using i C(1-5) assms(4) b
    by (simp add: push_with_def reserve_push_free [OF assms(1,2,3)] commit_push_def unlock_element_nat)
qed

text \<open>A push into a ring that is not full and not overrun adds its message at the end; a push
  into a full ring changes the oldest message in place and moves the head past the tail.\<close>

lemma ring_ok_update:
  assumes "ring_ok rb" "tm_ok m" "tm_capacity m = int (trace_message_capacity rb)" "is_flag f"
  shows "ring_ok (rb\<lparr>head := h, has_data := (has_data rb)[i := f], elements := (elements rb)[i := m],
    overflow_counter := a, resettable_overflow_counter := b\<rparr>)"
  using assms by (auto simp: ring_ok_def intro!: list_all_update)

lemma push_at:
  assumes "ring_at rb n d" "d = 0 \<or> n = capacity rb"
    and "f (elements rb ! slot_at rb (n + d)) = Some m"
    and "tm_ok m" "tm_capacity m = int (trace_message_capacity rb)"
  obtains rb' where "push_with es f rb = Some rb'" "ring_ok rb'"
    "ring_at rb' (if n < capacity rb then n + 1 else n) (if n < capacity rb then d else d + 1)"
    "capacity rb' = capacity rb" "trace_message_capacity rb' = trace_message_capacity rb"
    "tail rb' = tail rb" "elements rb' = (elements rb)[slot_at rb (n + d) := m]"
    "overflow_counter rb' = overflow_counter rb + (if n < capacity rb then 0 else 1)"
    "resettable_overflow_counter rb' =
       resettable_overflow_counter rb + (if n < capacity rb then 0 else 1)"
proof -
  let ?C = "capacity rb" and ?i = "slot_at rb (n + d)"
  from assms(1) have ok: "ring_ok rb" and nC: "n \<le> ?C" and i: "?i = unat (head rb) mod ?C"
    by (simp_all add: ring_at_def)
  note C = ring_okD [OF ok]
  have iC: "?i < ?C" by (rule slot_at_less [OF ok])
  have free: "busy rb ! ?i = 0" using assms(1) iC by (simp add: ring_at_def)
  have hd: "has_data rb ! ?i = (if n < ?C then 0 else 1)"
  proof (cases "n < ?C")
    case True
    with assms(1,2) show ?thesis by (auto simp: ring_at_def)
  next
    case False
    with nC have n: "n = ?C" by simp
    obtain j where "j < ?C" "slot_at rb j = ?i" using ok iC by (rule slot_at_surj)
    with assms(1) n show ?thesis by (auto simp: ring_at_def)
  qed
  let ?rb = "rb\<lparr>head := next_head rb, has_data := (has_data rb)[?i := 1],
     elements := (elements rb)[?i := m],
     overflow_counter := overflow_counter rb + (if has_data rb ! ?i = 1 then 1 else 0),
     resettable_overflow_counter :=
       resettable_overflow_counter rb + (if has_data rb ! ?i = 1 then 1 else 0)\<rparr>"
  have run: "push_with es f rb = Some ?rb" by (rule push_free [where f = f, OF ok i free assms(3)])
  have ok': "ring_ok ?rb" using ok assms(4,5) by (rule ring_ok_update) (simp add: is_flag_def)
  have hm: "unat (head ?rb) mod ?C = slot_at rb (n + d + 1)"
    using next_head_mod [OF ok] i by (simp add: slot_at_def) (metis mod_Suc_eq)
  have "ring_at ?rb (if n < ?C then n + 1 else n) (if n < ?C then d else d + 1)"
  proof (cases "n < ?C")
    case True
    with assms(2) have d: "d = 0" by auto
    have sl: "slot_at rb n = slot_at rb j \<longleftrightarrow> j = n" if "j < ?C" for j
      using slot_at_inj [OF that True] by auto
    have "(has_data rb)[?i := 1] ! slot_at rb j = (if j < n + 1 then 1 else 0)" if "j < ?C" for j
      using that d assms(1) iC C sl [OF that] by (simp add: ring_at_def nth_list_update less_Suc_eq)
    moreover have "tm_fresh ((elements rb)[?i := m] ! slot_at rb j)" if "j < ?C" "n + 1 \<le> j" for j
      using that d assms(1) iC C sl [OF that(1)] by (simp add: ring_at_def nth_list_update)
    ultimately show ?thesis using True d hm ok' assms(1) by (simp add: ring_at_def)
  next
    case False
    with nC have n: "n = ?C" by simp
    with hm ok' assms(1) C show ?thesis
      by (auto simp: ring_at_def nth_list_update slot_at_less [OF ok])
  qed
  with run ok' hd show thesis by (intro that [of ?rb]) auto
qed

lemma advance_tail_ok:
  assumes "ring_ok rb"
  shows "advance_tail rb = Some (rb\<lparr>tail := int (slot_at rb 1)\<rparr>)"
proof -
  note C = ring_okD [OF assms]
  have "unat (word_of_int (tail rb + 1) :: u64) = nat (tail rb) + 1"
  proof -
    have "uint (word_of_int (tail rb + 1) :: u64) = tail rb + 1"
      using C by (intro word_of_int_inverse [OF refl]) simp_all
    then show ?thesis using C by (simp only: unat_eq_nat_uint)
  qed
  then have "unat ((word_of_int (tail rb + 1) :: u64) AND slot_mask rb) = slot_at rb 1"
    by (simp only: ring_ok_slot_mask [OF assms] slot_at_def)
  moreover have "slot_at rb 1 < 2147483648"
    using slot_at_less [OF assms, of 1] C(2) by simp
  ultimately show ?thesis using C(2,7) by (simp add: advance_tail_def)
qed

text \<open>The consumer's buffer gets a copy, the slot is recycled and the tail moves on.\<close>

lemma take_out_spec:
  assumes "ring_ok rb" "i = nat (tail rb)" "tm_ok d"
  obtains m m' where
    "take_out g (int i) d rb =
       Some (m, rb\<lparr>tail := int (slot_at rb 1), elements := (elements rb)[i := m']\<rparr>)"
    "tm_ok m" "tm_capacity m = int (trace_message_capacity rb)"
    "msg_view m = msg_view (elements rb ! i)" "tm_fresh m'"
    "tm_capacity m' = int (trace_message_capacity rb)"
proof -
  note C = ring_okD [OF assms(1)]
  have i: "i < capacity rb" using C assms(2) by simp
  let ?e = "elements rb ! i"
  from ring_ok_element [OF assms(1) i] have e: "tm_ok ?e" "tm_capacity ?e = int (trace_message_capacity rb)"
    by simp_all
  have "tm_bytes d ! nat (tm_capacity d) = NUL" using assms(3) by (simp add: tm_ok_def)
  then obtain m where m: "assign g ?e d = Some m" "tm_ok m" "tm_capacity m = tm_capacity ?e"
    "tm_severity m = tm_severity ?e" "tm_timestamp m = tm_timestamp ?e" "get_buffer m = get_buffer ?e"
    using assign_spec [OF e(1), of d g] tm_ok_alloc [OF assms(3)] by blast
  obtain m' where m': "recycle ?e = Some m'" "tm_fresh m'" "tm_capacity m' = tm_capacity ?e"
    using tm_ok_alloc [OF e(1)] by (rule recycle_fresh)
  have "take_out g (int i) d rb =
      Some (m, rb\<lparr>tail := int (slot_at rb 1), elements := (elements rb)[i := m']\<rparr>)"
    using advance_tail_ok [OF assms(1)] m(1) m'(1) i C(3) by (simp add: take_out_def)
  with m m' e(2) show thesis by (intro that [of m m']) (simp_all add: msg_view_def)
qed

text \<open>\<open>pop\<close> on a free slot with data.\<close>

lemma pop_free:
  assumes "ring_ok rb" "i = nat (tail rb)" "has_data rb ! i = 1" "busy rb ! i = 0" "tm_ok d"
  obtains m m' where
    "pop es g d rb = Some (True, m, rb\<lparr>tail := int (slot_at rb 1), elements := (elements rb)[i := m'],
                                     has_data := (has_data rb)[i := 0]\<rparr>)"
    "tm_ok m" "tm_capacity m = int (trace_message_capacity rb)"
    "msg_view m = msg_view (elements rb ! i)" "tm_fresh m'"
    "tm_capacity m' = int (trace_message_capacity rb)"
proof -
  note C = ring_okD [OF assms(1)]
  have i: "i < capacity rb" "int i = tail rb" "i < 2147483648" using C assms(2) by simp_all
  let ?b = "rb\<lparr>busy := (busy rb)[i := 1]\<rparr>"
  have ok: "ring_ok ?b"
    using assms(1) by (auto simp: ring_ok_def is_flag_def intro!: list_all_update)
  have ib: "i = nat (tail ?b)" using assms(2) by simp
  obtain m m' where t: "take_out g (int i) d ?b =
      Some (m, ?b\<lparr>tail := int (slot_at ?b 1), elements := (elements ?b)[i := m']\<rparr>)"
    and m: "tm_ok m" "tm_capacity m = int (trace_message_capacity ?b)"
      "msg_view m = msg_view (elements ?b ! i)" "tm_fresh m'"
      "tm_capacity m' = int (trace_message_capacity ?b)"
    using ok ib assms(5) by (rule take_out_spec)
  then have "consume g (int i) d ?b = Some (m, ?b\<lparr>tail := int (slot_at rb 1),
      elements := (elements rb)[i := m'], has_data := (has_data rb)[i := 0]\<rparr>)"
    using i(1) C(5) by (simp add: consume_def clear_data_def)
  moreover have "((busy rb)[i := 1])[i := 0] = busy rb" using assms(4) by (metis list_update_id list_update_overwrite)
  ultimately have "pop es g d rb = Some (True, m, rb\<lparr>tail := int (slot_at rb 1),
      elements := (elements rb)[i := m'], has_data := (has_data rb)[i := 0]\<rparr>)"
    using i(1,3) C(3-5) assms(3,4)
    by (simp add: pop_def lock_element_free count_consumer_wait_def unlock_element_nat flip: i(2))
  then show thesis using m by (intro that [of m m']) simp_all
qed

lemma slot_at_shift [simp]: "slot_at (rb\<lparr>tail := int (slot_at rb (Suc 0))\<rparr>) j = slot_at rb (Suc j)"
  by (simp add: slot_at_def mod_simps)

lemma pop_at:
  assumes "ring_at rb (Suc n) d" "tm_ok msg"
  obtains rb' m where "pop es g msg rb = Some (True, m, rb')" "ring_at rb' n d" "tm_ok m"
    "waiting rb = msg_view m # waiting rb'" "capacity rb' = capacity rb"
    "tm_capacity m = int (trace_message_capacity rb)" 
    "trace_message_capacity rb' = trace_message_capacity rb"
    "overflow_counter rb' = overflow_counter rb"
    "resettable_overflow_counter rb' = resettable_overflow_counter rb"
proof -
  let ?C = "capacity rb" and ?i = "nat (tail rb)"
  from assms(1) have ok: "ring_ok rb" and nC: "Suc n \<le> ?C" by (simp_all add: ring_at_def)
  note C = ring_okD [OF ok]
  have i: "?i < ?C" "slot_at rb 0 = ?i" using C slot_at_0 [OF ok] by simp_all
  have fl: "has_data rb ! ?i = 1" "busy rb ! ?i = 0"
    using assms(1) i C(1) unfolding ring_at_def by (metis zero_less_Suc, blast)
  obtain m m' where pop: "pop es g msg rb = Some (True, m, rb\<lparr>tail := int (slot_at rb 1),
      elements := (elements rb)[?i := m'], has_data := (has_data rb)[?i := 0]\<rparr>)"
    and m: "tm_ok m" "tm_capacity m = int (trace_message_capacity rb)"
      "msg_view m = msg_view (elements rb ! ?i)" "tm_fresh m'"
      "tm_capacity m' = int (trace_message_capacity rb)"
    using ok refl fl assms(2) by (rule pop_free)
  let ?rb = "rb\<lparr>tail := int (slot_at rb 1), elements := (elements rb)[?i := m'],
               has_data := (has_data rb)[?i := 0]\<rparr>"
  have ok': "ring_ok ?rb"
    using ok m(4,5) slot_at_less [OF ok, of 1]
    by (auto simp: ring_ok_def is_flag_def tm_fresh_ok intro!: list_all_update)
  have ne: "slot_at rb (Suc j) = ?i \<longleftrightarrow> Suc j = ?C" if "j < ?C" for j
  proof (cases "Suc j = ?C")
    case True
    with slot_at_wrap [of rb 0] i(2) show ?thesis by simp
  next
    case False
    with that slot_at_inj [of "Suc j" rb 0] C(1) i(2) show ?thesis by simp
  qed
  have hd: "(has_data rb)[?i := 0] ! slot_at rb (Suc j) = (if j < n then 1 else 0)" if "j < ?C" for j
    using that ne [OF that] assms(1) nC i C(5) by (cases "Suc j = ?C") (auto simp: ring_at_def)
  have fr: "tm_fresh ((elements rb)[?i := m'] ! slot_at rb (Suc j))" if "j < ?C" "n \<le> j" for j
    using that ne [OF that(1)] assms(1) i C(3) m(4) by (cases "Suc j = ?C") (auto simp: ring_at_def)
  have at: "ring_at ?rb n d"
    using ok' nC hd fr assms(1) unfolding ring_at_def by simp
  have "waiting rb = msg_view m # waiting ?rb"
  proof -
    have "waiting rb = map (\<lambda>j. msg_view (elements rb ! slot_at rb j)) (0 # map Suc [0..<n])"
      by (simp only: waiting_at [OF assms(1)] upt_conv_Cons map_Suc_upt)
    moreover have "elements rb ! slot_at rb (Suc j) = (elements rb)[?i := m'] ! slot_at rb (Suc j)"
      if "j < n" for j using that nC ne [of j] by simp
    moreover have "waiting ?rb =
        map (\<lambda>j. msg_view ((elements rb)[?i := m'] ! slot_at rb (Suc j))) [0..<n]"
      using waiting_at [OF at] by simp
    ultimately show ?thesis using m(3) i(2) by (simp only: list.map map_map) simp
  qed
  with pop at m show thesis by (intro that [of m ?rb]) simp_all
qed

lemma pop_empty:
  assumes "ring_ok rb" "has_data rb ! nat (tail rb) = 0"
  shows "pop es g msg rb = Some (False, msg, rb)"
proof -
  note C = ring_okD [OF assms(1)]
  then have "arr_get (has_data rb) (int (nat (tail rb))) = Some 0" using assms(2) by (intro trans [OF arr_get_nat]) simp_all
  then show ?thesis using C by (simp add: pop_def)
qed

section \<open>Bounded first-in-first-out queues\<close>

text \<open>The contract a producer and a consumer rely on: while there is room a \<open>put\<close> adds its
  value at the end, a \<open>get\<close> takes the first value or finds none.\<close>

datatype 'a queue_op = Put 'a | Get

fun run_queue ::
  "('a \<Rightarrow> 's \<Rightarrow> 's option) \<Rightarrow> ('s \<Rightarrow> ('v option \<times> 's) option) \<Rightarrow> 'a queue_op list \<Rightarrow> 's \<Rightarrow>
   ('v option list \<times> 's) option" where
  "run_queue put get [] s = Some ([], s)"
| "run_queue put get (Put a # ops) s = do { s' \<leftarrow> put a s; run_queue put get ops s' }"
| "run_queue put get (Get # ops) s = do {
     (v, s') \<leftarrow> get s; (vs, s'') \<leftarrow> run_queue put get ops s'; Some (v # vs, s'') }"

text \<open>The same operations on a list, and the condition that they never put into \<open>room\<close>
  values.\<close>

fun list_queue :: "('a \<Rightarrow> 'v) \<Rightarrow> 'a queue_op list \<Rightarrow> 'v list \<Rightarrow> 'v option list \<times> 'v list" where
  "list_queue stored [] q = ([], q)"
| "list_queue stored (Put a # ops) q = list_queue stored ops (q @ [stored a])"
| "list_queue stored (Get # ops) q =
     (let (vs, q') = list_queue stored ops (tl q)
      in ((case q of [] \<Rightarrow> None | v # _ \<Rightarrow> Some v) # vs, q'))"

fun fits :: "nat \<Rightarrow> 'a queue_op list \<Rightarrow> nat \<Rightarrow> bool" where
  "fits room [] n \<longleftrightarrow> True"
| "fits room (Put a # ops) n \<longleftrightarrow> n < room \<and> fits room ops (n + 1)"
| "fits room (Get # ops) n \<longleftrightarrow> fits room ops (n - 1)"

fun puts :: "'a queue_op list \<Rightarrow> 'a list" where
  "puts [] = []"
| "puts (Put a # ops) = a # puts ops"
| "puts (Get # ops) = puts ops"

text \<open>What the values delivered are: the first of what was there and what was put.\<close>

definition delivered :: "'v option list \<Rightarrow> 'v list" where
  "delivered vs = map the (filter (\<lambda>v. v \<noteq> None) vs)"

lemma list_queue_fifo:
  "list_queue stored ops q = (vs, q') \<Longrightarrow> delivered vs @ q' = q @ map stored (puts ops)"
proof (induction stored ops q arbitrary: vs q' rule: list_queue.induct)
  case (3 stored ops q)
  then show ?case
    by (cases q) (auto simp: delivered_def split: prod.splits)
qed (simp_all add: delivered_def)

locale bounded_queue =
  fixes room :: nat
    and inv :: "'s \<Rightarrow> bool"
    and contents :: "'s \<Rightarrow> 'v list"
    and ok :: "'a \<Rightarrow> bool"
    and stored :: "'a \<Rightarrow> 'v"
    and put :: "'a \<Rightarrow> 's \<Rightarrow> 's option"
    and get :: "'s \<Rightarrow> ('v option \<times> 's) option"
  assumes put_room: "inv s \<Longrightarrow> ok a \<Longrightarrow> length (contents s) < room \<Longrightarrow>
      \<exists>s'. put a s = Some s' \<and> inv s' \<and> contents s' = contents s @ [stored a]"
    and get_first: "inv s \<Longrightarrow> contents s = v # vs \<Longrightarrow>
      \<exists>s'. get s = Some (Some v, s') \<and> inv s' \<and> contents s' = vs"
    and get_none: "inv s \<Longrightarrow> contents s = [] \<Longrightarrow> get s = Some (None, s)"
begin

lemma run_refines:
  "inv s \<Longrightarrow> list_all ok (puts ops) \<Longrightarrow> fits room ops (length (contents s)) \<Longrightarrow>
   \<exists>vs s'. run_queue put get ops s = Some (vs, s') \<and> inv s' \<and>
     list_queue stored ops (contents s) = (vs, contents s')"
proof (induction ops arbitrary: s)
  case Nil
  then show ?case by simp
next
  case (Cons x ops)
  show ?case
  proof (cases x)
    case (Put a)
    with Cons.prems put_room [of s a] obtain s1 where
      "put a s = Some s1" "inv s1" "contents s1 = contents s @ [stored a]" by auto
    with Put Cons.prems Cons.IH [of s1] show ?thesis by simp
  next
    case Get
    show ?thesis
    proof (cases "contents s")
      case Nil
      with Get Cons.prems Cons.IH [of s] get_none [of s] show ?thesis by auto
    next
      case (Cons v vs)
      with Cons.prems get_first [of s v vs] obtain s1 where
        "get s = Some (Some v, s1)" "inv s1" "contents s1 = vs" by auto
      with Get Cons Cons.prems Cons.IH [of s1] show ?thesis by auto
    qed
  qed
qed

lemma run_fifo:
  assumes "inv s" "list_all ok (puts ops)" "fits room ops (length (contents s))"
  shows "\<exists>vs s'. run_queue put get ops s = Some (vs, s') \<and> inv s' \<and>
     delivered vs @ contents s' = contents s @ map stored (puts ops)"
  using run_refines [OF assms] list_queue_fifo by metis

end

section \<open>The ring is such a queue\<close>

type_synonym entry = "int \<times> int \<times> int \<times> string"

definition entry_ok :: "entry \<Rightarrow> bool" where
  "entry_ok e \<longleftrightarrow> (case e of (tv_sec, tv_usec, severity, s) \<Rightarrow> NUL \<notin> set s)"

text \<open>What a message of capacity \<open>c\<close> keeps of an entry.\<close>

definition entry_view :: "nat \<Rightarrow> entry \<Rightarrow> msg_view" where
  "entry_view c e = (case e of (tv_sec, tv_usec, severity, s) \<Rightarrow>
     (take c s, severity, word_of_int (tv_sec * 1000 + tv_usec div 1000)))"

definition ring_put :: "(u32 \<Rightarrow> u32) list \<Rightarrow> entry \<Rightarrow> trace_message \<times> ring \<Rightarrow> (trace_message \<times> ring) option" where
  "ring_put es e s = (case e of (tv_sec, tv_usec, severity, txt) \<Rightarrow>
     map_option (\<lambda>rb. (fst s, rb)) (py_write es tv_sec tv_usec severity txt (snd s)))"

definition ring_get ::
  "(u32 \<Rightarrow> u32) list \<Rightarrow> (nat \<Rightarrow> char) \<Rightarrow> trace_message \<times> ring \<Rightarrow>
   (msg_view option \<times> trace_message \<times> ring) option" where
  "ring_get es g s = do {
     (found, m, rb) \<leftarrow> pop es g (fst s) (snd s);
     Some (if found then Some (msg_view m) else None, m, rb) }"

definition ring_inv :: "nat \<Rightarrow> nat \<Rightarrow> trace_message \<times> ring \<Rightarrow> bool" where
  "ring_inv n c s \<longleftrightarrow> tm_ok (fst s) \<and> capacity (snd s) = n \<and> trace_message_capacity (snd s) = c \<and>
     ring_at (snd s) (length (waiting (snd s))) 0"

lemma write_fresh:
  assumes "tm_fresh m" "NUL \<notin> set s"
  shows "\<exists>m'. run_ops [Stamp a b, Severity v, Write s] m = Some m' \<and> tm_ok m' \<and>
    tm_capacity m' = tm_capacity m \<and>
    msg_view m' = entry_view (nat (tm_capacity m)) (a, b, v, s)"
proof -
  let ?m1 = "set_severity v (set_timestamp a b m)"
  have fresh: "tm_ok ?m1" "tm_text ?m1 = []" "avail_size ?m1 = tm_capacity m"
    using assms(1) by (auto simp: tm_fresh_def set_severity_def set_timestamp_def tm_text_def avail_size_def)
  from tm_write_spec [OF fresh(1) assms(2)] obtain m' where m':
    "tm_write s ?m1 = Some (int (length s) < tm_capacity m, m')" "tm_ok m'"
    "tm_text m' = take (nat (tm_capacity m)) s" "tm_capacity m' = tm_capacity ?m1"
    "tm_severity m' = tm_severity ?m1" "tm_timestamp m' = tm_timestamp ?m1"
    "int (length s) < tm_capacity m \<longrightarrow> tm_closed m'"
    using fresh(2,3) by auto
  have cap: "tm_capacity m' = tm_capacity m" using m'(4) by (simp add: set_severity_def set_timestamp_def)
  have "tm_closed m'"
  proof (cases "int (length s) < tm_capacity m")
    case False
    from m'(2) obtain cs where cs: "tm_buffer m' = Heap cs" "length cs = Suc (nat (tm_capacity m'))"
      "cs ! nat (tm_capacity m') = NUL" "0 \<le> write_index m'" "write_index m' \<le> tm_capacity m'"
      by (elim tm_okE) auto
    have "length (tm_text m') = nat (tm_capacity m)" using m'(3) False by simp
    then have "nat (write_index m') = nat (tm_capacity m')" using cs cap by (simp add: tm_text_def)
    with cs show ?thesis by (simp add: tm_closed_def)
  qed (use m'(7) in simp)
  moreover have "NUL \<notin> set (tm_text m')" using m'(3) assms(2) by (auto dest: in_set_takeD)
  ultimately have "get_buffer m' = Some (tm_text m')" by (intro get_buffer_text [OF m'(2)])
  with m' cap show ?thesis
    by (intro exI [of _ m']) (simp add: msg_view_def entry_view_def set_severity_def set_timestamp_def)
qed

text \<open>A push into a ring with room that no overrun has shifted: the message waits behind the others.\<close>

lemma put_at:
  assumes "ring_at rb w 0" "w < capacity rb"
    and "f (elements rb ! slot_at rb w) = Some m" "tm_ok m" "tm_capacity m = int (trace_message_capacity rb)"
  obtains rb' where "push_with es f rb = Some rb'" "ring_at rb' (w + 1) 0"
    "capacity rb' = capacity rb" "trace_message_capacity rb' = trace_message_capacity rb"
    "waiting rb' = waiting rb @ [msg_view m]" "resettable_overflow_counter rb' = resettable_overflow_counter rb"
proof -
  have ok: "ring_ok rb" using assms(1) by (simp add: ring_at_def)
  obtain rb' where rb': "push_with es f rb = Some rb'"
    "ring_at rb' (w + 1) 0" "capacity rb' = capacity rb" "trace_message_capacity rb' = trace_message_capacity rb"
    "tail rb' = tail rb" "elements rb' = (elements rb)[slot_at rb w := m]"
    "resettable_overflow_counter rb' = resettable_overflow_counter rb"
    by (rule push_at [where f = f and es = es, OF assms(1) _ _ assms(4)])
      (use assms(2,3,5) in simp_all)
  have sl: "slot_at rb' = slot_at rb" using rb'(3,5) by (simp add: slot_at_def fun_eq_iff)
  have "slot_at rb w \<noteq> slot_at rb j" if "j < w" for j
    using that assms(2) slot_at_inj [of j rb w] by auto
  then have "map (\<lambda>j. msg_view (elements rb' ! slot_at rb' j)) [0..<w] = waiting rb"
    by (subst waiting_at [OF assms(1)]) (simp add: rb'(6) sl)
  moreover have "elements rb' ! slot_at rb' w = m"
    using slot_at_less [OF ok, of w] ring_okD(3) [OF ok] by (simp add: rb'(6) sl)
  ultimately have "waiting rb' = waiting rb @ [msg_view m]" by (simp add: waiting_at [OF rb'(2)])
  with rb' show thesis by (intro that [of rb']) simp_all
qed

lemma head_element:
  assumes "ring_at rb w 0" "w < capacity rb"
  shows "tm_fresh (elements rb ! slot_at rb w)"
    "tm_capacity (elements rb ! slot_at rb w) = int (trace_message_capacity rb)"
  using assms ring_ok_element [OF _ slot_at_less] by (auto simp: ring_at_def)

lemma py_write_at:
  assumes "ring_at rb w 0" "w < capacity rb" "NUL \<notin> set str"
  obtains rb' where "py_write es ts tu sev str rb = Some rb'" "ring_at rb' (w + 1) 0"
    "capacity rb' = capacity rb" "trace_message_capacity rb' = trace_message_capacity rb"
    "waiting rb' = waiting rb @ [entry_view (trace_message_capacity rb) (ts, tu, sev, str)]"
    "resettable_overflow_counter rb' = resettable_overflow_counter rb"
proof -
  note el = head_element [OF assms(1,2)]
  from write_fresh [OF el(1) assms(3), of ts tu sev] el(2) obtain m where
    m: "run_ops [Stamp ts tu, Severity sev, Write str] (elements rb ! slot_at rb w) = Some m" "tm_ok m"
      "tm_capacity m = int (trace_message_capacity rb)"
      "msg_view m = entry_view (trace_message_capacity rb) (ts, tu, sev, str)" by (metis nat_int)
  then show thesis
    using put_at [where f = "run_ops [Stamp ts tu, Severity sev, Write str]" and es = es, OF assms(1,2) m(1,2,3)]
    by (metis that py_write_def)
qed

interpretation ring_queue: bounded_queue n "ring_inv n c" "\<lambda>s. waiting (snd s)" entry_ok "entry_view c"
    "ring_put es" "ring_get es g" for n c es g
proof (unfold_locales, goal_cases)
  case (1 s a)
  obtain ts tu sev str where a: "a = (ts, tu, sev, str)" by (cases a)
  obtain msg rb where s: "s = (msg, rb)" by (cases s)
  from 1 s a have "ring_at rb (length (waiting rb)) 0" "length (waiting rb) < capacity rb" "NUL \<notin> set str"
    by (auto simp: ring_inv_def entry_ok_def)
  then obtain rb' where rb': "py_write es ts tu sev str rb = Some rb'"
    "ring_at rb' (length (waiting rb) + 1) 0" "capacity rb' = capacity rb"
    "trace_message_capacity rb' = trace_message_capacity rb"
    "waiting rb' = waiting rb @ [entry_view (trace_message_capacity rb) (ts, tu, sev, str)]"
    by (rule py_write_at)
  have "ring_put es a s = Some (msg, rb')" using rb'(1) by (simp add: s a ring_put_def)
  moreover have "ring_inv n c (msg, rb')" "waiting rb' = waiting rb @ [entry_view c a]"
    using rb'(2-5) 1(1) by (simp_all add: s a ring_inv_def)
  ultimately show ?case by (simp add: s)
next
  case (2 s v vs)
  obtain msg rb where s: "s = (msg, rb)" by (cases s)
  from 2 s have at: "ring_at rb (Suc (length vs)) 0" "tm_ok msg" by (auto simp: ring_inv_def)
  obtain rb' m where p: "pop es g msg rb = Some (True, m, rb')" "ring_at rb' (length vs) 0" "tm_ok m"
    "waiting rb = msg_view m # waiting rb'" "capacity rb' = capacity rb"
    "trace_message_capacity rb' = trace_message_capacity rb"
    using at by (rule pop_at)
  with 2 s show ?case by (auto simp: ring_get_def ring_inv_def)
next
  case (3 s)
  obtain msg rb where s: "s = (msg, rb)" by (cases s)
  from 3 s have at: "ring_at rb 0 0" by (auto simp: ring_inv_def)
  then have "has_data rb ! slot_at rb 0 = 0" "ring_ok rb" using ring_okD(1) by (auto simp: ring_at_def)
  with pop_empty [of rb es g msg] slot_at_0 [of rb] show ?case by (simp add: s ring_get_def)
qed

section \<open>Properties\<close>

text \<open>C2: from a new ring of \<open>2 ^ k\<close> slots, any sequence of \<open>PyWriter.write\<close> calls and pops
  that never has more than \<open>2 ^ k\<close> messages waiting is defined and first-in-first-out: every
  pop returns the oldest message that waits (or finds none), and what was delivered together
  with what still waits is exactly what was written, each message cut to the message
  capacity, with its severity and its time in milliseconds.  There are at most 2^30 slots, and
  the message capacity is positive and below the largest \<open>int\<close>.\<close>

theorem ring_fifo:
  assumes "k \<le> 30" "0 < c" "int c < INT_MAX" "ring_new g (2 ^ k) c = Some rb" "tm_ok msg"
    and "list_all entry_ok (puts ops)" "fits (2 ^ k) ops 0"
  shows "\<exists>vs msg' rb'. run_queue (ring_put es) (ring_get es g') ops (msg, rb) = Some (vs, msg', rb') \<and>
    list_queue (entry_view c) ops [] = (vs, waiting rb') \<and>
    delivered vs @ waiting rb' = map (entry_view c) (puts ops)"
proof -
  obtain rb0 where "ring_new g (2 ^ k) c = Some rb0" "ring_at rb0 0 0" "capacity rb0 = 2 ^ k"
    "trace_message_capacity rb0 = c" using assms(1-3) by (rule ring_new_at)
  with assms(4,5) have inv: "ring_inv (2 ^ k) c (msg, rb)" and w: "waiting rb = []"
    by (auto simp: ring_inv_def waiting_at)
  have "fits (2 ^ k) ops (length (waiting (snd (msg, rb))))" using assms(7) w by simp
  from ring_queue.run_refines [OF inv assms(6) this, of es g'] obtain vs s' where
    "run_queue (ring_put es) (ring_get es g') ops (msg, rb) = Some (vs, s')"
    "list_queue (entry_view c) ops [] = (vs, waiting (snd s'))" using w by auto
  with list_queue_fifo [of "entry_view c" ops "[]"] show ?thesis by (cases s') auto
qed

lemma sample_ring:
  obtains rb where "ring_new (\<lambda>_ _. CHR ''?'') 2 8 = Some rb" "ring_at rb 0 0" "capacity rb = 2"
    "trace_message_capacity rb = 8"
  by (rule ring_new_at [of 1 8 "\<lambda>_ _. CHR ''?''"]) simp_all

theorem ring_fifo_witness:
  "\<exists>rb msg' rb'. ring_new (\<lambda>_ _. CHR ''?'') 2 8 = Some rb \<and>
     run_queue (ring_put []) (ring_get [] (\<lambda>_. CHR ''?''))
       [Put (1, 5000, 7, ''one''), Get, Get, Put (2, 0, 4, ''twotwotwo''), Get] (sample_message, rb) =
     Some ([Some (''one'', 7, 1005), None, Some (''twotwotw'', 4, 2000)], msg', rb') \<and> waiting rb' = []"
proof -
  obtain rb where rb: "ring_new (\<lambda>_ _. CHR ''?'') (2 ^ 1) 8 = Some rb"
    by (rule sample_ring) simp
  let ?ops = "[Put (1, 5000, 7, ''one''), Get, Get, Put (2, 0, 4, ''twotwotwo''), Get] :: entry queue_op list"
  have l: "list_queue (entry_view 8) ?ops [] =
      ([Some (''one'', 7, 1005), None, Some (''twotwotw'', 4, 2000)], [])"
    by (simp add: entry_view_def)
  have "list_all entry_ok (puts ?ops)" "fits (2 ^ 1) ?ops 0" by (simp_all add: entry_ok_def)
  from ring_fifo [OF _ _ _ rb sample_message_ok(1) this, of "[]" "\<lambda>_. CHR ''?''"] l rb
  show ?thesis by (simp del: run_queue.simps) metis
qed

text \<open>A slot is always inside the array: \<open>reserve_push\<close> on a ring whose next slot is free
  gives slot \<open>head mod capacity\<close>, locked and marked, leaves a well-formed ring, moves the head
  one on modulo the capacity (also when the counter wraps) and counts an overflow exactly when
  the slot had data; the message in it is left as it is.\<close>

lemma reserve_push_slot:
  assumes "ring_ok rb" "i = unat (head rb) mod capacity rb" "busy rb ! i = 0"
  shows "\<exists>rb'. reserve_push es rb = Some (i, rb') \<and> i < capacity rb \<and> ring_ok rb' \<and>
    unat (head rb') mod capacity rb = (i + 1) mod capacity rb \<and>
    busy rb' = (busy rb)[i := 1] \<and> has_data rb' = (has_data rb)[i := 1] \<and>
    elements rb' = elements rb \<and>
    overflow_counter rb' = overflow_counter rb + (if has_data rb ! i = 1 then 1 else 0) \<and>
    resettable_overflow_counter rb' =
      resettable_overflow_counter rb + (if has_data rb ! i = 1 then 1 else 0)"
proof -
  have "unat (next_head rb) mod capacity rb = (i + 1) mod capacity rb"
    using next_head_mod [OF assms(1)] assms(2) by (simp add: mod_Suc_eq)
  moreover have "ring_ok (rb\<lparr>head := h, busy := (busy rb)[i := 1], has_data := (has_data rb)[i := 1],
      overflow_counter := a, resettable_overflow_counter := b\<rparr>)" for h a b
    using assms(1) by (auto simp: ring_ok_def is_flag_def intro!: list_all_update)
  ultimately show ?thesis
    using ring_okD(1) [OF assms(1)] assms(2) by (simp add: reserve_push_free [OF assms])
qed

lemma reserve_push_slot_example:
  "\<exists>rb rb'. ring_new (\<lambda>_ _. CHR ''?'') 2 8 = Some rb \<and>
     reserve_push [] (rb\<lparr>head := 18446744073709551615\<rparr>) = Some (1, rb') \<and> unat (head rb') mod 2 = 0"
proof -
  obtain rb where rb: "ring_new (\<lambda>_ _. CHR ''?'') 2 8 = Some rb" "ring_at rb 0 0" "capacity rb = 2"
    by (rule sample_ring)
  let ?rb = "rb\<lparr>head := 18446744073709551615\<rparr>"
  have "ring_ok ?rb" "busy ?rb ! 1 = 0" using rb by (auto simp: ring_at_def ring_ok_def)
  moreover have "1 = unat (head ?rb) mod capacity ?rb" using rb(3) by simp
  ultimately obtain rb' where "reserve_push [] ?rb = Some (1, rb')"
    "unat (head rb') mod capacity ?rb = (1 + 1) mod capacity ?rb"
    using reserve_push_slot [of ?rb 1 "[]"] by blast
  with rb(1,3) show ?thesis by auto
qed

lemma spin_wait: "spin 1 (replicate j (\<lambda>f. f) @ [\<lambda>_. 0]) True = Some (True, 1)"
  by (induction j) (simp_all add: spin_taken)

text \<open>A producer that meets a taken slot spins until the holder releases it and counts one
  wait, however many attempts it made; when nobody releases the slot it never returns.\<close>

lemma reserve_push_waits:
  assumes "ring_ok rb" "i = unat (head rb) mod capacity rb" "busy rb ! i = 1"
  shows "reserve_push [] rb = None \<and>
    (\<exists>rb'. reserve_push (replicate j (\<lambda>f. f) @ [\<lambda>_. 0]) rb = Some (i, rb') \<and>
       busy rb' ! i = 1 \<and>
       spinlock_producer_wait_counter rb' = spinlock_producer_wait_counter rb + 1)"
proof -
  note C = ring_okD [OF assms(1)]
  have i: "i < capacity rb" using C(1) assms(2) by simp
  have f: "is_flag (has_data rb ! i)" using assms(1) i by (auto simp: ring_ok_def list_all_length)
  let ?es = "replicate j (\<lambda>f. f) @ [\<lambda>_. 0] :: (u32 \<Rightarrow> u32) list"
  have sp: "spin 1 ?es False = Some (True, 1)"
    by (cases j) (simp_all add: spin_taken spin_wait)
  have l: "lock_element (int i) [] (rb\<lparr>head := h\<rparr>) = None"
    "lock_element (int i) ?es (rb\<lparr>head := h\<rparr>) = Some (True, rb\<lparr>head := h, busy := busy rb\<rparr>)" for h
    using i C(4) assms(3) sp spin_stuck by (simp_all add: lock_element_def list_update_same_conv)
  show ?thesis
  proof (cases "head rb \<ge> of_nat (capacity rb)")
    case True
    then have "unat (head rb AND slot_mask rb) = i" using ring_ok_slot_mask [OF assms(1)] assms(2) by simp
    with True f i C(1-5) assms(3) l show ?thesis
      by (auto simp: reserve_push_def take_ticket_def wrap_head_def mark_data_nat
          count_producer_wait_def count_overflow_def count_resettable_def)
  next
    case False
    then have "unat (head rb) = i" using ring_ok_ge [OF assms(1)] assms(2) by simp
    with False f i C(1-5) assms(3) l show ?thesis
      by (auto simp: reserve_push_def take_ticket_def mark_data_nat
          count_producer_wait_def count_overflow_def count_resettable_def)
  qed
qed

lemma reserve_push_waits_example:
  "\<exists>rb rb'. ring_new (\<lambda>_ _. CHR ''?'') 2 8 = Some rb \<and>
     reserve_push [] (rb\<lparr>busy := [1, 0]\<rparr>) = None \<and>
     reserve_push [\<lambda>f. f, \<lambda>f. f, \<lambda>_. 0] (rb\<lparr>busy := [1, 0]\<rparr>) = Some (0, rb')"
proof -
  obtain rb where rb: "ring_new (\<lambda>_ _. CHR ''?'') 2 8 = Some rb" "ring_at rb 0 0" "capacity rb = 2"
    by (rule sample_ring)
  let ?rb = "rb\<lparr>busy := [1, 0]\<rparr>"
  have "ring_ok ?rb" using rb by (auto simp: ring_at_def ring_ok_def is_flag_def)
  moreover have "0 = unat (head ?rb) mod capacity ?rb" using ring_new_fields [OF rb(1)] by simp
  ultimately show ?thesis using reserve_push_waits [of ?rb 0 2] rb(1) by (auto simp: numeral_2_eq_2)
qed

text \<open>C7: a write into a full ring goes to the slot of the oldest message, and since
  \<open>reserve_push\<close> does not recycle it, the new text is appended to the old one: the consumer
  later reads both texts as one message with the new severity and time.  The other messages
  stay, and both overflow counters count one.  The new text fits into what the old one has left
  of the message.\<close>

theorem overrun_appends_to_old:
  assumes "ring_at rb (capacity rb) d" "i = d mod capacity rb" "m = elements rb ! slot_at rb i"
    and "NUL \<notin> set (tm_text m)" "NUL \<notin> set s" "int (length s) < avail_size m"
  shows "\<exists>rb'. py_write es a b v s rb = Some rb' \<and> ring_at rb' (capacity rb) (d + 1) \<and>
    waiting rb' = (waiting rb)[i := (tm_text m @ s, v, word_of_int (a * 1000 + b div 1000))] \<and>
    overflow_counter rb' = overflow_counter rb + 1 \<and>
    resettable_overflow_counter rb' = resettable_overflow_counter rb + 1"
proof -
  let ?C = "capacity rb"
  have ok: "ring_ok rb" using assms(1) by (simp add: ring_at_def)
  note C = ring_okD [OF ok]
  have i: "i < ?C" using C(1) assms(2) by simp
  have sl: "slot_at rb (?C + d) = slot_at rb i"
    using assms(2) by (simp add: slot_at_def mod_simps) (metis add.left_commute mod_add_self1)
  let ?m1 = "set_severity v (set_timestamp a b m)"
  have m: "tm_ok m" "tm_capacity m = int (trace_message_capacity rb)"
    using ring_ok_element [OF ok slot_at_less [OF ok]] assms(3) by simp_all
  have m1: "tm_ok ?m1" "tm_text ?m1 = tm_text m" "avail_size ?m1 = avail_size m"
    using m(1) by (simp_all add: set_severity_def set_timestamp_def tm_text_def avail_size_def tm_bytes_def)
  from tm_write_spec [OF m1(1) assms(5)] obtain m' where m':
    "tm_write s ?m1 = Some (True, m')" "tm_ok m'" "tm_text m' = tm_text m @ s"
    "tm_capacity m' = tm_capacity ?m1" "tm_severity m' = tm_severity ?m1"
    "tm_timestamp m' = tm_timestamp ?m1" "tm_closed m'"
    using m1(2,3) assms(6) by auto
  have run: "run_ops [Stamp a b, Severity v, Write s] (elements rb ! slot_at rb (?C + d)) = Some m'"
    using m'(1) assms(3) sl by (simp del: tm_write.simps)
  have cap: "tm_capacity m' = int (trace_message_capacity rb)"
    using m'(4) m(2) by (simp add: set_severity_def set_timestamp_def)
  have "get_buffer m' = Some (tm_text m @ s)"
    using get_buffer_text [OF m'(2,7)] m'(3) assms(4,5) by simp
  then have view: "msg_view m' = (tm_text m @ s, v, word_of_int (a * 1000 + b div 1000))"
    using m'(5,6) by (simp add: msg_view_def set_severity_def set_timestamp_def)
  obtain rb' where rb': "push es [Stamp a b, Severity v, Write s] rb = Some rb'"
    "ring_at rb' ?C (d + 1)" "capacity rb' = ?C" "tail rb' = tail rb"
    "elements rb' = (elements rb)[slot_at rb i := m']"
    "overflow_counter rb' = overflow_counter rb + 1"
    "resettable_overflow_counter rb' = resettable_overflow_counter rb + 1"
    by (rule push_at [where f = "run_ops [Stamp a b, Severity v, Write s]" and es = es, OF assms(1) _ run m'(2) cap]) (simp_all add: sl)
  have sl': "slot_at rb' = slot_at rb" using rb'(3,4) by (simp add: slot_at_def fun_eq_iff)
  have "waiting rb' = (waiting rb)[i := msg_view m']"
  proof (rule nth_equalityI)
    show "length (waiting rb') = length ((waiting rb)[i := msg_view m'])"
      using waiting_at [OF assms(1)] waiting_at [OF rb'(2)] by simp
    fix j assume "j < length (waiting rb')"
    then have j: "j < ?C" using waiting_at [OF rb'(2)] by simp
    then show "waiting rb' ! j = (waiting rb)[i := msg_view m'] ! j"
      using waiting_at [OF assms(1)] waiting_at [OF rb'(2)] i C(3) slot_at_less [OF ok]
        slot_at_inj [OF i j]
      by (simp add: rb'(5) sl' nth_list_update)
  qed
  with rb' view show ?thesis by (simp add: py_write_def)
qed

text \<open>A full ring of two slots, both holding \<open>ab\<close>.\<close>

definition sample_full_ring :: ring where
  "sample_full_ring = \<lparr>capacity = 2, trace_message_capacity = 8,
     elements = [sample_message, sample_message], busy = [0, 0], has_data = [1, 1], head = 2, tail = 0,
     overflow_counter = 0, resettable_overflow_counter = 0, spinlock_consumer_wait_counter = 0,
     spinlock_producer_wait_counter = 0\<rparr>"

lemma ball_less_2: "(\<forall>i < (2 :: nat). P i) \<longleftrightarrow> P 0 \<and> P 1"
  by (auto simp: less_2_cases_iff)

lemma sample_message_view: "msg_view sample_message = (''ab'', 7, 1000)"
  by (simp add: msg_view_def get_buffer_def sample_message_def c_str_def numeral_nat)

lemma sample_full_ring_at: "ring_at sample_full_ring (capacity sample_full_ring) 0"
  "waiting sample_full_ring = [(''ab'', 7, 1000), (''ab'', 7, 1000)]"
proof -
  have "\<exists>k \<le> (30 :: nat). (2 :: nat) = 2 ^ k" by (rule exI [of _ 1]) simp
  then have "ring_ok sample_full_ring"
    using sample_message_ok(1)
    by (simp add: ring_ok_def sample_full_ring_def is_flag_def) (simp add: sample_message_def)
  then show "ring_at sample_full_ring (capacity sample_full_ring) 0"
    by (simp add: ring_at_def) (simp add: sample_full_ring_def slot_at_def ball_less_2)
  from waiting_at [OF this] show "waiting sample_full_ring = [(''ab'', 7, 1000), (''ab'', 7, 1000)]"
    by (simp add: sample_full_ring_def slot_at_def sample_message_view numeral_2_eq_2)
qed

theorem overrun_appends_to_old_witness:
  "\<exists>rb'. py_write [] 2 0 4 ''new'' sample_full_ring = Some rb' \<and>
     waiting rb' = [(''abnew'', 4, 2000), (''ab'', 7, 1000)] \<and> overflow_counter rb' = 1"
proof -
  have m: "elements sample_full_ring ! slot_at sample_full_ring 0 = sample_message"
    by (simp add: sample_full_ring_def slot_at_def)
  from overrun_appends_to_old [OF sample_full_ring_at(1) _ m [symmetric], of "''new''" "[]" 2 0 4]
  show ?thesis
    by (auto simp: sample_message_ok sample_full_ring_at(2)) (auto simp: sample_full_ring_def)
qed

text \<open>A write into a full ring changes only the message in the slot of the tail.\<close>

lemma overrun_write:
  assumes "ring_at rb (capacity rb) 0" "NUL \<notin> set s"
  obtains rb' where "py_write es a b v s rb = Some rb'" "ring_at rb' (capacity rb) 1"
    "capacity rb' = capacity rb" "trace_message_capacity rb' = trace_message_capacity rb"
    "tl (waiting rb') = tl (waiting rb)" "overflow_counter rb' = overflow_counter rb + 1"
    "resettable_overflow_counter rb' = resettable_overflow_counter rb + 1"
proof -
  let ?n = "capacity rb"
  have ok: "ring_ok rb" using assms(1) by (simp add: ring_at_def)
  have n: "0 < ?n" using ring_okD(1) [OF ok] .
  let ?m = "elements rb ! slot_at rb ?n"
  have m: "tm_ok ?m" "tm_capacity ?m = int (trace_message_capacity rb)"
    using ring_ok_element [OF ok slot_at_less [OF ok]] by simp_all
  have "legal_ops [Stamp a b, Severity v, Write s] ?m" using assms(2) by (simp split: option.split)
  from run_ops_ok [OF m(1) this] m(2) obtain m' where
    m': "run_ops [Stamp a b, Severity v, Write s] ?m = Some m'" "tm_ok m'"
    "tm_capacity m' = int (trace_message_capacity rb)" by auto
  obtain rb1 where rb1: "push es [Stamp a b, Severity v, Write s] rb = Some rb1" "ring_at rb1 ?n 1"
    "capacity rb1 = ?n" "trace_message_capacity rb1 = trace_message_capacity rb" "tail rb1 = tail rb"
    "elements rb1 = (elements rb)[slot_at rb ?n := m']" "overflow_counter rb1 = overflow_counter rb + 1"
    "resettable_overflow_counter rb1 = resettable_overflow_counter rb + 1"
    by (rule push_at [where f = "run_ops [Stamp a b, Severity v, Write s]" and es = es, OF assms(1) _ _ m'(2,3)])
      (use m'(1) in \<open>simp_all del: run_ops.simps\<close>)
  have sl: "slot_at rb1 = slot_at rb" using rb1(3,5) by (simp add: slot_at_def fun_eq_iff)
  have ne: "slot_at rb ?n \<noteq> slot_at rb j" if "0 < j" "j < ?n" for j
    using that slot_at_inj [of j rb 0] slot_at_wrap [of rb 0] by auto
  have up: "[0..<?n] = 0 # [1..<?n]" using n by (simp add: upt_conv_Cons)
  have "tl (waiting rb1) = tl (waiting rb)"
    unfolding waiting_at [OF rb1(2)] waiting_at [OF assms(1)] up sl rb1(6) using ne by simp
  with rb1 show thesis by (intro that [of rb1]) (simp_all add: py_write_def)
qed

lemma drain:
  "ring_at rb n d \<Longrightarrow> tm_ok msg \<Longrightarrow>
   \<exists>vs msg' rb'. run_queue (ring_put es) (ring_get es g) (replicate n Get @ ops) (msg, rb) =
       map_option (\<lambda>(vs', s). (vs @ vs', s)) (run_queue (ring_put es) (ring_get es g) ops (msg', rb')) \<and>
     ring_at rb' 0 d \<and> tm_ok msg' \<and> vs = map Some (waiting rb) \<and> capacity rb' = capacity rb \<and>
     trace_message_capacity rb' = trace_message_capacity rb \<and>
     overflow_counter rb' = overflow_counter rb"
proof (induction n arbitrary: rb msg)
  case 0
  then show ?case
    by (intro exI [of _ "[]"] exI [of _ msg] exI [of _ rb])
      (simp add: waiting_at option.map_ident case_prod_unfold)
next
  case (Suc n)
  from Suc.prems obtain rb1 m where p: "pop es g msg rb = Some (True, m, rb1)" "ring_at rb1 n d" "tm_ok m"
    "waiting rb = msg_view m # waiting rb1" "capacity rb1 = capacity rb"
    "trace_message_capacity rb1 = trace_message_capacity rb"
    "overflow_counter rb1 = overflow_counter rb" by (rule pop_at)
  from Suc.IH [OF p(2,3)] obtain vs msg' rb' where
    "run_queue (ring_put es) (ring_get es g) (replicate n Get @ ops) (m, rb1) =
       map_option (\<lambda>(vs', s). (vs @ vs', s)) (run_queue (ring_put es) (ring_get es g) ops (msg', rb'))"
    "ring_at rb' 0 d" "tm_ok msg'" "vs = map Some (waiting rb1)" "capacity rb' = capacity rb1"
    "trace_message_capacity rb' = trace_message_capacity rb1"
    "overflow_counter rb' = overflow_counter rb1" by blast
  moreover have "ring_get es g (msg, rb) = Some (Some (msg_view m), m, rb1)"
    using p(1) by (simp add: ring_get_def)
  ultimately show ?case using p
    by (intro exI [of _ "Some (msg_view m) # vs"] exI [of _ msg'] exI [of _ rb'])
      (auto simp: map_option_case split: option.splits)
qed

text \<open>A write into an empty ring whose head an overrun has moved past the tail.\<close>

lemma hidden_write:
  assumes "ring_at rb 0 1" "1 < capacity rb" "NUL \<notin> set t"
  obtains rb' i where "py_write es a b v t rb = Some rb'" "ring_ok rb'" "i < capacity rb"
    "has_data rb' ! i = 1" "msg_view (elements rb' ! i) = entry_view (trace_message_capacity rb) (a, b, v, t)"
    "has_data rb' ! nat (tail rb') = 0" "waiting rb' = []" "capacity rb' = capacity rb"
    "trace_message_capacity rb' = trace_message_capacity rb"
    "overflow_counter rb' = overflow_counter rb"
    "resettable_overflow_counter rb' = resettable_overflow_counter rb"
proof -
  have ok: "ring_ok rb" using assms(1) by (simp add: ring_at_def)
  let ?i = "slot_at rb 1" and ?c = "trace_message_capacity rb"
  have t: "slot_at rb 0 = nat (tail rb)" by (rule slot_at_0 [OF ok])
  have i: "?i < capacity rb" "?i \<noteq> nat (tail rb)"
    using slot_at_less [OF ok] slot_at_inj [of 1 rb 0] t assms(2) by auto
  have e: "tm_fresh (elements rb ! ?i)" "busy rb ! ?i = 0" "has_data rb ! ?i = 0"
    "?i = unat (head rb) mod capacity rb"
    using assms(1,2) i by (auto simp: ring_at_def)
  have "tm_capacity (elements rb ! ?i) = int ?c" using ring_ok_element [OF ok i(1)] by simp
  with write_fresh [OF e(1) assms(3), of a b v] obtain m where
    m: "run_ops [Stamp a b, Severity v, Write t] (elements rb ! ?i) = Some m" "tm_ok m"
      "tm_capacity m = int ?c" "msg_view m = entry_view ?c (a, b, v, t)"
    by (metis nat_int)
  let ?rb = "rb\<lparr>head := next_head rb, has_data := (has_data rb)[?i := 1],
     elements := (elements rb)[?i := m], overflow_counter := overflow_counter rb,
     resettable_overflow_counter := resettable_overflow_counter rb\<rparr>"
  have put: "py_write es a b v t rb = Some ?rb"
    using push_free [where f = "run_ops [Stamp a b, Severity v, Write t]" and es = es, OF ok e(4,2) m(1)] e(3) by (simp add: py_write_def)
  have ok': "ring_ok ?rb" using m by (intro ring_ok_update [OF ok]) (simp_all add: is_flag_def)
  have hd: "has_data ?rb ! nat (tail ?rb) = 0"
    using assms(1,2) i t by (simp add: ring_at_def) (metis gr_zeroI not_less_zero)
  then have "waiting ?rb = []" using t assms(2) by (simp add: waiting_def upt_conv_Cons)
  with put ok' i hd m(4) ring_okD(3,5) [OF ok] show thesis
    by (intro that [of ?rb ?i]) simp_all
qed

text \<open>C3: an overrun moves the head past the tail for good: when a full ring of more than one
  slot is overrun once and then drained, the next message is committed to a slot the consumer
  is not looking at.  \<open>pop\<close> reports an empty ring, nothing waits from the tail on, the message
  sits in another slot, and \<open>overflow_counter\<close> does not count it.\<close>

theorem overrun_hides_messages:
  assumes "ring_inv n c (msg, rb)" "1 < n" "length (waiting rb) = n"
    and "NUL \<notin> set s" "NUL \<notin> set t"
  shows "\<exists>vs msg' rb' i. run_queue (ring_put es) (ring_get es g)
      (Put (a, b, v, s) # replicate n Get @ [Put (a', b', v', t), Get]) (msg, rb) =
        Some (map Some vs @ [None], msg', rb') \<and>
    length vs = n \<and> tl vs = tl (waiting rb) \<and> waiting rb' = [] \<and>
    i < n \<and> has_data rb' ! i = 1 \<and> msg_view (elements rb' ! i) = entry_view c (a', b', v', t) \<and>
    overflow_counter rb' = overflow_counter rb + 1"
proof -
  let ?e = "Put (a', b', v', t)"
  from assms(1,3) have at: "ring_at rb n 0" "tm_ok msg" "capacity rb = n" "trace_message_capacity rb = c"
    by (auto simp: ring_inv_def)
  obtain rb1 where rb1: "py_write es a b v s rb = Some rb1" "ring_at rb1 n 1" "capacity rb1 = n"
    "trace_message_capacity rb1 = c" "tl (waiting rb1) = tl (waiting rb)"
    "overflow_counter rb1 = overflow_counter rb + 1"
    using overrun_write [OF at(1)[folded at(3)] assms(4), of es a b v] at(3,4) by auto
  from drain [OF rb1(2) at(2), of es g "[?e, Get]"] obtain msg2 rb2 where
    dr: "run_queue (ring_put es) (ring_get es g) (replicate n Get @ [?e, Get]) (msg, rb1) =
       map_option (\<lambda>(vs', s). (map Some (waiting rb1) @ vs', s))
         (run_queue (ring_put es) (ring_get es g) [?e, Get] (msg2, rb2))"
    and rb2: "ring_at rb2 0 1" "capacity rb2 = n" "trace_message_capacity rb2 = c"
      "overflow_counter rb2 = overflow_counter rb + 1"
    using rb1(3,4,6) by auto
  obtain rb3 i where rb3: "py_write es a' b' v' t rb2 = Some rb3" "ring_ok rb3" "i < capacity rb2"
    "has_data rb3 ! i = 1"
    "msg_view (elements rb3 ! i) = entry_view (trace_message_capacity rb2) (a', b', v', t)"
    "has_data rb3 ! nat (tail rb3) = 0" "waiting rb3 = []" "overflow_counter rb3 = overflow_counter rb2"
    using rb2(1) assms(2)[folded rb2(2)] assms(5) by (rule hidden_write)
  have "ring_get es g (msg2, rb3) = Some (None, msg2, rb3)"
    using pop_empty [OF rb3(2,6), of es g msg2] by (simp add: ring_get_def)
  with rb3(1) have "run_queue (ring_put es) (ring_get es g) [?e, Get] (msg2, rb2) = Some ([None], msg2, rb3)"
    by (simp add: ring_put_def)
  moreover have "length (waiting rb1) = n" by (simp add: waiting_at [OF rb1(2)])
  ultimately show ?thesis
    by (intro exI [of _ "waiting rb1"] exI [of _ msg2] exI [of _ rb3] exI [of _ i])
      (use rb1(1,5) dr rb2 rb3 in \<open>simp add: ring_put_def del: run_queue.simps(3)\<close>)
qed

theorem overrun_hides_messages_witness:
  "\<exists>vs msg' rb' i. run_queue (ring_put []) (ring_get [] (\<lambda>_. CHR ''?''))
      [Put (2, 0, 4, ''new''), Get, Get, Put (3, 0, 5, ''lost''), Get] (sample_message, sample_full_ring) =
        Some (map Some vs @ [None], msg', rb') \<and> waiting rb' = [] \<and> has_data rb' ! i = 1 \<and>
    msg_view (elements rb' ! i) = (''lost'', 5, 3000) \<and> overflow_counter rb' = 1"
proof -
  have "ring_inv 2 8 (sample_message, sample_full_ring)" "length (waiting sample_full_ring) = 2"
    using sample_full_ring_at by (simp_all add: ring_inv_def sample_message_ok)
      (simp_all add: sample_full_ring_def numeral_2_eq_2)
  from overrun_hides_messages [OF this(1) _ this(2), of "''new''" "''lost''" "[]" "\<lambda>_. CHR ''?''" 2 0 4 3 0 5]
  have "\<exists>vs msg' rb' i. run_queue (ring_put []) (ring_get [] (\<lambda>_. CHR ''?''))
      (Put (2, 0, 4, ''new'') # replicate 2 Get @ [Put (3, 0, 5, ''lost''), Get])
      (sample_message, sample_full_ring) =
        Some (map Some vs @ [None], msg', rb') \<and> waiting rb' = [] \<and> has_data rb' ! i = 1 \<and>
    msg_view (elements rb' ! i) = entry_view 8 (3, 0, 5, ''lost'') \<and>
    overflow_counter rb' = overflow_counter sample_full_ring + 1"
    by (simp del: run_queue.simps append_Cons) blast
  moreover have "replicate 2 Get @ [Put (3, 0, 5, ''lost''), Get] =
      [Get, Get, Put (3, 0, 5, ''lost''), Get :: entry queue_op]"
    by (simp add: numeral_2_eq_2)
  moreover have "overflow_counter sample_full_ring = 0" by (simp add: sample_full_ring_def)
  ultimately show ?thesis by (simp add: entry_view_def del: run_queue.simps)
qed

text \<open>The constructor accepts a capacity that is no power of two (the check is commented
  out), and then the masked indices skip slots: with three slots two messages are written
  and only the first is ever delivered, because the tail stays at slot 0.\<close>

lemma capacity_3_loses_messages:
  "case do { rb \<leftarrow> ring_new (\<lambda>_ _. CHR ''?'') 3 8;
             run_queue (ring_put []) (ring_get [] (\<lambda>_. CHR ''?''))
               [Put (1, 0, 7, ''a''), Put (1, 0, 7, ''b''), Get, Get] (sample_message, rb) } of
     None \<Rightarrow> False
   | Some (vs, _, rb) \<Rightarrow> vs = [Some (''a'', 7, 1000), None] \<and> tail rb = 0 \<and>
       has_data rb ! 1 = 1 \<and> msg_view (elements rb ! 1) = (''b'', 7, 1000)"
  by code_simp

end
