(* ===== verification/Ring_Concurrent.thy ===== *)
theory Ring_Concurrent
  imports Ring_Buffer
begin

text \<open>
  The ring of \<open>trace_message_ring_buffer.h\<close> under any interleaving of its producers with
  the dump thread: a program counter per thread, one transition per atomic step (the same
  step functions \<open>reserve_push\<close>, \<open>commit_push\<close> and \<open>pop\<close> are composed of), a schedule that
  picks the thread, and invariants of the reachable states.
\<close>

section \<open>Threads\<close>

text \<open>A producer in \<open>reserve_push\<close>, from the ticket to the returned pointer; \<open>P_Write i\<close>
  is the caller between \<open>reserve_push\<close> and \<open>commit_push\<close>.\<close>

datatype ppc =
    P_Idle | P_Ticket u64 | P_Wrap u64 | P_Spin nat bool | P_Wait nat | P_Mark nat
  | P_Over1 nat | P_Over2 nat | P_Write nat

definition spin_once :: "int \<Rightarrow> ring \<Rightarrow> (bool \<times> ring) option" where
  "spin_once i rb = do {
     flag \<leftarrow> arr_get (busy rb) i;
     (let (taken, flag') = test_and_set flag
      in do { bs \<leftarrow> arr_set (busy rb) i flag'; Some (taken, rb\<lparr>busy := bs\<rparr>) }) }"

fun producer_step :: "ppc \<Rightarrow> ring \<Rightarrow> (ppc \<times> ring) option" where
  "producer_step P_Idle rb = (let (t, rb') = take_ticket rb in Some (P_Ticket t, rb'))"
| "producer_step (P_Ticket t) rb =
     Some (if t \<ge> of_nat (capacity rb) then P_Wrap t else P_Spin (unat t) False, rb)"
| "producer_step (P_Wrap t) rb = Some (P_Spin (unat (t AND slot_mask rb)) False, wrap_head rb)"
| "producer_step (P_Spin i c) rb = do {
     (taken, rb') \<leftarrow> spin_once (int_of_size i) rb;
     Some (if taken then (if c then P_Wait i else P_Mark i) else P_Spin i True, rb') }"
| "producer_step (P_Wait i) rb = Some (P_Mark i, count_producer_wait True rb)"
| "producer_step (P_Mark i) rb = do {
     (was_clear, rb') \<leftarrow> mark_data i rb;
     Some (if \<not> was_clear then P_Over1 i else P_Write i, rb') }"
| "producer_step (P_Over1 i) rb = Some (P_Over2 i, count_overflow rb)"
| "producer_step (P_Over2 i) rb = Some (P_Write i, count_resettable rb)"
| "producer_step (P_Write i) rb = do { rb' \<leftarrow> commit_push i rb; Some (P_Idle, rb') }"

text \<open>A call the producer makes on the message it has reserved.\<close>

fun producer_call :: "tm_op \<Rightarrow> ppc \<Rightarrow> ring \<Rightarrow> ring option" where
  "producer_call x (P_Write i) rb = do {
     m \<leftarrow> arr_get (elements rb) (int i);
     m' \<leftarrow> run_op x m;
     ms \<leftarrow> arr_set (elements rb) (int i) m';
     Some (rb\<lparr>elements := ms\<rparr>) }"
| "producer_call x _ rb = None"

text \<open>The dump thread, from \<open>get_and_reset_overflow_counter\<close> through \<open>pop\<close>.\<close>

datatype cpc =
    C_Idle | C_Reset u64 | C_Pop | C_Spin int bool | C_Wait int | C_Check int | C_Take int
  | C_Clear int | C_Unlock int

fun consumer_step :: "(nat \<Rightarrow> char) \<Rightarrow> cpc \<Rightarrow> trace_message \<Rightarrow> ring \<Rightarrow>
    (cpc \<times> trace_message \<times> ring) option" where
  "consumer_step g C_Idle m rb = Some (C_Reset (load (resettable_overflow_counter rb)), m, rb)"
| "consumer_step g (C_Reset r) m rb =
     Some (C_Pop, m, rb\<lparr>resettable_overflow_counter := store (resettable_overflow_counter rb) 0\<rparr>)"
| "consumer_step g C_Pop m rb = do {
     flag \<leftarrow> arr_get (has_data rb) (tail rb);
     Some (if \<not> test_flag flag then C_Idle else C_Spin (tail rb) False, m, rb) }"
| "consumer_step g (C_Spin i c) m rb = do {
     (taken, rb') \<leftarrow> spin_once i rb;
     Some (if taken then (if c then C_Wait i else C_Check i) else C_Spin i True, m, rb') }"
| "consumer_step g (C_Wait i) m rb = Some (C_Check i, m, count_consumer_wait True rb)"
| "consumer_step g (C_Check i) m rb = do {
     flag \<leftarrow> arr_get (has_data rb) i;
     Some (if test_flag flag then C_Take i else C_Unlock i, m, rb) }"
| "consumer_step g (C_Take i) m rb = do {
     (m', rb') \<leftarrow> take_out g i m rb;
     Some (C_Clear i, m', rb') }"
| "consumer_step g (C_Clear i) m rb = do { rb' \<leftarrow> clear_data i rb; Some (C_Unlock i, m, rb') }"
| "consumer_step g (C_Unlock i) m rb = do { rb' \<leftarrow> unlock_element i rb; Some (C_Idle, m, rb') }"

section \<open>The system\<close>

text \<open>Besides the shared ring and the threads, the state keeps totals the program does not,
  each observed on what the threads find, not on what they count: tickets drawn; messages put
  into a slot whose data flag was clear (\<open>marked\<close>) and into one where it was still set
  (\<open>overruns\<close>); messages taken out; what \<open>get_and_reset_overflow_counter\<close> has returned
  (\<open>reported\<close>); the changes of the resettable counter since the dump thread last loaded it
  (\<open>late\<close>), and those its stores have overwritten (\<open>wiped\<close>).\<close>

record system =
  shared :: ring
  producers :: "ppc list"
  consumer :: cpc
  buffer :: trace_message
  tickets :: nat
  marked :: nat
  overruns :: nat
  taken_out :: nat
  reported :: u64
  late :: nat
  wiped :: nat

datatype choice = Step nat | Call nat tm_op | Dump

text \<open>A producer at its marking step finds the data flag of its slot clear or set.\<close>

fun marks_clear :: "ppc \<Rightarrow> ring \<Rightarrow> bool" where
  "marks_clear (P_Mark i) rb \<longleftrightarrow> has_data rb ! i = 0"
| "marks_clear _ rb \<longleftrightarrow> False"

fun marks_waiting :: "ppc \<Rightarrow> ring \<Rightarrow> bool" where
  "marks_waiting (P_Mark i) rb \<longleftrightarrow> has_data rb ! i \<noteq> 0"
| "marks_waiting _ rb \<longleftrightarrow> False"

definition sys_step :: "(nat \<Rightarrow> char) \<Rightarrow> choice \<Rightarrow> system \<Rightarrow> system option" where
  "sys_step g ch s = (case ch of
     Step p \<Rightarrow> (if p < length (producers s) then do {
         (pc', rb') \<leftarrow> producer_step (producers s ! p) (shared s);
         Some (s\<lparr>shared := rb', producers := (producers s)[p := pc'],
                 tickets := tickets s + (if producers s ! p = P_Idle then 1 else 0),
                 marked := marked s + of_bool (marks_clear (producers s ! p) (shared s)),
                 overruns := overruns s + of_bool (marks_waiting (producers s ! p) (shared s)),
                 late := late s + of_bool (resettable_overflow_counter rb' \<noteq>
                                           resettable_overflow_counter (shared s))\<rparr>) }
       else None)
   | Call p x \<Rightarrow> (if p < length (producers s) then do {
         rb' \<leftarrow> producer_call x (producers s ! p) (shared s);
         Some (s\<lparr>shared := rb'\<rparr>) }
       else None)
   | Dump \<Rightarrow> do {
       (pc', m', rb') \<leftarrow> consumer_step g (consumer s) (buffer s) (shared s);
       Some (s\<lparr>shared := rb', consumer := pc', buffer := m',
               taken_out := taken_out s + (case consumer s of C_Take _ \<Rightarrow> 1 | _ \<Rightarrow> 0),
               reported := reported s + (case consumer s of C_Reset r \<Rightarrow> r | _ \<Rightarrow> 0),
               late := (case consumer s of C_Idle \<Rightarrow> 0 | _ \<Rightarrow> late s),
               wiped := wiped s + (case consumer s of C_Reset r \<Rightarrow> late s | _ \<Rightarrow> 0)\<rparr>) })"

text \<open>A schedule picks existing threads, and a message is only written by the producer that
  has reserved it, with legal arguments.\<close>

fun enabled :: "choice \<Rightarrow> system \<Rightarrow> bool" where
  "enabled (Step p) s \<longleftrightarrow> p < length (producers s)"
| "enabled (Call p x) s \<longleftrightarrow> p < length (producers s) \<and>
     (case producers s ! p of P_Write i \<Rightarrow> legal_op x (elements (shared s) ! i) | _ \<Rightarrow> False)"
| "enabled Dump s \<longleftrightarrow> True"

definition sys_init :: "ring \<Rightarrow> nat \<Rightarrow> trace_message \<Rightarrow> system" where
  "sys_init rb n m = \<lparr>shared = rb, producers = replicate n P_Idle, consumer = C_Idle, buffer = m,
     tickets = 0, marked = 0, overruns = 0, taken_out = 0, reported = 0,
     late = 0, wiped = 0\<rparr>"

text \<open>The states \<open>n\<close> producers and the dump thread can reach on a new ring of \<open>2 ^ k\<close> slots.\<close>

inductive reachable :: "nat \<Rightarrow> nat \<Rightarrow> nat \<Rightarrow> system \<Rightarrow> bool" for k c n where
  start: "k \<le> 30 \<Longrightarrow> 0 < c \<Longrightarrow> int c < INT_MAX \<Longrightarrow> n < 4294967296 \<Longrightarrow>
     ring_new g (2 ^ k) c = Some rb \<Longrightarrow> tm_ok m \<Longrightarrow> reachable k c n (sys_init rb n m)"
| move: "reachable k c n s \<Longrightarrow> enabled ch s \<Longrightarrow> sys_step g ch s = Some s' \<Longrightarrow> reachable k c n s'"

section \<open>Who holds a slot\<close>

fun holder :: "ppc \<Rightarrow> nat option" where
  "holder (P_Wait i) = Some i"
| "holder (P_Mark i) = Some i"
| "holder (P_Over1 i) = Some i"
| "holder (P_Over2 i) = Some i"
| "holder (P_Write i) = Some i"
| "holder _ = None"

fun cholder :: "cpc \<Rightarrow> nat option" where
  "cholder (C_Wait i) = Some (nat i)"
| "cholder (C_Check i) = Some (nat i)"
| "cholder (C_Take i) = Some (nat i)"
| "cholder (C_Clear i) = Some (nat i)"
| "cholder (C_Unlock i) = Some (nat i)"
| "cholder _ = None"

text \<open>The number of threads that hold slot \<open>i\<close>.\<close>

definition holders :: "nat \<Rightarrow> ppc list \<Rightarrow> cpc \<Rightarrow> nat" where
  "holders i ps q =
     count_list (map holder ps) (Some i) + (if cholder q = Some i then 1 else 0)"

text \<open>The slot a producer has drawn.\<close>

fun slot_of :: "ppc \<Rightarrow> nat option" where
  "slot_of (P_Spin i c) = Some i"
| "slot_of pc = holder pc"

text \<open>The producers that have drawn a ticket past the end and not masked the head yet.\<close>

fun wrapping :: "nat \<Rightarrow> ppc \<Rightarrow> bool" where
  "wrapping n (P_Ticket t) \<longleftrightarrow> n \<le> unat t"
| "wrapping n (P_Wrap t) \<longleftrightarrow> True"
| "wrapping n _ \<longleftrightarrow> False"

text \<open>The producers that have found a waiting message and not counted the overrun yet: in the
  first counter, and in the resettable one.\<close>

fun owes_overflow :: "ppc \<Rightarrow> bool" where
  "owes_overflow (P_Over1 i) \<longleftrightarrow> True"
| "owes_overflow _ \<longleftrightarrow> False"

fun owes_resettable :: "ppc \<Rightarrow> bool" where
  "owes_resettable (P_Over1 i) \<longleftrightarrow> True"
| "owes_resettable (P_Over2 i) \<longleftrightarrow> True"
| "owes_resettable _ \<longleftrightarrow> False"

section \<open>What one step of a producer does\<close>

definition is_some_at :: "nat option \<Rightarrow> nat \<Rightarrow> nat" where
  "is_some_at x i = (if x = Some i then 1 else 0)"

text \<open>The contract of a step: the arrays stay well formed, the busy flags change as the
  holding of slots does, data flags are only set, and each counter moves by the amount the
  totals of the system record.\<close>

definition producer_effect :: "ppc \<Rightarrow> ring \<Rightarrow> ppc \<Rightarrow> ring \<Rightarrow> bool" where
  "producer_effect pc rb pc' rb' \<longleftrightarrow>
     ring_ok rb' \<and> capacity rb' = capacity rb \<and> trace_message_capacity rb' = trace_message_capacity rb \<and>
     tail rb' = tail rb \<and> elements rb' = elements rb \<and>
     (\<forall>i < capacity rb. unat (busy rb' ! i) + is_some_at (holder pc) i =
        unat (busy rb ! i) + is_some_at (holder pc') i) \<and>
     (\<forall>i < capacity rb. has_data rb ! i = 1 \<longrightarrow> has_data rb' ! i = 1) \<and>
     count_list (has_data rb') 1 = count_list (has_data rb) 1 + of_bool (marks_clear pc rb) \<and>
     (\<forall>i. slot_of pc' = Some i \<longrightarrow> i < capacity rb) \<and>
     overflow_counter rb' + of_bool (owes_overflow pc') =
        overflow_counter rb + of_bool (owes_overflow pc) + of_bool (marks_waiting pc rb) \<and>
     resettable_overflow_counter rb' + of_bool (owes_resettable pc') =
        resettable_overflow_counter rb + of_bool (owes_resettable pc) + of_bool (marks_waiting pc rb) \<and>
     resettable_overflow_counter rb' = resettable_overflow_counter rb +
        of_bool (resettable_overflow_counter rb' \<noteq> resettable_overflow_counter rb) \<and>
     unat (head rb') mod capacity rb =
        (unat (head rb) + (if pc = P_Idle then 1 else 0)) mod capacity rb"

lemma busy_flag: "ring_ok rb \<Longrightarrow> i < capacity rb \<Longrightarrow> is_flag (busy rb ! i)"
  by (auto simp: ring_ok_def list_all_length)

lemma data_flag: "ring_ok rb \<Longrightarrow> i < capacity rb \<Longrightarrow> is_flag (has_data rb ! i)"
  by (auto simp: ring_ok_def list_all_length)

lemma ring_ok_simps [simp]:
  "ring_ok (rb\<lparr>head := h\<rparr>) = ring_ok rb"
  "ring_ok (rb\<lparr>overflow_counter := a\<rparr>) = ring_ok rb"
  "ring_ok (rb\<lparr>resettable_overflow_counter := a\<rparr>) = ring_ok rb"
  "ring_ok (rb\<lparr>spinlock_producer_wait_counter := a\<rparr>) = ring_ok rb"
  "ring_ok (rb\<lparr>spinlock_consumer_wait_counter := a\<rparr>) = ring_ok rb"
  by (simp_all add: ring_ok_def)

lemma ring_ok_busy: "ring_ok rb \<Longrightarrow> is_flag f \<Longrightarrow> ring_ok (rb\<lparr>busy := (busy rb)[i := f]\<rparr>)"
  by (auto simp: ring_ok_def intro!: list_all_update)

lemma ring_ok_data: "ring_ok rb \<Longrightarrow> is_flag f \<Longrightarrow> ring_ok (rb\<lparr>has_data := (has_data rb)[i := f]\<rparr>)"
  by (auto simp: ring_ok_def intro!: list_all_update)

lemma ring_ok_elements:
  "ring_ok rb \<Longrightarrow> tm_ok m \<Longrightarrow> tm_capacity m = int (trace_message_capacity rb) \<Longrightarrow>
   ring_ok (rb\<lparr>elements := (elements rb)[i := m]\<rparr>)"
  by (auto simp: ring_ok_def intro!: list_all_update)

lemma is_flag_simps [simp]: "is_flag 0" "is_flag 1"
  by (simp_all add: is_flag_def)

lemma spin_once_spec:
  assumes "ring_ok rb" "i < capacity rb"
  shows "spin_once (int i) rb = Some (busy rb ! i = 0, rb\<lparr>busy := (busy rb)[i := 1]\<rparr>)"
  using busy_flag [OF assms] assms(2) ring_okD(4) [OF assms(1)]
  by (auto simp: spin_once_def is_flag_def)

lemma unat_flag: "is_flag f \<Longrightarrow> unat f = (if f = 0 then 0 else 1)"
  by (auto simp: is_flag_def)

lemma count_set_flag:
  assumes "is_flag (fs ! i)" "i < length fs"
  shows "count_list (fs[i := 1]) 1 = count_list fs 1 + (if fs ! i = 0 then 1 else 0)"
  using count_list_update [OF assms(2), of 1 1] assms(1) by (auto simp: is_flag_def split: if_splits)

lemma producer_step_effect:
  assumes "ring_ok rb" "\<And>i. slot_of pc = Some i \<Longrightarrow> i < capacity rb"
    and "\<And>i. holder pc = Some i \<Longrightarrow> busy rb ! i = 1"
  shows "\<exists>pc' rb'. producer_step pc rb = Some (pc', rb') \<and> producer_effect pc rb pc' rb'"
proof -
  note C = ring_okD [OF assms(1)]
  note defs = producer_effect_def is_some_at_def
  show ?thesis
  proof (cases pc)
    case P_Idle
    then show ?thesis using assms(1) C ring_ok_inc [OF assms(1), of "head rb"]
      by (simp add: take_ticket_def defs)
  next
    case (P_Ticket t)
    then show ?thesis using assms(1) C ring_ok_ge [OF assms(1), of t]
      by (auto simp: defs)
  next
    case (P_Wrap t)
    then show ?thesis using assms(1) C
      by (simp add: wrap_head_def defs ring_ok_slot_mask [OF assms(1)])
  next
    case (P_Spin i c)
    with assms(2) have i: "i < capacity rb" by simp
    then show ?thesis using P_Spin C spin_once_spec [OF assms(1) i] busy_flag [OF assms(1) i]
        ring_ok_busy [OF assms(1), of 1 i]
      by (auto simp: defs nth_list_update unat_flag)
  next
    case (P_Wait i)
    with assms(1,2) show ?thesis by (auto simp: defs count_producer_wait_def)
  next
    case (P_Mark i)
    with assms(2) have i: "i < capacity rb" by simp
    then show ?thesis using P_Mark C mark_data_nat [of i rb] data_flag [OF assms(1) i]
        ring_ok_data [OF assms(1), of 1 i] count_set_flag [of "has_data rb" i]
      by (auto simp: defs nth_list_update)
  next
    case (P_Over1 i)
    with assms(1,2) show ?thesis by (auto simp: defs count_overflow_def)
  next
    case (P_Over2 i)
    with assms(1,2) show ?thesis by (auto simp: defs count_resettable_def)
  next
    case (P_Write i)
    with assms(2) have i: "i < capacity rb" by simp
    moreover have "busy rb ! i = 1" using P_Write assms(3) by simp
    ultimately show ?thesis using P_Write C unlock_element_nat [of i rb] ring_ok_busy [OF assms(1), of 0 i]
      by (auto simp: defs commit_push_def nth_list_update)
  qed
qed

lemma head_bound_step:
  assumes "ring_ok rb" "producer_step pc rb = Some (pc', rb')"
    and "unat (head rb) \<le> capacity rb + w" "wrapping (capacity rb) pc \<Longrightarrow> 1 \<le> w"
    and "capacity rb + w < 18446744073709551615"
  shows "unat (head rb') + (if wrapping (capacity rb) pc then 1 else 0) \<le>
    capacity rb + w + (if wrapping (capacity rb) pc' then 1 else 0)"
proof (cases pc)
  case P_Idle
  have "unat (head rb + 1) = unat (head rb) + 1"
    using assms(3,5) by (simp add: unat_word_ariths)
  with P_Idle assms(2,3) show ?thesis by (auto simp: take_ticket_def)
next
  case (P_Ticket t)
  with assms(1-3) show ?thesis by (auto simp: ring_ok_ge split: if_splits)
next
  case (P_Wrap t)
  have "unat (head rb AND slot_mask rb) < capacity rb"
    using ring_okD(1) [OF assms(1)] by (simp add: ring_ok_slot_mask [OF assms(1)])
  with P_Wrap assms(2,4) show ?thesis by (auto simp: wrap_head_def)
qed (use assms(2,3) in \<open>auto simp: spin_once_def mark_data_def count_producer_wait_def
  count_overflow_def count_resettable_def commit_push_def unlock_element_def bind_eq_Some_conv Let_def
  split: if_splits prod.splits\<close>)

section \<open>What one step of the dump thread does\<close>

definition dump_ok :: "cpc \<Rightarrow> ring \<Rightarrow> bool" where
  "dump_ok q rb \<longleftrightarrow> (case q of
     C_Spin i c \<Rightarrow> i = tail rb \<and> has_data rb ! nat i = 1
   | C_Wait i \<Rightarrow> i = tail rb \<and> has_data rb ! nat i = 1
   | C_Check i \<Rightarrow> i = tail rb \<and> has_data rb ! nat i = 1
   | C_Take i \<Rightarrow> i = tail rb \<and> has_data rb ! nat i = 1
   | C_Clear i \<Rightarrow> 0 \<le> i \<and> i < int (capacity rb) \<and> has_data rb ! nat i = 1
   | C_Unlock i \<Rightarrow> 0 \<le> i \<and> i < int (capacity rb)
   | _ \<Rightarrow> True)"

lemma dump_ok_elements [simp]: "dump_ok q (rb\<lparr>elements := ms\<rparr>) = dump_ok q rb"
  by (cases q) (simp_all add: dump_ok_def)

definition dump_effect :: "cpc \<Rightarrow> ring \<Rightarrow> cpc \<Rightarrow> ring \<Rightarrow> bool" where
  "dump_effect q rb q' rb' \<longleftrightarrow>
     ring_ok rb' \<and> dump_ok q' rb' \<and> capacity rb' = capacity rb \<and>
     trace_message_capacity rb' = trace_message_capacity rb \<and> head rb' = head rb \<and>
     tail rb' = (case q of C_Take _ \<Rightarrow> int (slot_at rb 1) | _ \<Rightarrow> tail rb) \<and>
     (\<forall>i < capacity rb. unat (busy rb' ! i) + is_some_at (cholder q) i =
        unat (busy rb ! i) + is_some_at (cholder q') i) \<and>
     count_list (has_data rb') 1 + (case q of C_Clear _ \<Rightarrow> 1 | _ \<Rightarrow> 0) = count_list (has_data rb) 1 \<and>
     overflow_counter rb' = overflow_counter rb \<and>
     resettable_overflow_counter rb' =
       (case q of C_Reset _ \<Rightarrow> 0 | _ \<Rightarrow> resettable_overflow_counter rb) \<and>
     ((\<exists>i. q' = C_Clear i) \<longleftrightarrow> (\<exists>i. q = C_Take i))"

lemma count_clear_flag:
  assumes "fs ! i = 1" "i < length fs"
  shows "Suc (count_list (fs[i := 0]) 1) = count_list (fs :: u32 list) 1"
  using count_list_update [OF assms(2), of 0 1] assms(1) by simp

lemma dump_step_effect:
  assumes "ring_ok rb" "dump_ok q rb" "tm_ok m"
    and "\<And>i. cholder q = Some i \<Longrightarrow> busy rb ! i = 1"
  shows "\<exists>q' m' rb'. consumer_step g q m rb = Some (q', m', rb') \<and> tm_ok m' \<and> dump_effect q rb q' rb'"
proof -
  note C = ring_okD [OF assms(1)]
  obtain t where t: "tail rb = int t" "t < capacity rb" using C(6,7) by (metis nat_0_le of_nat_less_iff)
  note defs = dump_effect_def dump_ok_def is_some_at_def
  show ?thesis
  proof (cases q)
    case C_Idle
    then show ?thesis using assms(1,3) by (simp add: defs)
  next
    case (C_Reset r)
    then show ?thesis using assms(1,3) by (simp add: defs)
  next
    case C_Pop
    then show ?thesis using assms(1,3) t C(5) by (simp add: defs)
  next
    case (C_Spin i c)
    with assms(2) t have i: "i = int t" "has_data rb ! t = 1" by (auto simp: dump_ok_def)
    then show ?thesis using C_Spin assms(1,3) t C spin_once_spec [OF assms(1) t(2)]
        busy_flag [OF assms(1) t(2)] ring_ok_busy [OF assms(1), of 1 t]
      by (auto simp: defs nth_list_update unat_flag)
  next
    case (C_Wait i)
    then show ?thesis using assms(1-3) by (auto simp: defs count_consumer_wait_def)
  next
    case (C_Check i)
    then show ?thesis using assms(1-3) t C(5) by (auto simp: defs)
  next
    case (C_Take i)
    with assms(2) t have i: "i = int t" "has_data rb ! t = 1" by (auto simp: dump_ok_def)
    obtain d m' where "take_out g (int t) m rb =
        Some (d, rb\<lparr>tail := int (slot_at rb 1), elements := (elements rb)[t := m']\<rparr>)"
      "tm_ok d" "tm_fresh m'" "tm_capacity m' = int (trace_message_capacity rb)"
      by (rule take_out_spec [OF assms(1) _ assms(3), of t g]) (simp_all add: t)
    moreover have "ring_ok (rb\<lparr>tail := int (slot_at rb 1), elements := (elements rb)[t := m']\<rparr>)"
      using ring_ok_elements [OF assms(1) tm_fresh_ok, of m' t] calculation(3,4)
        slot_at_less [OF assms(1), of 1] by (simp add: ring_ok_def)
    ultimately show ?thesis using C_Take i t by (auto simp: defs)
  next
    case (C_Clear i)
    with assms(2) obtain j where j: "i = int j" "j < capacity rb" "has_data rb ! j = 1"
      by (auto simp: dump_ok_def) (metis nat_0_le of_nat_less_iff)
    then show ?thesis using C_Clear assms(1,3) C(5) ring_ok_data [OF assms(1), of 0 j]
        count_clear_flag [of "has_data rb" j]
      by (auto simp: defs clear_data_def)
  next
    case (C_Unlock i)
    with assms(2) obtain j where j: "i = int j" "j < capacity rb"
      by (auto simp: dump_ok_def) (metis nat_0_le of_nat_less_iff)
    moreover have "busy rb ! j = 1" using C_Unlock j(1) assms(4) by simp
    ultimately show ?thesis using C_Unlock assms(1,3) C(4) unlock_element_nat [of j rb]
        ring_ok_busy [OF assms(1), of 0 j]
      by (auto simp: defs nth_list_update)
  qed
qed

section \<open>The invariant of the system\<close>

definition sys_inv :: "nat \<Rightarrow> nat \<Rightarrow> nat \<Rightarrow> system \<Rightarrow> bool" where
  "sys_inv k c n s \<longleftrightarrow>
     (let rb = shared s; ps = producers s; q = consumer s in
       ring_ok rb \<and> capacity rb = 2 ^ k \<and> trace_message_capacity rb = c \<and> k \<le> 30 \<and>
       n < 4294967296 \<and> length ps = n \<and> tm_ok (buffer s) \<and> dump_ok q rb \<and>
       (\<forall>p < n. \<forall>i. slot_of (ps ! p) = Some i \<longrightarrow> i < capacity rb) \<and>
       (\<forall>i < capacity rb. holders i ps q = unat (busy rb ! i)) \<and>
       count_list (has_data rb) 1 + taken_out s = marked s + (case q of C_Clear _ \<Rightarrow> 1 | _ \<Rightarrow> 0) \<and>
       of_nat (overruns s) = overflow_counter rb + of_nat (length (filter owes_overflow ps)) \<and>
       of_nat (overruns s) = reported s + of_nat (wiped s) + resettable_overflow_counter rb +
         of_nat (length (filter owes_resettable ps)) \<and>
       (\<forall>r. q = C_Reset r \<longrightarrow> resettable_overflow_counter rb = r + of_nat (late s)) \<and>
       unat (head rb) mod capacity rb = tickets s mod capacity rb \<and>
       unat (head rb) \<le> capacity rb + length (filter (wrapping (capacity rb)) ps) \<and>
       tail rb = int (taken_out s mod capacity rb))"

lemma holders_update:
  "p < length ps \<Longrightarrow>
   holders i (ps[p := pc]) q + is_some_at (holder (ps ! p)) i = holders i ps q + is_some_at (holder pc) i"
  using count_list_update [of p "map holder ps" "holder pc" "Some i"]
  by (simp add: holders_def is_some_at_def map_update)

lemma holders_consumer:
  "holders i ps q' + is_some_at (cholder q) i = holders i ps q + is_some_at (cholder q') i"
  by (simp add: holders_def is_some_at_def)

lemma holders_pos: "p < length ps \<Longrightarrow> holder (ps ! p) = Some i \<Longrightarrow> 0 < holders i ps q"
proof -
  assume "p < length ps" "holder (ps ! p) = Some i"
  then have "Some i \<in> set (map holder ps)" by (metis length_map nth_map nth_mem)
  then have "count_list (map holder ps) (Some i) \<noteq> 0" by (simp only: count_list_0_iff) simp
  then show ?thesis by (simp add: holders_def)
qed

lemma slot_of_holder: "holder pc = Some i \<Longrightarrow> slot_of pc = Some i"
  by (cases pc) auto

lemma sys_inv_start:
  assumes "k \<le> 30" "0 < c" "int c < INT_MAX" "n < 4294967296" "ring_new g (2 ^ k) c = Some rb" "tm_ok m"
  shows "sys_inv k c n (sys_init rb n m)"
proof -
  obtain rb0 where "ring_new g (2 ^ k) c = Some rb0" "ring_at rb0 0 0" "capacity rb0 = 2 ^ k"
    "trace_message_capacity rb0 = c" using assms(1-3) by (rule ring_new_at)
  then have "ring_ok rb" "trace_message_capacity rb = c" using assms(5) by (simp_all add: ring_at_def)
  with ring_new_fields [OF assms(5)] assms show ?thesis
    by (simp add: sys_inv_def sys_init_def dump_ok_def holders_def count_list_0_iff)
qed

lemma dump_ok_producer:
  assumes "dump_ok q rb" "producer_effect pc rb pc' rb'" "ring_ok rb"
  shows "dump_ok q rb'"
proof -
  have "nat (tail rb) < capacity rb" using ring_okD [OF assms(3)] by simp
  with assms(1,2) show ?thesis
    by (auto simp: dump_ok_def producer_effect_def split: cpc.splits)
qed

text \<open>A total that grows by what a thread comes to owe stays the counter plus what is owed.\<close>

lemma owed_step:
  fixes a a' b b' l :: u64
  assumes "a = b + of_nat (length (filter Q ps))" "p < length ps"
    "b' + of_bool (Q pc') = b + of_bool (Q (ps ! p)) + l" "a' = a + l"
  shows "a' = b' + of_nat (length (filter Q (ps[p := pc'])))"
proof -
  have "length (filter Q (ps[p := pc'])) + of_bool (Q (ps ! p)) = length (filter Q ps) + of_bool (Q pc')"
    using length_filter_update [OF assms(2), of Q pc'] by (simp only: of_bool_def)
  then have "of_nat (length (filter Q (ps[p := pc'])) + of_bool (Q (ps ! p))) =
    (of_nat (length (filter Q ps) + of_bool (Q pc')) :: u64)" by (rule arg_cong)
  then have L: "of_nat (length (filter Q (ps[p := pc']))) =
    (of_nat (length (filter Q ps)) + of_bool (Q pc') - of_bool (Q (ps ! p)) :: u64)"
    by (simp add: algebra_simps)
  have B: "b' = b + of_bool (Q (ps ! p)) + l - of_bool (Q pc')"
    using assms(3) by (simp add: algebra_simps)
  show ?thesis unfolding L B assms(1,4) by simp
qed

lemma sys_inv_producer:
  assumes "sys_inv k c n s" "p < length (producers s)"
  shows "\<exists>s'. sys_step g (Step p) s = Some s' \<and> sys_inv k c n s'"
proof -
  let ?rb = "shared s" and ?ps = "producers s" and ?q = "consumer s"
  let ?pc = "producers s ! p"
  note inv = assms(1)[unfolded sys_inv_def Let_def]
  have ok: "ring_ok ?rb" using inv by blast
  have sl: "\<And>i. slot_of ?pc = Some i \<Longrightarrow> i < capacity ?rb" using inv assms(2) by auto
  have bz: "busy ?rb ! i = 1" if "holder ?pc = Some i" for i
  proof -
    have "i < capacity ?rb" using sl slot_of_holder [OF that] by blast
    moreover have "0 < holders i ?ps ?q" using assms(2) that by (rule holders_pos)
    ultimately show ?thesis using inv busy_flag [OF ok, of i] by (auto simp: is_flag_def)
  qed
  from producer_step_effect [OF ok sl bz] obtain pc' rb' where
    step: "producer_step ?pc ?rb = Some (pc', rb')" and eff: "producer_effect ?pc ?rb pc' rb'" by blast
  note e = eff[unfolded producer_effect_def]
  let ?s' = "s\<lparr>shared := rb', producers := ?ps[p := pc'],
     tickets := tickets s + (if ?pc = P_Idle then 1 else 0),
     marked := marked s + of_bool (marks_clear ?pc ?rb),
     overruns := overruns s + of_bool (marks_waiting ?pc ?rb),
     late := late s + of_bool (resettable_overflow_counter rb' \<noteq> resettable_overflow_counter ?rb)\<rparr>"
  have run: "sys_step g (Step p) s = Some ?s'" using step assms(2) by (simp add: sys_step_def)
  have slots: "\<forall>p' < n. \<forall>i. slot_of (?ps[p := pc'] ! p') = Some i \<longrightarrow> i < capacity ?rb"
    using inv e assms(2) by (auto simp: nth_list_update)
  have lock: "\<forall>i < capacity ?rb. holders i (?ps[p := pc']) ?q = unat (busy rb' ! i)"
  proof (intro allI impI)
    fix i assume i: "i < capacity ?rb"
    then have "unat (busy rb' ! i) + is_some_at (holder ?pc) i = unat (busy ?rb ! i) + is_some_at (holder pc') i"
      "holders i ?ps ?q = unat (busy ?rb ! i)" using e inv by auto
    with holders_update [OF assms(2), of i pc' ?q] show "holders i (?ps[p := pc']) ?q = unat (busy rb' ! i)"
      by simp
  qed
  let ?w = "length (filter (wrapping (capacity ?rb)) ?ps)"
  have "?w \<le> n" using inv by (metis length_filter_le)
  then have small: "capacity ?rb + ?w < 18446744073709551615" using inv ring_okD(2) [OF ok] by simp
  have "wrapping (capacity ?rb) ?pc \<Longrightarrow> 1 \<le> ?w"
    using assms(2) by (simp add: Suc_le_eq filter_empty_conv) (metis nth_mem)
  then have bound: "unat (head rb') \<le> capacity ?rb + length (filter (wrapping (capacity ?rb)) (?ps[p := pc']))"
    using head_bound_step [OF ok step _ _ small] inv
      length_filter_update [OF assms(2), of "wrapping (capacity ?rb)" pc'] by auto
  have tick: "unat (head rb') mod capacity ?rb = tickets ?s' mod capacity ?rb"
    using e inv by (simp add: mod_simps) (metis mod_Suc_eq)
  have cnt: "count_list (has_data rb') 1 + taken_out s = marked ?s' + (case ?q of C_Clear _ \<Rightarrow> 1 | _ \<Rightarrow> 0)"
    using e inv by simp
  have v: "of_nat (overruns ?s') = of_nat (overruns s) + of_bool (marks_waiting ?pc ?rb)" by simp
  have o1: "of_nat (overruns ?s') = overflow_counter rb' + of_nat (length (filter owes_overflow (?ps[p := pc'])))"
    by (rule owed_step [OF _ assms(2) _ v, where b = "overflow_counter ?rb"]) (use inv e in blast)+
  have o2: "of_nat (overruns ?s') = reported s + of_nat (wiped s) + resettable_overflow_counter rb' +
      of_nat (length (filter owes_resettable (?ps[p := pc'])))"
  proof (rule owed_step [OF _ assms(2) _ v, where b = "reported s + of_nat (wiped s) + resettable_overflow_counter ?rb"])
    have "resettable_overflow_counter rb' + of_bool (owes_resettable pc') =
      resettable_overflow_counter ?rb + of_bool (owes_resettable ?pc) + of_bool (marks_waiting ?pc ?rb)"
      using e by blast
    then show "reported s + of_nat (wiped s) + resettable_overflow_counter rb' + of_bool (owes_resettable pc') =
      reported s + of_nat (wiped s) + resettable_overflow_counter ?rb + of_bool (owes_resettable ?pc) +
      of_bool (marks_waiting ?pc ?rb)" by (simp only: add.assoc)
  qed (use inv in blast)
  have lt: "\<forall>r. ?q = C_Reset r \<longrightarrow> resettable_overflow_counter rb' = r + of_nat (late ?s')"
  proof (intro allI impI)
    fix r assume "?q = C_Reset r"
    then have "resettable_overflow_counter ?rb = r + of_nat (late s)" using inv by blast
    moreover have "resettable_overflow_counter rb' = resettable_overflow_counter ?rb +
      of_bool (resettable_overflow_counter rb' \<noteq> resettable_overflow_counter ?rb)" using e by blast
    ultimately show "resettable_overflow_counter rb' = r + of_nat (late ?s')"
      by (cases "resettable_overflow_counter rb' = resettable_overflow_counter ?rb") simp_all
  qed
  have "sys_inv k c n ?s'"
    using inv e slots lock bound tick cnt o1 o2 lt dump_ok_producer [OF _ eff ok]
    unfolding sys_inv_def Let_def by (simp del: of_nat_add of_nat_Suc)
  with run show ?thesis by blast
qed

lemma sys_inv_dump:
  assumes "sys_inv k c n s"
  shows "\<exists>s'. sys_step g Dump s = Some s' \<and> sys_inv k c n s'"
proof -
  let ?rb = "shared s" and ?ps = "producers s" and ?q = "consumer s"
  note inv = assms(1)[unfolded sys_inv_def Let_def]
  have ok: "ring_ok ?rb" and d: "dump_ok ?q ?rb" using inv by blast+
  have bz: "busy ?rb ! i = 1" if "cholder ?q = Some i" for i
  proof -
    have "i < capacity ?rb" using that d ring_okD(6,7) [OF ok] by (cases ?q) (auto simp: dump_ok_def)
    moreover have "0 < holders i ?ps ?q" using that by (simp add: holders_def)
    ultimately show ?thesis using inv busy_flag [OF ok, of i] by (auto simp: is_flag_def)
  qed
  from dump_step_effect [OF ok d _ bz, of "buffer s" g] inv obtain q' m' rb' where
    step: "consumer_step g ?q (buffer s) ?rb = Some (q', m', rb')" and m': "tm_ok m'"
    and eff: "dump_effect ?q ?rb q' rb'" by blast
  note e = eff[unfolded dump_effect_def]
  let ?s' = "s\<lparr>shared := rb', consumer := q', buffer := m',
     taken_out := taken_out s + (case ?q of C_Take _ \<Rightarrow> 1 | _ \<Rightarrow> 0),
     reported := reported s + (case ?q of C_Reset r \<Rightarrow> r | _ \<Rightarrow> 0),
     late := (case ?q of C_Idle \<Rightarrow> 0 | _ \<Rightarrow> late s),
     wiped := wiped s + (case ?q of C_Reset r \<Rightarrow> late s | _ \<Rightarrow> 0)\<rparr>"
  have run: "sys_step g Dump s = Some ?s'" using step by (simp add: sys_step_def)
  have lock: "\<forall>i < capacity ?rb. holders i ?ps q' = unat (busy rb' ! i)"
  proof (intro allI impI)
    fix i assume i: "i < capacity ?rb"
    then have "unat (busy rb' ! i) + is_some_at (cholder ?q) i = unat (busy ?rb ! i) + is_some_at (cholder q') i"
      "holders i ?ps ?q = unat (busy ?rb ! i)" using e inv by auto
    with holders_consumer [of i ?ps q' ?q] show "holders i ?ps q' = unat (busy rb' ! i)" by simp
  qed
  have cnt: "count_list (has_data rb') 1 + taken_out ?s' = marked s + (case q' of C_Clear _ \<Rightarrow> 1 | _ \<Rightarrow> 0)"
  proof -
    have "(case q' of C_Clear _ \<Rightarrow> (1 :: nat) | _ \<Rightarrow> 0) = (case ?q of C_Take _ \<Rightarrow> 1 | _ \<Rightarrow> 0)"
      using e by (auto split: cpc.splits)
    then show ?thesis using e inv by (auto split: cpc.splits)
  qed
  have o2: "of_nat (overruns s) = reported ?s' + of_nat (wiped ?s') + resettable_overflow_counter rb' +
      of_nat (length (filter owes_resettable ?ps))"
  proof (cases "\<exists>r. ?q = C_Reset r")
    case True
    then obtain r where "?q = C_Reset r" by blast
    moreover have "resettable_overflow_counter ?rb = r + of_nat (late s)"
      "of_nat (overruns s) = reported s + of_nat (wiped s) + resettable_overflow_counter ?rb +
         of_nat (length (filter owes_resettable ?ps))" "resettable_overflow_counter rb' = 0"
      using inv e \<open>?q = C_Reset r\<close> by auto
    ultimately show ?thesis by (simp add: algebra_simps)
  next
    case False
    with e inv show ?thesis by (auto split: cpc.splits)
  qed
  have lt: "\<forall>r. q' = C_Reset r \<longrightarrow> resettable_overflow_counter rb' = r + of_nat (late ?s')"
    using step by (cases ?q) (auto simp: bind_eq_Some_conv split: if_splits)
  have tl: "tail rb' = int (taken_out ?s' mod capacity ?rb)"
    using e inv by (auto simp: slot_at_def mod_simps split: cpc.splits)
  have "sys_inv k c n ?s'"
    using inv e lock cnt o2 lt tl m' unfolding sys_inv_def Let_def by - (elim conjE, simp)
  with run show ?thesis by blast
qed

lemma sys_inv_call:
  assumes "sys_inv k c n s" "enabled (Call p x) s"
  shows "\<exists>s'. sys_step g (Call p x) s = Some s' \<and> sys_inv k c n s'"
proof -
  let ?rb = "shared s"
  note inv = assms(1)[unfolded sys_inv_def Let_def]
  have ok: "ring_ok ?rb" using inv by blast
  from assms(2) obtain i where i: "p < length (producers s)" "producers s ! p = P_Write i"
    "legal_op x (elements ?rb ! i)" by (auto split: ppc.splits)
  then have iC: "i < capacity ?rb" using inv by auto
  from run_op_ok [OF _ i(3)] ring_ok_element [OF ok iC] obtain m' where
    m': "run_op x (elements ?rb ! i) = Some m'" "tm_ok m'" "tm_capacity m' = int (trace_message_capacity ?rb)"
    by auto
  let ?s' = "s\<lparr>shared := ?rb\<lparr>elements := (elements ?rb)[i := m']\<rparr>\<rparr>"
  have "sys_step g (Call p x) s = Some ?s'"
    using i m'(1) iC ring_okD(3) [OF ok] by (simp add: sys_step_def)
  moreover have "sys_inv k c n ?s'"
    using inv ring_ok_elements [OF ok m'(2,3), of i]
    by - (elim conjE, simp add: sys_inv_def Let_def)
  ultimately show ?thesis by blast
qed

lemma sys_inv_step:
  assumes "sys_inv k c n s" "enabled ch s"
  shows "\<exists>s'. sys_step g ch s = Some s' \<and> sys_inv k c n s'"
proof (cases ch)
  case (Step p)
  with assms show ?thesis using sys_inv_producer by simp
next
  case (Call p x)
  with assms show ?thesis using sys_inv_call by blast
next
  case Dump
  with assms show ?thesis using sys_inv_dump by simp
qed

lemma reachable_inv: "reachable k c n s \<Longrightarrow> sys_inv k c n s"
proof (induction rule: reachable.induct)
  case (start g rb m)
  then show ?case by (intro sys_inv_start)
next
  case (move s ch g s')
  then show ?case using sys_inv_step [OF move.IH move.hyps(2), of g] by auto
qed

text \<open>Who holds a slot, read off the invariant: the busy flag counts the holders.\<close>

lemma busy_iff_held:
  assumes "sys_inv k c n s" "i < 2 ^ k"
  shows "busy (shared s) ! i = 1 \<longleftrightarrow>
    (\<exists>p < n. holder (producers s ! p) = Some i) \<or> cholder (consumer s) = Some i"
proof -
  note inv = assms(1)[unfolded sys_inv_def Let_def]
  have f: "is_flag (busy (shared s) ! i)" "holders i (producers s) (consumer s) = unat (busy (shared s) ! i)"
    using inv assms(2) busy_flag by auto
  then have "busy (shared s) ! i = 1 \<longleftrightarrow> holders i (producers s) (consumer s) \<noteq> 0"
    by (auto simp: is_flag_def)
  also have "\<dots> \<longleftrightarrow> Some i \<in> set (map holder (producers s)) \<or> cholder (consumer s) = Some i"
    using count_list_0_iff [of "map holder (producers s)" "Some i"] by (auto simp: holders_def)
  also have "Some i \<in> set (map holder (producers s)) \<longleftrightarrow> (\<exists>p < n. holder (producers s ! p) = Some i)"
  proof -
    have "length (producers s) = n" using inv by blast
    then show ?thesis unfolding in_set_conv_nth by auto
  qed
  finally show ?thesis .
qed

lemma held_once:
  assumes "sys_inv k c n s" "p < n" "holder (producers s ! p) = Some i"
  shows "i < 2 ^ k \<and> cholder (consumer s) \<noteq> Some i \<and>
    (\<forall>p' < n. holder (producers s ! p') = Some i \<longrightarrow> p' = p)"
proof -
  note inv = assms(1)[unfolded sys_inv_def Let_def]
  let ?ps = "producers s" and ?q = "consumer s"
  have p: "p < length ?ps" using inv assms(2) by simp
  have i: "i < 2 ^ k" using inv slot_of_holder [OF assms(3)] assms(2) by auto
  then have f: "is_flag (busy (shared s) ! i)" "holders i ?ps ?q = unat (busy (shared s) ! i)"
    using inv busy_flag by auto
  have "0 < holders i ?ps ?q" using p assms(3) by (rule holders_pos)
  with f have "holders i ?ps ?q = 1" by (auto simp: is_flag_def)
  then have rest: "holders i (?ps[p := P_Idle]) ?q = 0"
    using holders_update [OF p, of i P_Idle ?q] assms(3) by (simp add: is_some_at_def)
  have "p' = p" if "p' < n" "holder (?ps ! p') = Some i" for p'
  proof (rule ccontr)
    assume "p' \<noteq> p"
    then have "0 < holders i (?ps[p := P_Idle]) ?q"
      using that inv by (intro holders_pos [of p']) simp_all
    with rest show False by simp
  qed
  moreover have "cholder ?q \<noteq> Some i" using rest by (auto simp: holders_def split: if_splits)
  ultimately show ?thesis using i by blast
qed

lemma dump_holds_slot:
  assumes "sys_inv k c n s" "cholder (consumer s) = Some i"
  shows "i < 2 ^ k"
  using assms ring_okD(6,7) [of "shared s"]
  by (cases "consumer s") (auto simp: sys_inv_def Let_def dump_ok_def)

section \<open>Schedules\<close>

fun run_schedule :: "(nat \<Rightarrow> char) \<Rightarrow> choice list \<Rightarrow> system \<Rightarrow> system option" where
  "run_schedule g [] s = Some s"
| "run_schedule g (ch # cs) s =
     (if enabled ch s then do { s' \<leftarrow> sys_step g ch s; run_schedule g cs s' } else None)"

lemma run_schedule_reachable:
  "run_schedule g cs s = Some s' \<Longrightarrow> reachable k c n s \<Longrightarrow> reachable k c n s'"
  by (induction cs arbitrary: s) (auto simp: bind_eq_Some_conv split: if_splits intro: reachable.move)

section \<open>Properties\<close>

text \<open>C1: whatever the interleaving, no step of any thread is undefined: in every reachable
  state each producer step, each legal call on a reserved message and each step of the dump
  thread is defined and leads to a reachable state whose arrays, flags and messages are well
  formed.\<close>

theorem interleavings_safe:
  assumes "reachable k c n s" "enabled ch s"
  shows "\<exists>s'. sys_step g ch s = Some s' \<and> reachable k c n s' \<and> ring_ok (shared s') \<and> tm_ok (buffer s')"
proof -
  from sys_inv_step [OF reachable_inv [OF assms(1)] assms(2), of g] obtain s' where
    "sys_step g ch s = Some s'" "sys_inv k c n s'" by blast
  with assms show ?thesis by (auto simp: sys_inv_def Let_def intro: reachable.move)
qed

text \<open>Two producers on two slots.\<close>

lemma sample_system:
  obtains rb where "ring_new (\<lambda>_ _. CHR ''?'') 2 8 = Some rb" "reachable 1 8 2 (sys_init rb 2 sample_message)"
proof -
  obtain rb where rb: "ring_new (\<lambda>_ _. CHR ''?'') 2 8 = Some rb" by (rule sample_ring)
  moreover have "reachable 1 8 2 (sys_init rb 2 sample_message)"
    by (rule reachable.start [of 1 8 2 "\<lambda>_ _. CHR ''?''"]) (use rb sample_message_ok in simp_all)
  ultimately show thesis by (rule that)
qed

theorem interleavings_safe_witness:
  "\<exists>rb s'. sys_step (\<lambda>_. CHR ''?'') (Step 1) (sys_init rb 2 sample_message) = Some s' \<and> ring_ok (shared s')"
proof -
  obtain rb where "reachable 1 8 2 (sys_init rb 2 sample_message)" by (rule sample_system)
  from interleavings_safe [OF this, of "Step 1" "\<lambda>_. CHR ''?''"] show ?thesis
    by (auto simp: sys_init_def)
qed

text \<open>C4: the lock of a slot is exclusive: in every reachable state a slot's busy flag is 0 or
  1 and is 1 exactly when some thread (a producer or the dump thread) holds the slot, no two
  threads hold the same slot (two producers, or a producer and the dump thread), and every
  slot held is one of the ring's.\<close>

theorem slot_mutual_exclusion:
  assumes "reachable k c n s"
  shows "(\<forall>i < 2 ^ k.
      (busy (shared s) ! i = 0 \<or> busy (shared s) ! i = 1) \<and>
      (busy (shared s) ! i = 1 \<longleftrightarrow>
         (\<exists>p < n. holder (producers s ! p) = Some i) \<or> cholder (consumer s) = Some i)) \<and>
    (\<forall>p < n. \<forall>i. holder (producers s ! p) = Some i \<longrightarrow>
      i < 2 ^ k \<and> cholder (consumer s) \<noteq> Some i \<and>
      (\<forall>p' < n. holder (producers s ! p') = Some i \<longrightarrow> p' = p)) \<and>
    (\<forall>i. cholder (consumer s) = Some i \<longrightarrow> i < 2 ^ k)"
proof -
  note inv = reachable_inv [OF assms]
  have "busy (shared s) ! i = 0 \<or> busy (shared s) ! i = 1" if "i < 2 ^ k" for i
    using inv that busy_flag [of "shared s" i] by (simp add: sys_inv_def Let_def is_flag_def)
  then show ?thesis using busy_iff_held [OF inv] held_once [OF inv] dump_holds_slot [OF inv] by blast
qed

text \<open>A reachable state: producer 0 has reserved slot 0 of two.\<close>

lemma run_sample_schedule:
  "case do { rb \<leftarrow> ring_new (\<lambda>_ _. CHR ''?'') 2 8;
             run_schedule (\<lambda>_. CHR ''?'') (replicate 4 (Step 0)) (sys_init rb 2 sample_message) } of
     None \<Rightarrow> False
   | Some s \<Rightarrow> producers s = [P_Write 0, P_Idle] \<and> consumer s = C_Idle"
  by code_simp

lemma sample_reserved:
  "\<exists>s. reachable 1 8 2 s \<and> producers s = [P_Write 0, P_Idle] \<and> consumer s = C_Idle"
proof -
  obtain rb where rb: "ring_new (\<lambda>_ _. CHR ''?'') 2 8 = Some rb" and
    r: "reachable 1 8 2 (sys_init rb 2 sample_message)" by (rule sample_system)
  from run_sample_schedule rb obtain s where
    "run_schedule (\<lambda>_. CHR ''?'') (replicate 4 (Step 0)) (sys_init rb 2 sample_message) = Some s"
    "producers s = [P_Write 0, P_Idle]" "consumer s = C_Idle"
    by (auto split: option.splits)
  with run_schedule_reachable [OF _ r] show ?thesis by blast
qed

theorem slot_mutual_exclusion_witness:
  "\<exists>s. reachable 1 8 2 s \<and> holder (producers s ! 0) = Some 0 \<and> busy (shared s) ! 0 = 1 \<and>
     busy (shared s) ! 1 = 0 \<and> holder (producers s ! 1) \<noteq> Some 0"
proof -
  obtain s where s: "reachable 1 8 2 s" "producers s = [P_Write 0, P_Idle]" "consumer s = C_Idle"
    using sample_reserved by blast
  have flag: "(busy (shared s) ! i = 0 \<or> busy (shared s) ! i = 1) \<and>
      (busy (shared s) ! i = 1 \<longleftrightarrow>
         (\<exists>p < 2. holder (producers s ! p) = Some i) \<or> cholder (consumer s) = Some i)" if "i < 2" for i
    by (rule conjunct1 [OF slot_mutual_exclusion [OF s(1)], unfolded power_one_right,
          THEN spec, THEN mp, OF that])
  have "busy (shared s) ! 0 = 1" "busy (shared s) ! 1 = 0"
    using flag [of 0] flag [of 1] by (auto simp: s(2,3) numeral_2_eq_2 less_Suc_eq intro: exI [of _ 0])
  then show ?thesis using s by auto
qed

text \<open>One producer overruns the only slot and is about to count it.\<close>

lemma run_over_schedule:
  "case do { rb \<leftarrow> ring_new (\<lambda>_ _. CHR ''?'') 1 8;
             run_schedule (\<lambda>_. CHR ''?'') (replicate 11 (Step 0)) (sys_init rb 1 sample_message) } of
     None \<Rightarrow> False
   | Some s \<Rightarrow> producers s = [P_Over2 0] \<and> consumer s = C_Idle \<and> overruns s = 1 \<and>
       resettable_overflow_counter (shared s) = 0 \<and> reported s = 0 \<and> wiped s = 0"
  by code_simp

lemma sample_over:
  "\<exists>s. reachable 0 8 1 s \<and> producers s = [P_Over2 0] \<and> consumer s = C_Idle \<and> overruns s = 1 \<and>
     resettable_overflow_counter (shared s) = 0 \<and> reported s = 0 \<and> wiped s = 0"
proof -
  obtain rb where rb: "ring_new (\<lambda>_ _. CHR ''?'') (2 ^ 0) 8 = Some rb"
    by (rule ring_new_at [of 0 8 "\<lambda>_ _. CHR ''?''"]) simp_all
  have r: "reachable 0 8 1 (sys_init rb 1 sample_message)"
    by (rule reachable.start [of 0 8 1 "\<lambda>_ _. CHR ''?''"]) (use rb sample_message_ok in simp_all)
  from run_over_schedule rb obtain s where
    run: "run_schedule (\<lambda>_. CHR ''?'') (replicate 11 (Step 0)) (sys_init rb 1 sample_message) = Some s"
    and "producers s = [P_Over2 0]" "consumer s = C_Idle" "overruns s = 1"
      "resettable_overflow_counter (shared s) = 0" "reported s = 0" "wiped s = 0"
    by (auto split: option.splits)
  with run_schedule_reachable [OF run r] show ?thesis by blast
qed

text \<open>C6: in every reachable state the books balance: every message reserved in a slot whose
  data flag was clear has been taken out by the dump thread or still waits in the ring (one is
  on its way out while the dump thread is about to clear its flag); every message reserved in
  a slot where one was still waiting is in the overflow counter, unless its producer has found
  the flag set and is about to count it; and it is in the resettable counter, unless its
  producer is about to count it there, a reset has reported it, or a producer counted it
  between the load and the store of a reset, which overwrites it.\<close>

theorem reservations_accounted:
  assumes "reachable k c n s"
  shows "count_list (has_data (shared s)) 1 + taken_out s =
      marked s + (case consumer s of C_Clear _ \<Rightarrow> 1 | _ \<Rightarrow> 0) \<and>
    of_nat (overruns s) = overflow_counter (shared s) +
      of_nat (length (filter owes_overflow (producers s))) \<and>
    of_nat (overruns s) = resettable_overflow_counter (shared s) +
      of_nat (length (filter owes_resettable (producers s))) + reported s + of_nat (wiped s)"
proof -
  note inv = reachable_inv [OF assms, unfolded sys_inv_def Let_def]
  have "of_nat (overruns s) = reported s + of_nat (wiped s) + resettable_overflow_counter (shared s) +
    of_nat (length (filter owes_resettable (producers s)))" using inv by blast
  then have "of_nat (overruns s) = resettable_overflow_counter (shared s) +
    of_nat (length (filter owes_resettable (producers s))) + reported s + of_nat (wiped s)"
    by (simp only: add_ac)
  with inv show ?thesis by blast
qed

theorem reservations_accounted_witness:
  "\<exists>s. reachable 0 8 1 s \<and> producers s = [P_Over2 0] \<and> overflow_counter (shared s) = 1 \<and>
     resettable_overflow_counter (shared s) = 0"
proof -
  obtain s where s: "reachable 0 8 1 s" "producers s = [P_Over2 0]" "overruns s = 1"
    "resettable_overflow_counter (shared s) = 0" using sample_over by blast
  from reservations_accounted [OF s(1)] s show ?thesis by auto
qed

text \<open>Once the first test of \<open>pop\<close> has found data the test under the lock finds it too, so
  a \<open>pop\<close> that takes the lock always returns a message; the tail is the number of messages
  taken out, modulo the capacity.\<close>

lemma pop_recheck_succeeds:
  assumes "reachable k c n s" "consumer s = C_Check i"
  shows "consumer_step g (consumer s) (buffer s) (shared s) = Some (C_Take i, buffer s, shared s) \<and>
    i = int (taken_out s mod 2 ^ k)"
proof -
  note inv = reachable_inv [OF assms(1), unfolded sys_inv_def Let_def]
  then have ok: "ring_ok (shared s)" and d: "i = tail (shared s)" "has_data (shared s) ! nat i = 1"
    using assms(2) by (auto simp: dump_ok_def)
  then obtain t where "i = int t" "t < capacity (shared s)"
    using ring_okD(6,7) [OF ok] by (metis nat_0_le of_nat_less_iff)
  with d ring_okD(5) [OF ok] inv assms(2) show ?thesis by auto
qed

text \<open>The head counter stays bounded, so it never wraps: it is below the capacity plus the
  number of producers that have not masked it yet, and modulo the capacity it is the number of
  tickets drawn.\<close>

lemma head_bounded:
  assumes "reachable k c n s"
  shows "unat (head (shared s)) \<le> 2 ^ k + n \<and>
    unat (head (shared s)) mod 2 ^ k = tickets s mod 2 ^ k"
proof -
  note inv = reachable_inv [OF assms, unfolded sys_inv_def Let_def]
  then have "length (filter (wrapping (2 ^ k)) (producers s)) \<le> n" by (metis length_filter_le)
  with inv show ?thesis by (auto intro: order_trans)
qed

lemma head_bounded_example:
  "\<exists>s. reachable 1 8 2 s \<and> unat (head (shared s)) \<le> 4 \<and> unat (head (shared s)) mod 2 = tickets s mod 2"
proof -
  obtain s where s: "reachable 1 8 2 s" using sample_reserved by blast
  from head_bounded [OF this] s show ?thesis by auto
qed

lemma run_check_schedule:
  "case do { rb \<leftarrow> ring_new (\<lambda>_ _. CHR ''?'') 2 8;
             run_schedule (\<lambda>_. CHR ''?'') (replicate 5 (Step 0) @ replicate 4 Dump)
               (sys_init rb 2 sample_message) } of
     None \<Rightarrow> False
   | Some s \<Rightarrow> consumer s = C_Check 0"
  by code_simp

lemma pop_recheck_succeeds_example:
  "\<exists>s m. reachable 1 8 2 s \<and> consumer s = C_Check 0 \<and>
     consumer_step (\<lambda>_. NUL) (C_Check 0) (buffer s) (shared s) = Some (C_Take 0, m, shared s)"
proof -
  obtain rb where rb: "ring_new (\<lambda>_ _. CHR ''?'') 2 8 = Some rb" and
    r: "reachable 1 8 2 (sys_init rb 2 sample_message)" by (rule sample_system)
  from run_check_schedule rb obtain s where
    run: "run_schedule (\<lambda>_. CHR ''?'') (replicate 5 (Step 0) @ replicate 4 Dump)
       (sys_init rb 2 sample_message) = Some s" and q: "consumer s = C_Check 0"
    by (auto split: option.splits)
  have s: "reachable 1 8 2 s" by (rule run_schedule_reachable [OF run r])
  from pop_recheck_succeeds [OF s q, of "\<lambda>_. NUL"] s q show ?thesis by metis
qed

fun release_steps :: "ppc \<Rightarrow> nat" where
  "release_steps (P_Wait i) = 5"
| "release_steps (P_Mark i) = 4"
| "release_steps (P_Over1 i) = 3"
| "release_steps (P_Over2 i) = 2"
| "release_steps (P_Write i) = 1"
| "release_steps pc = 0"

fun dump_release_steps :: "cpc \<Rightarrow> nat" where
  "dump_release_steps (C_Wait i) = 5"
| "dump_release_steps (C_Check i) = 4"
| "dump_release_steps (C_Take i) = 3"
| "dump_release_steps (C_Clear i) = 2"
| "dump_release_steps (C_Unlock i) = 1"
| "dump_release_steps q = 0"

lemma release_steps_pos: "release_steps pc = 0 \<Longrightarrow> holder pc = None"
  by (cases pc) auto

lemma producer_releases:
  "producer_step pc rb = Some (pc', rb') \<Longrightarrow> holder pc = Some i \<Longrightarrow>
   holder pc' = None \<or> holder pc' = Some i \<and> release_steps pc' < release_steps pc"
  by (cases pc) (auto simp: bind_eq_Some_conv split: if_splits)

lemma dump_releases:
  "consumer_step g q m rb = Some (q', m', rb') \<Longrightarrow> cholder q = Some i \<Longrightarrow>
   cholder q' = None \<or> cholder q' = Some i \<and> dump_release_steps q' < dump_release_steps q"
  by (cases q) (auto simp: bind_eq_Some_conv split: if_splits)

text \<open>C10: a thread that spins waits for a thread that can move: when a producer's attempt on a
  slot fails, another producer or the dump thread holds that slot, and every step of the
  holder, whatever the others do meanwhile, either releases the slot or brings it closer to
  the release (at most five steps of its own).\<close>

theorem spin_progress:
  assumes "reachable k c n s" "p < n" "producers s ! p = P_Spin i b" "busy (shared s) ! i = 1"
  shows "(\<exists>p' < n. p' \<noteq> p \<and> holder (producers s ! p') = Some i \<and>
       (\<exists>s'. sys_step g (Step p') s = Some s' \<and>
          (holder (producers s' ! p') = None \<or>
           holder (producers s' ! p') = Some i \<and>
           release_steps (producers s' ! p') < release_steps (producers s ! p')))) \<or>
    cholder (consumer s) = Some i \<and>
       (\<exists>s'. sys_step g Dump s = Some s' \<and>
          (cholder (consumer s') = None \<or>
           cholder (consumer s') = Some i \<and>
           dump_release_steps (consumer s') < dump_release_steps (consumer s)))"
proof -
  note inv = reachable_inv [OF assms(1)]
  note inv' = inv[unfolded sys_inv_def Let_def]
  have "i < capacity (shared s)" using inv' assms(2,3) by auto
  then have "holders i (producers s) (consumer s) = 1" using inv' assms(4) by simp
  then consider "cholder (consumer s) = Some i" | "Some i \<in> set (map holder (producers s))"
    using count_list_0_iff [of "map holder (producers s)" "Some i"]
    by (fastforce simp: holders_def split: if_splits)
  then show ?thesis
  proof cases
    case 1
    from sys_inv_dump [OF inv, of g] obtain s' where s': "sys_step g Dump s = Some s'" by blast
    then obtain m rb where "consumer_step g (consumer s) (buffer s) (shared s) = Some (consumer s', m, rb)"
      by (auto simp: sys_step_def bind_eq_Some_conv)
    from dump_releases [OF this 1] 1 s' show ?thesis by blast
  next
    case 2
    then obtain p' where p': "p' < length (producers s)" "holder (producers s ! p') = Some i"
      by (auto simp: in_set_conv_nth)
    from sys_inv_producer [OF inv p'(1), of g] obtain s' where s': "sys_step g (Step p') s = Some s'" by blast
    then obtain rb where "producer_step (producers s ! p') (shared s) = Some (producers s' ! p', rb)"
      using p'(1) by (auto simp: sys_step_def bind_eq_Some_conv)
    from producer_releases [OF this p'(2)] have
      "holder (producers s' ! p') = None \<or> holder (producers s' ! p') = Some i \<and>
         release_steps (producers s' ! p') < release_steps (producers s ! p')" .
    moreover have "p' \<noteq> p" using p'(2) assms(3) by auto
    moreover have "p' < n" using p'(1) inv' by simp
    ultimately show ?thesis using p'(2) s' by blast
  qed
qed

lemma run_spin_schedule:
  "case do { rb \<leftarrow> ring_new (\<lambda>_ _. CHR ''?'') 1 8;
             run_schedule (\<lambda>_. CHR ''?'') (replicate 4 (Step 0) @ replicate 4 (Step 1))
               (sys_init rb 2 sample_message) } of
     None \<Rightarrow> False
   | Some s \<Rightarrow> producers s = [P_Write 0, P_Spin 0 True] \<and> consumer s = C_Idle \<and> busy (shared s) ! 0 = 1"
  by code_simp

theorem spin_progress_witness:
  "\<exists>s. reachable 0 8 2 s \<and> producers s = [P_Write 0, P_Spin 0 True] \<and>
     (\<exists>s'. sys_step (\<lambda>_. NUL) (Step 0) s = Some s' \<and> holder (producers s' ! 0) = None)"
proof -
  obtain rb where rb: "ring_new (\<lambda>_ _. CHR ''?'') (2 ^ 0) 8 = Some rb"
    by (rule ring_new_at [of 0 8 "\<lambda>_ _. CHR ''?''"]) simp_all
  have r: "reachable 0 8 2 (sys_init rb 2 sample_message)"
    by (rule reachable.start [of 0 8 2 "\<lambda>_ _. CHR ''?''"]) (use rb sample_message_ok in simp_all)
  from run_spin_schedule rb obtain s where
    run: "run_schedule (\<lambda>_. CHR ''?'') (replicate 4 (Step 0) @ replicate 4 (Step 1))
       (sys_init rb 2 sample_message) = Some s"
    and ps: "producers s = [P_Write 0, P_Spin 0 True]" "consumer s = C_Idle" "busy (shared s) ! 0 = 1"
    by (auto split: option.splits)
  have s: "reachable 0 8 2 s" by (rule run_schedule_reachable [OF run r])
  have "\<exists>s'. sys_step (\<lambda>_. NUL) (Step 0) s = Some s' \<and> holder (producers s' ! 0) = None"
    using spin_progress [OF s, of 1 0 True "\<lambda>_. NUL"] ps
    by (auto simp: less_2_cases_iff) (metis option.discI release_steps_pos)
  with s ps(1) show ?thesis by blast
qed

text \<open>C13: \<open>get_and_reset_overflow_counter\<close> is not atomic, in any reachable state in which a
  producer is about to count an overrun and the dump thread about to read the counter: if the
  producer counts between the load and the store, the count is overwritten and never reported,
  while the same three steps with the producer first end in the very same state of ring and
  threads and have reported one overrun more.\<close>

theorem reset_wipes_counts:
  assumes "reachable k c n s" "consumer s = C_Idle" "p < n" "producers s ! p = P_Over2 i"
  shows "\<exists>s1 s2. run_schedule g [Dump, Step p, Dump] s = Some s1 \<and>
      run_schedule g [Step p, Dump, Dump] s = Some s2 \<and>
      reported s1 = reported s + resettable_overflow_counter (shared s) \<and> wiped s1 = wiped s + 1 \<and>
      reported s2 = reported s + resettable_overflow_counter (shared s) + 1 \<and> wiped s2 = wiped s \<and>
      resettable_overflow_counter (shared s1) = 0 \<and> consumer s1 = C_Pop \<and> producers s1 ! p = P_Write i \<and>
      shared s2 = shared s1 \<and> producers s2 = producers s1 \<and> consumer s2 = consumer s1 \<and>
      buffer s2 = buffer s1"
proof -
  have "p < length (producers s)" using reachable_inv [OF assms(1)] assms(3) by (simp add: sys_inv_def Let_def)
  with assms(2,4) show ?thesis by (simp add: sys_step_def count_resettable_def)
qed

theorem reset_wipes_counts_witness:
  "\<exists>s s1 s2. reachable 0 8 1 s \<and> run_schedule (\<lambda>_. NUL) [Dump, Step 0, Dump] s = Some s1 \<and>
     run_schedule (\<lambda>_. NUL) [Step 0, Dump, Dump] s = Some s2 \<and> shared s2 = shared s1 \<and>
     reported s1 = 0 \<and> reported s2 = 1"
proof -
  obtain s where s: "reachable 0 8 1 s" "producers s = [P_Over2 0]" "consumer s = C_Idle"
    "resettable_overflow_counter (shared s) = 0" "reported s = 0" using sample_over by blast
  from reset_wipes_counts [OF s(1,3), of 0 0 "\<lambda>_. NUL"] s(2,4,5) have
    "\<exists>s1 s2. run_schedule (\<lambda>_. NUL) [Dump, Step 0, Dump] s = Some s1 \<and>
      run_schedule (\<lambda>_. NUL) [Step 0, Dump, Dump] s = Some s2 \<and> shared s2 = shared s1 \<and>
      reported s1 = 0 \<and> reported s2 = 1" by fastforce
  with s(1) show ?thesis by blast
qed

text \<open>A producer and the dump thread run alone, for at most the given number of steps; seven are
  enough when the lock is free.\<close>

fun solo_producer :: "nat \<Rightarrow> ppc \<Rightarrow> ring \<Rightarrow> (nat \<times> ring) option" where
  "solo_producer f (P_Write i) rb = Some (i, rb)"
| "solo_producer 0 pc rb = None"
| "solo_producer (Suc f) pc rb = do { (pc', rb') \<leftarrow> producer_step pc rb; solo_producer f pc' rb' }"

fun solo_dump :: "nat \<Rightarrow> (nat \<Rightarrow> char) \<Rightarrow> cpc \<Rightarrow> trace_message \<Rightarrow> ring \<Rightarrow> (trace_message \<times> ring) option" where
  "solo_dump f g C_Idle m rb = Some (m, rb)"
| "solo_dump 0 g q m rb = None"
| "solo_dump (Suc f) g q m rb =
     do { (q', m', rb') \<leftarrow> consumer_step g q m rb; solo_dump f g q' m' rb' }"

lemma solo_from_spin:
  assumes "ring_ok rb" "i < capacity rb" "busy rb ! i = 0"
  shows "solo_producer (Suc (Suc (Suc (Suc f)))) (P_Spin i False) rb = Some (i,
    rb\<lparr>busy := (busy rb)[i := 1], has_data := (has_data rb)[i := 1],
       overflow_counter := overflow_counter rb + (if has_data rb ! i = 1 then 1 else 0),
       resettable_overflow_counter :=
         resettable_overflow_counter rb + (if has_data rb ! i = 1 then 1 else 0)\<rparr>)"
proof -
  note C = ring_okD [OF assms(1)]
  have i: "int_of_size i = int i" using assms(2) C(2) by simp
  let ?rb = "rb\<lparr>busy := (busy rb)[i := 1]\<rparr>"
  have m: "mark_data i ?rb = Some (has_data rb ! i = 0, ?rb\<lparr>has_data := (has_data rb)[i := 1]\<rparr>)"
    using mark_data_nat [of i ?rb] data_flag [OF assms(1,2)] assms(2) C(5) by simp
  show ?thesis
  proof (cases "has_data rb ! i = 0")
    case True
    then show ?thesis using spin_once_spec [OF assms(1,2)] assms(3) m by (simp add: i)
  next
    case False
    then have "has_data rb ! i = 1" using data_flag [OF assms(1,2)] by (simp add: is_flag_def)
    then show ?thesis using spin_once_spec [OF assms(1,2)] assms(3) m
      by (simp add: i count_overflow_def count_resettable_def)
  qed
qed

text \<open>Run without interference, the step machines are the functions: from its first step
  to the returned pointer a producer computes \<open>reserve_push\<close>, and the dump thread from the
  first test to its return computes \<open>pop\<close>.\<close>

lemma solo_reserve_push:
  assumes "ring_ok rb" "busy rb ! (unat (head rb) mod capacity rb) = 0"
  shows "solo_producer 7 P_Idle rb = reserve_push es rb"
proof -
  let ?i = "unat (head rb) mod capacity rb"
  have i: "?i < capacity rb" using ring_okD(1) [OF assms(1)] by simp
  have n: "(7 :: nat) = Suc (Suc (Suc (Suc (Suc (Suc (Suc 0))))))" by simp
  have ok: "ring_ok (rb\<lparr>head := h\<rparr>)" for h using assms(1) by simp
  note sp = solo_from_spin [OF ok, of ?i]
  show ?thesis
  proof (cases "head rb \<ge> of_nat (capacity rb)")
    case True
    then have "unat (head rb AND slot_mask rb) = ?i" using ring_ok_slot_mask [OF assms(1)] by simp
    then show ?thesis using True i assms(2) sp
      by (simp add: n reserve_push_free [OF assms(1) refl assms(2)] take_ticket_def wrap_head_def next_head_def)
  next
    case False
    then have "unat (head rb) = ?i" using ring_ok_ge [OF assms(1)] by simp
    then show ?thesis using False i assms(2) sp
      by (simp add: n reserve_push_free [OF assms(1) refl assms(2)] take_ticket_def next_head_def)
  qed
qed

lemma solo_reserve_push_example:
  "\<exists>i rb'. solo_producer 7 P_Idle sample_full_ring = Some (i, rb') \<and> i = 0 \<and> overflow_counter rb' = 1"
proof -
  have ok: "ring_ok sample_full_ring" "busy sample_full_ring ! (unat (head sample_full_ring) mod capacity sample_full_ring) = 0"
    "unat (head sample_full_ring) mod capacity sample_full_ring = 0"
    "has_data sample_full_ring ! 0 = 1" "overflow_counter sample_full_ring = 0"
    using sample_full_ring_at(1) by (simp_all add: ring_at_def) (simp_all add: sample_full_ring_def)
  from solo_reserve_push [OF ok(1,2), of "[]"] reserve_push_free [OF ok(1) refl ok(2), of "[]"] ok(3-5)
  show ?thesis by simp
qed

text \<open>The dump thread's steps compute \<open>pop\<close>.\<close>

lemma solo_pop:
  assumes "ring_ok rb" "tm_ok m" "busy rb ! nat (tail rb) = 0"
  shows "solo_dump 7 g C_Pop m rb = map_option (\<lambda>(found, m', rb'). (m', rb')) (pop es g m rb)"
proof -
  note C = ring_okD [OF assms(1)]
  obtain t where t: "tail rb = int t" "t < capacity rb" using C(6,7) by (metis nat_0_le of_nat_less_iff)
  have n: "(7 :: nat) = Suc (Suc (Suc (Suc (Suc (Suc (Suc 0))))))" by simp
  have f: "is_flag (has_data rb ! t)" using data_flag [OF assms(1) t(2)] .
  show ?thesis
  proof (cases "has_data rb ! t = 1")
    case False
    with f have "has_data rb ! t = 0" by (simp add: is_flag_def)
    then show ?thesis using t C(5) by (simp add: n pop_def)
  next
    case True
    let ?rb = "rb\<lparr>busy := (busy rb)[t := 1]\<rparr>"
    have ok: "ring_ok ?rb" using ring_ok_busy [OF assms(1), of 1 t] by simp
    obtain d m' where "take_out g (int t) m ?rb = Some (d, ?rb\<lparr>tail := int (slot_at ?rb 1),
        elements := (elements ?rb)[t := m']\<rparr>)"
      by (rule take_out_spec [OF ok _ assms(2), of t g]) (simp_all add: t)
    moreover have "t < 2147483648" using t(2) C(2) by simp
    ultimately show ?thesis using True t C(4,5) assms(3) spin_once_spec [OF assms(1) t(2)]
      by (simp add: n pop_def lock_element_free consume_def clear_data_def Let_def
          count_consumer_wait_def unlock_element_nat)
  qed
qed

lemma solo_pop_example:
  "\<exists>m' rb'. solo_dump 7 (\<lambda>_. NUL) C_Pop sample_message sample_full_ring = Some (m', rb') \<and>
     waiting rb' = [(''ab'', 7, 1000)]"
proof -
  have ok: "ring_ok sample_full_ring" "busy sample_full_ring ! nat (tail sample_full_ring) = 0"
    using sample_full_ring_at(1) by (simp_all add: ring_at_def) (simp add: sample_full_ring_def)
  have "ring_at sample_full_ring (Suc 1) 0"
    using sample_full_ring_at(1) by (simp add: sample_full_ring_def numeral_2_eq_2)
  then obtain rb' m where "pop [] (\<lambda>_. NUL) sample_message sample_full_ring = Some (True, m, rb')"
    "waiting sample_full_ring = msg_view m # waiting rb'"
    using sample_message_ok(1) by (rule pop_at)
  with solo_pop [OF ok(1) sample_message_ok(1) ok(2), of "\<lambda>_. NUL" "[]"] sample_full_ring_at(2)
  show ?thesis by simp
qed

end
