(* ===== verification/Calendar.thy ===== *)
theory Calendar
  imports Prelude
begin

text \<open>
  The calendar of the C library the dumps use: \<open>gmtime_r\<close> on a non-negative \<open>time_t\<close>, its
  inverse, and the ISO timestamp that \<open>FileTraceDump::process\<close> and
  \<open>SyslogTraceDump::format_message\<close> print from it.
\<close>

section \<open>gmtime\<close>

definition leap_year :: "nat \<Rightarrow> bool" where
  "leap_year y \<longleftrightarrow> y mod 4 = 0 \<and> y mod 100 \<noteq> 0 \<or> y mod 400 = 0"

definition year_days :: "nat \<Rightarrow> nat" where
  "year_days y = (if leap_year y then 366 else 365)"

definition month_lengths :: "nat \<Rightarrow> nat list" where
  "month_lengths y = [31, if leap_year y then 29 else 28, 31, 30, 31, 30, 31, 31, 30, 31, 30, 31]"

function year_of :: "nat \<Rightarrow> nat \<Rightarrow> nat \<times> nat" where
  "year_of d y = (if d < year_days y then (y, d) else year_of (d - year_days y) (y + 1))"
  by auto
termination by (relation "measure fst") (auto simp: year_days_def)

declare year_of.simps [simp del]

fun month_of :: "nat \<Rightarrow> nat \<Rightarrow> nat list \<Rightarrow> nat \<times> nat" where
  "month_of d m [] = (m, d)"
| "month_of d m (l # ls) = (if d < l then (m, d) else month_of (d - l) (m + 1) ls)"

record tm =
  tm_year :: nat
  tm_mon :: nat
  tm_mday :: nat
  tm_hour :: nat
  tm_min :: nat
  tm_sec :: nat

definition gmtime :: "nat \<Rightarrow> tm" where
  "gmtime t =
     (let (y, yd) = year_of (t div 86400) 1970;
          (m, d) = month_of yd 0 (month_lengths y);
          s = t mod 86400
      in \<lparr>tm_year = y - 1900, tm_mon = m, tm_mday = d + 1,
          tm_hour = s div 3600, tm_min = s mod 3600 div 60, tm_sec = s mod 60\<rparr>)"

definition days_to_year :: "nat \<Rightarrow> nat" where
  "days_to_year y = sum_list (map year_days [1970..<y])"

definition days_to_month :: "nat \<Rightarrow> nat \<Rightarrow> nat" where
  "days_to_month y m = sum_list (take m (month_lengths y))"

definition seconds_of :: "nat \<Rightarrow> nat \<Rightarrow> nat \<Rightarrow> nat \<Rightarrow> nat \<Rightarrow> nat \<Rightarrow> nat" where
  "seconds_of year mon mday h m s =
     (days_to_year year + days_to_month year (mon - 1) + (mday - 1)) * 86400 + h * 3600 + m * 60 + s"

lemma year_of_spec:
  "1970 \<le> y \<Longrightarrow> year_of d y = (y', d') \<Longrightarrow>
   y \<le> y' \<and> d' < year_days y' \<and> days_to_year y + d = days_to_year y' + d' \<and> y' \<le> y + d div 365"
proof (induction d y rule: year_of.induct)
  case (1 d y)
  show ?case
  proof (cases "d < year_days y")
    case True
    with 1(3) show ?thesis by (subst (asm) year_of.simps) auto
  next
    case False
    with 1(3) have "year_of (d - year_days y) (y + 1) = (y', d')"
      by (subst (asm) year_of.simps) simp
    with 1(1) [OF False] 1(2) have IH: "y + 1 \<le> y'" "d' < year_days y'"
      "days_to_year (y + 1) + (d - year_days y) = days_to_year y' + d'"
      "y' \<le> y + 1 + (d - year_days y) div 365" by auto
    have "days_to_year (y + 1) = days_to_year y + year_days y"
      using 1(2) by (simp add: days_to_year_def)
    moreover have "(d - year_days y) div 365 + 1 \<le> d div 365"
    proof -
      have "(d - year_days y) div 365 + 1 = (d - year_days y + 365) div 365" by simp
      also have "\<dots> \<le> d div 365" using False by (intro div_le_mono) (simp add: year_days_def split: if_splits)
      finally show ?thesis .
    qed
    ultimately show ?thesis using IH False by auto
  qed
qed

lemma month_of_spec:
  "d < sum_list ls \<Longrightarrow> month_of d m ls = (m', d') \<Longrightarrow>
   m \<le> m' \<and> m' < m + length ls \<and> d' < ls ! (m' - m) \<and> d = sum_list (take (m' - m) ls) + d'"
proof (induction ls arbitrary: d m)
  case (Cons l ls)
  show ?case
  proof (cases "d < l")
    case False
    with Cons.IH [of "d - l" "m + 1"] Cons.prems
    have "m + 1 \<le> m'" "m' < m + 1 + length ls" "d' < ls ! (m' - (m + 1))"
      "d - l = sum_list (take (m' - (m + 1)) ls) + d'" by auto
    moreover from this(1) obtain j where "m' = m + 1 + j" using le_Suc_ex by blast
    ultimately show ?thesis using False by simp
  qed (use Cons.prems in simp)
qed simp

lemma sum_month_lengths: "sum_list (month_lengths y) = year_days y"
  by (simp add: month_lengths_def year_days_def)

lemma split_seconds:
  "t div 86400 * 86400 + t mod 86400 div 3600 * 3600 + t mod 86400 mod 3600 div 60 * 60 +
   t mod 86400 mod 60 = (t :: nat)"
proof -
  have add: "X + S = T \<Longrightarrow> H + R = S \<Longrightarrow> M + Q = R \<Longrightarrow> Q = Q' \<Longrightarrow> X + H + M + Q' = T"
    for X S T H R M Q Q' :: nat by simp
  show ?thesis
    by (rule add [OF div_mult_mod_eq div_mult_mod_eq div_mult_mod_eq]) (rule mod_mod_cancel, simp)
qed

text \<open>Every field of \<open>gmtime\<close> is in its range, and the fields determine the time.\<close>

lemma gmtime_spec:
  assumes "gmtime t = r"
  shows "tm_mon r < 12" "1 \<le> tm_mday r" "tm_mday r \<le> 31" "tm_hour r < 24" "tm_min r < 60"
    "tm_sec r < 60" "70 \<le> tm_year r" "tm_year r \<le> 70 + t div 86400 div 365"
    "seconds_of (tm_year r + 1900) (tm_mon r + 1) (tm_mday r) (tm_hour r) (tm_min r) (tm_sec r) = t"
proof -
  obtain y yd where y: "year_of (t div 86400) 1970 = (y, yd)" by fastforce
  obtain m d where m: "month_of yd 0 (month_lengths y) = (m, d)" by fastforce
  let ?s = "t mod 86400"
  have r: "r = \<lparr>tm_year = y - 1900, tm_mon = m, tm_mday = d + 1, tm_hour = ?s div 3600,
      tm_min = ?s mod 3600 div 60, tm_sec = ?s mod 60\<rparr>"
    using assms by (simp add: gmtime_def y m Let_def)
  have "days_to_year 1970 = 0" by (simp add: days_to_year_def)
  with year_of_spec [OF _ y] have Y: "1970 \<le> y" "yd < year_days y"
    "t div 86400 = days_to_year y + yd" "y \<le> 1970 + t div 86400 div 365"
    by auto
  from month_of_spec [OF _ m] Y(2) have M: "m < 12" "d < month_lengths y ! m"
    "yd = days_to_month y m + d"
    by (simp_all add: sum_month_lengths days_to_month_def) (simp_all add: month_lengths_def)
  have "month_lengths y ! m \<le> 31"
    using M(1) by (auto simp: month_lengths_def less_Suc_eq numeral_eq_Suc)
  then show "tm_mon r < 12" "1 \<le> tm_mday r" "tm_mday r \<le> 31" "70 \<le> tm_year r"
    "tm_year r \<le> 70 + t div 86400 div 365"
    using M Y by (simp_all add: r)
  have s: "?s < 86400" by simp
  then have "?s div 3600 < 24" by (simp add: less_mult_imp_div_less)
  then show "tm_hour r < 24" by (simp add: r)
  have "?s mod 3600 div 60 < 60" by (rule less_mult_imp_div_less) simp
  then show "tm_min r < 60" "tm_sec r < 60" by (simp_all add: r)
  have f: "tm_year r + 1900 = y" "tm_mon r + 1 - 1 = m" "tm_mday r - 1 = d" "tm_hour r = ?s div 3600"
    "tm_min r = ?s mod 3600 div 60" "tm_sec r = ?s mod 60"
    using Y(1) by (simp_all add: r)
  have "days_to_year y + days_to_month y m + d = t div 86400" using Y(3) M(3) by simp
  then show "seconds_of (tm_year r + 1900) (tm_mon r + 1) (tm_mday r) (tm_hour r) (tm_min r) (tm_sec r) = t"
    by (simp only: seconds_of_def f split_seconds)
qed

section \<open>The ISO timestamp\<close>

text \<open>\<open>sprintf(iso_time, "%04d-%02d-%02dT%02d:%02d:%02d", ...)\<close>, then \<open>".%06d"\<close> of the
  milliseconds where they are not 0.\<close>

definition iso_seconds :: "tm \<Rightarrow> string" where
  "iso_seconds r =
     fmt_0d 4 (int (tm_year r) + 1900) @ ''-'' @ fmt_0d 2 (int (tm_mon r) + 1) @ ''-'' @
     fmt_0d 2 (int (tm_mday r)) @ ''T'' @ fmt_0d 2 (int (tm_hour r)) @ '':'' @
     fmt_0d 2 (int (tm_min r)) @ '':'' @ fmt_0d 2 (int (tm_sec r))"

definition iso_time :: "u64 \<Rightarrow> string" where
  "iso_time ts =
     (let r = gmtime (unat (ts div 1000)); frac = unat (ts mod 1000)
      in iso_seconds r @ (if frac \<noteq> 0 then ''.'' @ fmt_0d 6 (int frac) else []))"

text \<open>How a log reader takes such a timestamp: runs of digits between separators, the last
  one (after a dot) a decimal fraction of a second; the result is in microseconds.\<close>

fun digit_runs :: "string \<Rightarrow> string \<Rightarrow> string list" where
  "digit_runs ds [] = [ds]"
| "digit_runs ds (c # cs) = (if is_digit c then digit_runs (ds @ [c]) cs else ds # digit_runs [] cs)"

definition read_iso_micros :: "string \<Rightarrow> nat option" where
  "read_iso_micros s = (case digit_runs [] s of
     [y, mo, d, h, mi, sec] \<Rightarrow>
       Some (seconds_of (dec_val y) (dec_val mo) (dec_val d) (dec_val h) (dec_val mi) (dec_val sec) * 1000000)
   | [y, mo, d, h, mi, sec, f] \<Rightarrow>
       Some (seconds_of (dec_val y) (dec_val mo) (dec_val d) (dec_val h) (dec_val mi) (dec_val sec) * 1000000 +
             dec_val f * 10 ^ (6 - length f))
   | _ \<Rightarrow> None)"

lemma fmt_0d_digits: "0 \<le> i \<Longrightarrow> c \<in> set (fmt_0d w i) \<Longrightarrow> is_digit c"
  by (auto simp: fmt_0d_def Let_def is_digit_def[of "CHR ''0''"] dest!: fmt_u_chars intro: digit_char_is_digit)

lemma digit_runs_append:
  "(\<And>c. c \<in> set s \<Longrightarrow> is_digit c) \<Longrightarrow> digit_runs ds (s @ r) = digit_runs (ds @ s) r"
  by (induction s arbitrary: ds) auto

lemma digit_runs_field [simp]:
  "0 \<le> i \<Longrightarrow> digit_runs ds (fmt_0d w i @ r) = digit_runs (ds @ fmt_0d w i) r"
  by (rule digit_runs_append) (rule fmt_0d_digits)

lemma digit_runs_last [simp]: "0 \<le> i \<Longrightarrow> digit_runs ds (fmt_0d w i) = [ds @ fmt_0d w i]"
  using digit_runs_field [of i ds w "[]"] by simp

lemma ms_split: "unat (ts div 1000) = unat (ts :: u64) div 1000" "unat (ts mod 1000) = unat ts mod 1000"
  by (simp_all add: unat_div unat_mod)

lemma iso_time_length: "length (iso_time ts) < 128"
proof -
  let ?t = "unat ts div 1000"
  let ?r = "gmtime ?t"
  note g = gmtime_spec [OF refl, of ?t]
  have "unat ts < 2 ^ 64" using unsigned_less [of ts] by simp
  then have "?t div 86400 div 365 < 600000000" by simp
  with g(8) have y: "tm_year ?r + 1900 < 10 ^ Suc 8" by simp
  have 2: "length (fmt_0d 2 (int n)) \<le> 2" if "n < 100" for n
    using fmt_0d_length [of "int n" 1 2] that by simp
  have "length (fmt_0d 4 (int (tm_year ?r) + 1900)) \<le> 9"
    using fmt_0d_length [of "int (tm_year ?r) + 1900" 8 4] y by (simp add: nat_add_distrib)
  moreover have "length (fmt_0d 6 (int (unat ts mod 1000))) \<le> 6"
    using fmt_0d_length [of "int (unat ts mod 1000)" 5 6] by simp
  ultimately show ?thesis
    using 2 [of "tm_mon ?r + 1"] 2 [of "tm_mday ?r"] 2 [of "tm_hour ?r"] 2 [of "tm_min ?r"] 2 [of "tm_sec ?r"]
      g(1-6)
    by (simp add: iso_time_def Let_def iso_seconds_def ms_split add.commute)
qed

lemma iso_time_no_NUL [no_NUL]: "NUL \<notin> set (iso_time ts)"
  by (simp add: iso_time_def Let_def iso_seconds_def no_NUL)

lemma read_iso_time:
  "read_iso_micros (iso_time ts) = Some (unat ts div 1000 * 1000000 + unat ts mod 1000)"
proof -
  let ?r = "gmtime (unat ts div 1000)"
  note g = gmtime_spec [OF refl, of "unat ts div 1000"]
  have v: "dec_val (fmt_0d w (int n + 1)) = n + 1" "dec_val (fmt_0d w (int n + 1900)) = n + 1900"
    "dec_val (fmt_0d w (int n)) = n" for w n
    by (simp_all add: dec_val_fmt_0d nat_add_distrib)
  have sep: "\<not> is_digit (CHR ''-'')" "\<not> is_digit (CHR ''T'')" "\<not> is_digit (CHR '':'')" "\<not> is_digit (CHR ''.'')"
    by (simp_all add: is_digit_def)
  have l: "length (fmt_0d 6 (int (unat ts mod 1000))) = 6"
    by (rule fmt_0d_length_exact [of _ 5]) simp_all
  show ?thesis
    using g(9) by (simp add: read_iso_micros_def iso_time_def iso_seconds_def Let_def ms_split sep v l)
qed

text \<open>The equations that evaluate a concrete timestamp.\<close>

lemmas gmtime_eval = gmtime_def year_of.simps year_days_def leap_year_def month_lengths_def Let_def

lemma iso_time_of:
  "unat ts = n \<Longrightarrow> n mod 1000 = 0 \<Longrightarrow> gmtime (n div 1000) = r \<Longrightarrow> iso_time ts = iso_seconds r"
  by (simp add: iso_time_def ms_split)

lemma gmtime_examples:
  "gmtime 0 = \<lparr>tm_year = 70, tm_mon = 0, tm_mday = 1, tm_hour = 0, tm_min = 0, tm_sec = 0\<rparr>"
  "gmtime 1 = \<lparr>tm_year = 70, tm_mon = 0, tm_mday = 1, tm_hour = 0, tm_min = 0, tm_sec = 1\<rparr>"
  "gmtime 10 = \<lparr>tm_year = 70, tm_mon = 0, tm_mday = 1, tm_hour = 0, tm_min = 0, tm_sec = 10\<rparr>"
  "gmtime 86400 = \<lparr>tm_year = 70, tm_mon = 0, tm_mday = 2, tm_hour = 0, tm_min = 0, tm_sec = 0\<rparr>"
  by (simp_all add: gmtime_eval)

lemma iso_seconds_examples:
  "iso_seconds \<lparr>tm_year = 70, tm_mon = 0, tm_mday = 1, tm_hour = 0, tm_min = 0, tm_sec = 0\<rparr> = ''1970-01-01T00:00:00''"
  "iso_seconds \<lparr>tm_year = 70, tm_mon = 0, tm_mday = 1, tm_hour = 0, tm_min = 0, tm_sec = 1\<rparr> = ''1970-01-01T00:00:01''"
  "iso_seconds \<lparr>tm_year = 70, tm_mon = 0, tm_mday = 1, tm_hour = 0, tm_min = 0, tm_sec = 10\<rparr> = ''1970-01-01T00:00:10''"
  "iso_seconds \<lparr>tm_year = 70, tm_mon = 0, tm_mday = 2, tm_hour = 0, tm_min = 0, tm_sec = 0\<rparr> = ''1970-01-02T00:00:00''"
  by code_simp+

lemma iso_time_examples:
  "iso_time 0 = ''1970-01-01T00:00:00''"
  "iso_time 1000 = ''1970-01-01T00:00:01''"
  "iso_time 10000 = ''1970-01-01T00:00:10''"
  "iso_time 86400000 = ''1970-01-02T00:00:00''"
  using iso_time_of [of 0 0] iso_time_of [of 1000 1000] iso_time_of [of 10000 10000]
    iso_time_of [of 86400000 86400000]
  by (simp_all add: gmtime_examples iso_seconds_examples del: One_nat_def)

section \<open>Properties\<close>

text \<open>For every timestamp the printed ISO time fits the \<open>char iso_time[128]\<close> it is printed
  into with its NUL, and holds no NUL of its own.\<close>

lemma iso_time_fits: "length (iso_time ts) < 128 \<and> NUL \<notin> set (iso_time ts)"
  using iso_time_length iso_time_no_NUL by blast

text \<open>A reader of the printed time gets the second right, but takes the milliseconds for
  microseconds, because they are printed with six digits after the dot: the time read is the
  timestamp only when the milliseconds are 0.\<close>

lemma iso_fraction_misread:
  "read_iso_micros (iso_time ts) = Some (unat ts div 1000 * 1000000 + unat ts mod 1000) \<and>
   (read_iso_micros (iso_time ts) = Some (unat ts * 1000) \<longleftrightarrow> unat ts mod 1000 = 0)"
proof -
  have "unat ts * 1000 = unat ts div 1000 * 1000000 + unat ts mod 1000 * 1000"
    using div_mult_mod_eq [of "unat ts" 1000] by linarith
  then show ?thesis by (simp add: read_iso_time)
qed

end
