(* ===== verification/Trace_Dump.thy ===== *)
theory Trace_Dump
  imports Ring_Buffer Calendar
begin

text \<open>
  \<open>trace_dump.h\<close> and \<open>trace_dump.cpp\<close>: the dump thread that takes messages out of the ring
  and writes them, its shutdown, and the file dump.  The virtual method \<open>process\<close> is the
  argument \<open>proc\<close> of the base class's methods; it works on the state of the derived class,
  the field \<open>sink\<close>.  A loop that never ends, and an undefined access, is \<^const>\<open>None\<close>.
\<close>

section \<open>The base class\<close>

type_synonym 'o process = "'o \<Rightarrow> trace_message \<Rightarrow> 'o option"

record 'o trace_dump =
  message_buffer :: trace_message
  shutdown_flag :: bool
  ring_buffer :: ring
  thread_running :: bool
  thread_alive :: bool
  sink :: 'o

text \<open>What the process sees of its surroundings: the clock, its process id, and what a fresh
  allocation holds.  \<open>thread_alive\<close> is whether the thread that \<open>mint_thread_create\<close> started
  is still inside \<open>thread_func\<close>.\<close>

record dump_env =
  now_sec :: int
  now_usec :: int
  env_pid :: int
  env_chars :: "nat \<Rightarrow> char"

definition trace_dump_new :: "dump_env \<Rightarrow> ring \<Rightarrow> 'o \<Rightarrow> 'o trace_dump option" where
  "trace_dump_new env rb out = do {
     m \<leftarrow> trace_message_new (env_chars env) (int_of_size (trace_message_capacity rb));
     Some \<lparr>message_buffer = m, shutdown_flag = False, ring_buffer = rb, thread_running = False,
           thread_alive = False, sink = out\<rparr> }"

text \<open>\<open>printf("pid %ld lost %ld messages due to overflow", pid, messages_lost)\<close>\<close>

definition overflow_text :: "int \<Rightarrow> u64 \<Rightarrow> string" where
  "overflow_text pid messages_lost =
     ''pid '' @ fmt_d pid @ '' lost '' @ fmt_d (sint messages_lost) @ '' messages due to overflow''"

definition process_overflow ::
  "'o process \<Rightarrow> dump_env \<Rightarrow> u64 \<Rightarrow> 'o trace_dump \<Rightarrow> 'o trace_dump option" where
  "process_overflow proc env messages_lost s = do {
     m1 \<leftarrow> recycle (message_buffer s);
     (ok, m2) \<leftarrow> tm_printf (overflow_text (env_pid env) messages_lost)
                  (set_severity 4 (set_timestamp (now_sec env) (now_usec env) m1));
     out \<leftarrow> proc (sink s) m2;
     Some (s\<lparr>message_buffer := m2, sink := out\<rparr>) }"

definition pop_and_process ::
  "'o process \<Rightarrow> dump_env \<Rightarrow> 'o trace_dump \<Rightarrow> (bool \<times> 'o trace_dump) option" where
  "pop_and_process proc env s =
     (let (overflow, rb) = get_and_reset_overflow_counter (\<lambda>v. v) (ring_buffer s);
          s = s\<lparr>ring_buffer := rb\<rparr>
      in do {
        s \<leftarrow> (if overflow > 0 then process_overflow proc env overflow s else Some s);
        (found, m, rb) \<leftarrow> pop [] (env_chars env) (message_buffer s) (ring_buffer s);
        (let s = s\<lparr>message_buffer := m, ring_buffer := rb\<rparr>
         in if found then do { out \<leftarrow> proc (sink s) m; Some (True, s\<lparr>sink := out\<rparr>) }
            else Some (False, s)) })"

text \<open>\<open>while (pop_and_process()) ;\<close>\<close>

partial_function (option) process_remaining ::
  "'o process \<Rightarrow> dump_env \<Rightarrow> 'o trace_dump \<Rightarrow> 'o trace_dump option" where
  "process_remaining proc env s = do {
     (found, s') \<leftarrow> pop_and_process proc env s;
     if found then process_remaining proc env s' else Some s' }"

declare process_remaining.simps [code]

text \<open>One round of \<open>thread_func\<close>: the loop ends when the flag is set, otherwise a message is
  taken out (the sleep after an empty round is not visible).\<close>

definition thread_round :: "'o process \<Rightarrow> dump_env \<Rightarrow> 'o trace_dump \<Rightarrow> 'o trace_dump option" where
  "thread_round proc env s =
     (if \<not> thread_alive s then Some s
      else if shutdown_flag s then Some (s\<lparr>thread_alive := False\<rparr>)
      else do { (found, s') \<leftarrow> pop_and_process proc env s; Some s' })"

definition start :: "'o trace_dump \<Rightarrow> 'o trace_dump" where
  "start s = (if \<not> thread_running s then s\<lparr>thread_alive := True, thread_running := True\<rparr> else s)"

text \<open>\<open>mint_thread_join\<close> returns when the thread has left its loop: the round it is in is
  over and the next one sees the flag.\<close>

definition shutdown_thread :: "'o process \<Rightarrow> dump_env \<Rightarrow> 'o trace_dump \<Rightarrow> 'o trace_dump option" where
  "shutdown_thread proc env s =
     (if thread_running s then do {
        s' \<leftarrow> thread_round proc env (s\<lparr>shutdown_flag := True\<rparr>);
        (if thread_alive s' then None else Some (s'\<lparr>thread_running := False\<rparr>)) }
      else Some s)"

definition stop :: "'o process \<Rightarrow> dump_env \<Rightarrow> 'o trace_dump \<Rightarrow> 'o trace_dump option" where
  "stop proc env s = do { s' \<leftarrow> shutdown_thread proc env s; process_remaining proc env s' }"

text \<open>\<open>TraceDump::process\<close>: \<open>printf("%s\n", ...)\<close>; the sink is what was printed.\<close>

definition base_process :: "string process" where
  "base_process out m = do { t \<leftarrow> get_buffer m; Some (out @ t @ [CHR 0x0A]) }"

section \<open>FileTraceDump\<close>

record file_sink =
  handle :: bool
  close_handle :: bool
  written :: string

text \<open>\<open>process\<close> writes to a handle that is not NULL; on Windows only the text.\<close>

definition file_line :: "trace_message \<Rightarrow> string option" where
  "file_line m = do {
     t \<leftarrow> get_buffer m;
     Some (iso_time (tm_timestamp m) @ ''Z'' @ [CHR 0x09] @ t @ [CHR 0x0A]) }"

definition file_process :: "file_sink process" where
  "file_process f m =
     (if handle f then do { l \<leftarrow> file_line m; Some (f\<lparr>written := written f @ l\<rparr>) } else None)"

definition file_process_msvc :: "file_sink process" where
  "file_process_msvc f m =
     (if handle f then do { t \<leftarrow> get_buffer m; Some (f\<lparr>written := written f @ t @ [CHR 0x0A]\<rparr>) }
      else None)"

definition file_stop :: "dump_env \<Rightarrow> file_sink trace_dump \<Rightarrow> file_sink trace_dump option" where
  "file_stop env s = do {
     s' \<leftarrow> shutdown_thread file_process env s;
     (if close_handle (sink s') \<and> handle (sink s')
      then do { s'' \<leftarrow> process_remaining file_process env s';
                Some (s''\<lparr>sink := (sink s'')\<lparr>handle := False\<rparr>\<rparr>) }
      else Some s') }"

section \<open>Sinks\<close>

text \<open>What the base class relies on in a derived class: \<open>process\<close> accepts every well-formed
  message while the sink is ready, and its effect is a function of what a reader sees.\<close>

definition overflow_view :: "dump_env \<Rightarrow> u64 \<Rightarrow> msg_view" where
  "overflow_view env n = (overflow_text (env_pid env) n, 4,
     word_of_int (now_sec env * 1000 + now_usec env div 1000))"

text \<open>The line about lost messages that the next round writes, where there is one.\<close>

definition lost_lines :: "dump_env \<Rightarrow> ring \<Rightarrow> msg_view list" where
  "lost_lines env rb =
     (if resettable_overflow_counter rb = 0 then []
      else [overflow_view env (resettable_overflow_counter rb)])"

definition overflow_fits :: "dump_env \<Rightarrow> nat \<Rightarrow> bool" where
  "overflow_fits env c \<longleftrightarrow> (\<forall>n. length (overflow_text (env_pid env) n) < c)"

text \<open>The dump between two rounds: \<open>n\<close> messages wait, the head is \<open>d\<close> slots too far.\<close>

definition dump_at :: "nat \<Rightarrow> nat \<Rightarrow> nat \<Rightarrow> 'o trace_dump \<Rightarrow> bool" where
  "dump_at c n d s \<longleftrightarrow> ring_at (ring_buffer s) n d \<and> trace_message_capacity (ring_buffer s) = c \<and>
     tm_ok (message_buffer s) \<and> tm_capacity (message_buffer s) = int c"

definition same_flags :: "'o trace_dump \<Rightarrow> 'o trace_dump \<Rightarrow> bool" where
  "same_flags s s' \<longleftrightarrow> shutdown_flag s' = shutdown_flag s \<and> thread_running s' = thread_running s \<and>
     thread_alive s' = thread_alive s"

lemma same_flags_trans: "same_flags s t \<Longrightarrow> same_flags t u \<Longrightarrow> same_flags s u"
  by (simp add: same_flags_def)

lemma overflow_text_no_NUL [no_NUL]: "NUL \<notin> set (overflow_text pid n)"
  by (simp add: overflow_text_def no_NUL)

lemma overflow_text_length:
  assumes "is_c_int pid"
  shows "length (overflow_text pid n) \<le> 66"
proof -
  have "nat \<bar>pid\<bar> < 10 ^ Suc 9" using assms by (auto simp: is_c_int_def)
  then have "length (fmt_d pid) \<le> 11" using fmt_d_length [of pid 9] by simp
  moreover have "length (fmt_d (sint n)) \<le> 20"
  proof -
    have "- (2 ^ 63) \<le> sint n" "sint n < 2 ^ 63" using sint_greater_eq [of n] sint_lt [of n] by simp_all
    then have "nat \<bar>sint n\<bar> < 10 ^ Suc 18" by auto
    then show ?thesis using fmt_d_length [of "sint n" 18] by simp
  qed
  ultimately show ?thesis by (simp add: overflow_text_def)
qed

lemma ring_at_reset [simp]: "ring_at (rb\<lparr>resettable_overflow_counter := a\<rparr>) n d = ring_at rb n d"
  by (simp add: ring_at_def ring_ok_def)

lemma waiting_reset [simp]: "waiting (rb\<lparr>resettable_overflow_counter := a\<rparr>) = waiting rb"
  by (simp add: waiting_def)

text \<open>The overflow message is written into the recycled buffer, so it is exactly its text.\<close>

lemma overflow_message:
  assumes "tm_ok m" "int (length (overflow_text pid n)) < tm_capacity m"
  obtains m1 m2 where "recycle m = Some m1"
    "tm_printf (overflow_text pid n) (set_severity 4 (set_timestamp sec usec m1)) = Some (True, m2)"
    "tm_ok m2" "tm_capacity m2 = tm_capacity m"
    "msg_view m2 = (overflow_text pid n, 4, word_of_int (sec * 1000 + usec div 1000))"
proof -
  obtain m1 where m1: "recycle m = Some m1" "tm_fresh m1" "tm_capacity m1 = tm_capacity m"
    using tm_ok_alloc [OF assms(1)] by (rule recycle_fresh)
  let ?m = "set_severity 4 (set_timestamp sec usec m1)"
  let ?t = "overflow_text pid n"
  have m: "tm_ok ?m" "tm_text ?m = []" "avail_size ?m = tm_capacity m"
    using m1 by (auto simp: tm_fresh_def set_severity_def set_timestamp_def tm_text_def avail_size_def)
  have "0 \<le> avail_size ?m" "tm_capacity m < INT_MAX" using m assms(1) by (auto elim: tm_okE)
  then obtain m2 where m2: "tm_printf ?t ?m = Some (True, m2)" "tm_ok m2"
    "tm_capacity m2 = tm_capacity ?m" "tm_severity m2 = tm_severity ?m"
    "tm_timestamp m2 = tm_timestamp ?m" "tm_text m2 = ?t" "tm_closed m2"
    using vnprintf_spec [OF m(1), of "avail_size ?m" ?t] overflow_text_no_NUL assms(2) m(2,3)
    by (auto simp: tm_printf_def)
  have "get_buffer m2 = Some ?t" using get_buffer_text [OF m2(2,7)] m2(6) overflow_text_no_NUL by simp
  then have "msg_view m2 = (?t, 4, word_of_int (sec * 1000 + usec div 1000))"
    using m2(4,5) by (simp add: msg_view_def set_severity_def set_timestamp_def)
  moreover have "tm_capacity m2 = tm_capacity m"
    using m2(3) m1(3) by (simp add: set_severity_def set_timestamp_def)
  ultimately show thesis using that m1(1) m2(1,2) by blast
qed

locale message_sink =
  fixes cap :: nat
    and proc :: "'o process"
    and ready :: "'o \<Rightarrow> bool"
    and emit :: "'o \<Rightarrow> msg_view \<Rightarrow> 'o"
    and takes :: "msg_view \<Rightarrow> bool"
  assumes accepts: "ready out \<Longrightarrow> tm_ok m \<Longrightarrow> tm_capacity m = int cap \<Longrightarrow> takes (msg_view m) \<Longrightarrow>
      proc out m = Some (emit out (msg_view m))"
    and takes_overflow: "takes (overflow_view env n)"
    and stays_ready: "ready out \<Longrightarrow> ready (emit out v)"
begin

lemma report_overflow:
  assumes "dump_at cap n d s" "ready (sink s)" "overflow_fits env cap"
  defines "s1 \<equiv> s\<lparr>ring_buffer := (ring_buffer s)\<lparr>resettable_overflow_counter := 0\<rparr>\<rparr>"
  obtains s' where
    "(if resettable_overflow_counter (ring_buffer s) > 0
      then process_overflow proc env (resettable_overflow_counter (ring_buffer s)) s1 else Some s1) = Some s'"
    "dump_at cap n d s'" "ready (sink s')" "same_flags s s'" "ring_buffer s' = ring_buffer s1"
    "sink s' = foldl emit (sink s) (lost_lines env (ring_buffer s))"
proof (cases "resettable_overflow_counter (ring_buffer s) = 0")
  case True
  with assms show ?thesis
    by (intro that [of s1]) (simp_all add: lost_lines_def dump_at_def same_flags_def)
next
  case False
  let ?n = "resettable_overflow_counter (ring_buffer s)"
  from assms(1,3) have "tm_ok (message_buffer s)"
    "int (length (overflow_text (env_pid env) ?n)) < tm_capacity (message_buffer s)"
    by (simp_all add: dump_at_def overflow_fits_def)
  then obtain m1 m2 where m: "recycle (message_buffer s) = Some m1"
    "tm_printf (overflow_text (env_pid env) ?n) (set_severity 4 (set_timestamp (now_sec env) (now_usec env) m1)) =
       Some (True, m2)"
    "tm_ok m2" "tm_capacity m2 = tm_capacity (message_buffer s)"
    "msg_view m2 = overflow_view env ?n"
    unfolding overflow_view_def by (rule overflow_message)
  let ?s' = "s1\<lparr>message_buffer := m2, sink := emit (sink s) (overflow_view env ?n)\<rparr>"
  have "process_overflow proc env ?n s1 = Some ?s'"
    using m accepts [OF assms(2) m(3)] takes_overflow [of env ?n] assms(1) by (simp add: process_overflow_def s1_def dump_at_def)
  moreover have "lost_lines env (ring_buffer s) = [overflow_view env ?n]" "0 < ?n"
    using False by (simp_all add: lost_lines_def word_neq_0_conv)
  ultimately show ?thesis using m(3,4) assms
    by (intro that [of ?s']) (simp_all add: dump_at_def same_flags_def stays_ready)
qed

lemma round_some:
  assumes "dump_at cap (Suc n) d s" "ready (sink s)" "overflow_fits env cap"
    and tk: "list_all takes (waiting (ring_buffer s))"
  obtains s' v where "pop_and_process proc env s = Some (True, s')" "dump_at cap n d s'" "ready (sink s')"
    "same_flags s s'" "waiting (ring_buffer s) = v # waiting (ring_buffer s')"
    "resettable_overflow_counter (ring_buffer s') = 0"
    "sink s' = foldl emit (sink s) (lost_lines env (ring_buffer s) @ [v])"
    "capacity (ring_buffer s') = capacity (ring_buffer s)"
proof -
  obtain s1 where s1: "(if resettable_overflow_counter (ring_buffer s) > 0
      then process_overflow proc env (resettable_overflow_counter (ring_buffer s))
             (s\<lparr>ring_buffer := (ring_buffer s)\<lparr>resettable_overflow_counter := 0\<rparr>\<rparr>)
      else Some (s\<lparr>ring_buffer := (ring_buffer s)\<lparr>resettable_overflow_counter := 0\<rparr>\<rparr>)) = Some s1"
    "dump_at cap (Suc n) d s1" "ready (sink s1)" "same_flags s s1"
    "ring_buffer s1 = (ring_buffer s)\<lparr>resettable_overflow_counter := 0\<rparr>"
    "sink s1 = foldl emit (sink s) (lost_lines env (ring_buffer s))"
    using report_overflow [OF assms(1-3)] by auto
  from s1(2) have at: "ring_at (ring_buffer s1) (Suc n) d" "tm_ok (message_buffer s1)"
    by (simp_all add: dump_at_def)
  obtain rb m where p: "pop [] (env_chars env) (message_buffer s1) (ring_buffer s1) = Some (True, m, rb)"
    "ring_at rb n d" "tm_ok m" "waiting (ring_buffer s1) = msg_view m # waiting rb"
    "capacity rb = capacity (ring_buffer s1)"
    "tm_capacity m = int (trace_message_capacity (ring_buffer s1))"
    "trace_message_capacity rb = trace_message_capacity (ring_buffer s1)"
    "resettable_overflow_counter rb = resettable_overflow_counter (ring_buffer s1)"
    using at by (rule pop_at)
  have "takes (msg_view m)" using tk p(4) s1(5) by simp
  note accept = accepts [OF s1(3) p(3) _ this]
  let ?s' = "s1\<lparr>message_buffer := m, ring_buffer := rb, sink := emit (sink s1) (msg_view m)\<rparr>"
  have "pop_and_process proc env s = Some (True, ?s')"
    using s1(1,2) p(1,6) accept
    by (simp add: dump_at_def pop_and_process_def get_and_reset_overflow_counter_def Let_def)
  moreover have "dump_at cap n d ?s'" using p s1(2) by (simp add: dump_at_def)
  ultimately show thesis using p s1 stays_ready
    by (intro that [of ?s' "msg_view m"]) (simp_all add: same_flags_def)
qed

lemma round_none:
  assumes "dump_at cap 0 d s" "ready (sink s)" "overflow_fits env cap"
  obtains s' where "pop_and_process proc env s = Some (False, s')" "dump_at cap 0 d s'" "ready (sink s')"
    "same_flags s s'" "ring_buffer s' = (ring_buffer s)\<lparr>resettable_overflow_counter := 0\<rparr>"
    "sink s' = foldl emit (sink s) (lost_lines env (ring_buffer s))"
proof -
  obtain s1 where s1: "(if resettable_overflow_counter (ring_buffer s) > 0
      then process_overflow proc env (resettable_overflow_counter (ring_buffer s))
             (s\<lparr>ring_buffer := (ring_buffer s)\<lparr>resettable_overflow_counter := 0\<rparr>\<rparr>)
      else Some (s\<lparr>ring_buffer := (ring_buffer s)\<lparr>resettable_overflow_counter := 0\<rparr>\<rparr>)) = Some s1"
    "dump_at cap 0 d s1" "ready (sink s1)" "same_flags s s1"
    "ring_buffer s1 = (ring_buffer s)\<lparr>resettable_overflow_counter := 0\<rparr>"
    "sink s1 = foldl emit (sink s) (lost_lines env (ring_buffer s))"
    using report_overflow [OF assms] by auto
  from s1(2) have at: "ring_at (ring_buffer s1) 0 d" by (simp add: dump_at_def)
  then have ok: "ring_ok (ring_buffer s1)" by (simp add: ring_at_def)
  have "has_data (ring_buffer s1) ! nat (tail (ring_buffer s1)) = 0"
    using at slot_at_0 [OF ok] ring_okD(1) [OF ok] by (auto simp: ring_at_def)
  from pop_empty [OF ok this] s1 show thesis
    by (intro that [of s1])
      (simp_all add: pop_and_process_def get_and_reset_overflow_counter_def Let_def)
qed

text \<open>Draining ends, and writes the loss line and every message that waits from the tail on.\<close>

lemma remaining:
  "dump_at cap n d s \<Longrightarrow> ready (sink s) \<Longrightarrow> overflow_fits env cap \<Longrightarrow>
   list_all takes (waiting (ring_buffer s)) \<Longrightarrow>
   \<exists>s'. process_remaining proc env s = Some s' \<and> dump_at cap 0 d s' \<and> ready (sink s') \<and> same_flags s s' \<and>
     waiting (ring_buffer s') = [] \<and>
     resettable_overflow_counter (ring_buffer s') = 0 \<and>
     capacity (ring_buffer s') = capacity (ring_buffer s) \<and>
     sink s' = foldl emit (sink s) (lost_lines env (ring_buffer s) @ waiting (ring_buffer s))"
proof (induction n arbitrary: s)
  case 0
  obtain s' where "pop_and_process proc env s = Some (False, s')" "dump_at cap 0 d s'" "ready (sink s')"
    "same_flags s s'" "ring_buffer s' = (ring_buffer s)\<lparr>resettable_overflow_counter := 0\<rparr>"
    "sink s' = foldl emit (sink s) (lost_lines env (ring_buffer s))"
    using 0(1-3) by (rule round_none)
  moreover have "waiting (ring_buffer s) = []" using 0(1) waiting_at [of "ring_buffer s" 0 d] by (simp add: dump_at_def)
  ultimately show ?case by (simp add: process_remaining.simps)
next
  case (Suc n)
  obtain s1 v where s1: "pop_and_process proc env s = Some (True, s1)" "dump_at cap n d s1" "ready (sink s1)"
    "same_flags s s1" "waiting (ring_buffer s) = v # waiting (ring_buffer s1)"
    "resettable_overflow_counter (ring_buffer s1) = 0"
    "sink s1 = foldl emit (sink s) (lost_lines env (ring_buffer s) @ [v])"
    "capacity (ring_buffer s1) = capacity (ring_buffer s)"
    using Suc.prems by (rule round_some)
  have "list_all takes (waiting (ring_buffer s1))" using s1(5) Suc.prems(4) by simp
  from Suc.IH [OF s1(2,3) Suc.prems(3) this] s1 show ?case
    by (auto simp: process_remaining.simps [of proc env s] lost_lines_def dest: same_flags_trans)
qed

end

section \<open>The life of a dump\<close>

text \<open>What happens to a dump, in the order it happens: the program starts it, logs, the thread
  makes rounds, the program stops it.\<close>

datatype dump_event = Start | Log entry | Round | Stop

fun run_dump ::
  "('o trace_dump \<Rightarrow> 'o trace_dump option) \<Rightarrow> 'o process \<Rightarrow> dump_env \<Rightarrow> dump_event list \<Rightarrow>
   'o trace_dump \<Rightarrow> 'o trace_dump option" where
  "run_dump stp proc env [] s = Some s"
| "run_dump stp proc env (Start # es) s = run_dump stp proc env es (start s)"
| "run_dump stp proc env (Log (tv_sec, tv_usec, severity, txt) # es) s = do {
     rb \<leftarrow> py_write [] tv_sec tv_usec severity txt (ring_buffer s);
     run_dump stp proc env es (s\<lparr>ring_buffer := rb\<rparr>) }"
| "run_dump stp proc env (Round # es) s = do {
     s' \<leftarrow> thread_round proc env s; run_dump stp proc env es s' }"
| "run_dump stp proc env (Stop # es) s = do { s' \<leftarrow> stp s; run_dump stp proc env es s' }"

lemma run_dump_Nil [simp]: "run_dump stp proc env [] = Some"
  by (rule ext) simp

lemma run_dump_append:
  "run_dump stp proc env (es @ fs) s = do { s' \<leftarrow> run_dump stp proc env es s; run_dump stp proc env fs s' }"
  by (induction stp proc env es s rule: run_dump.induct) (auto split: Option.bind_split)

fun logs :: "dump_event list \<Rightarrow> entry list" where
  "logs [] = []"
| "logs (Log e # es) = e # logs es"
| "logs (_ # es) = logs es"

text \<open>No message is logged into \<open>n\<close> that wait, given whether the thread runs; no stop.\<close>

fun dump_fits :: "nat \<Rightarrow> bool \<Rightarrow> nat \<Rightarrow> dump_event list \<Rightarrow> bool" where
  "dump_fits n alive w [] \<longleftrightarrow> True"
| "dump_fits n alive w (Start # es) \<longleftrightarrow> dump_fits n True w es"
| "dump_fits n alive w (Log e # es) \<longleftrightarrow> entry_ok e \<and> w < n \<and> dump_fits n alive (w + 1) es"
| "dump_fits n alive w (Round # es) \<longleftrightarrow> dump_fits n alive (if alive then w - 1 else w) es"
| "dump_fits n alive w (Stop # es) \<longleftrightarrow> False"

text \<open>Everything logged has been written, in order, or waits.\<close>

definition dump_inv ::
  "('o \<Rightarrow> bool) \<Rightarrow> ('o \<Rightarrow> msg_view \<Rightarrow> 'o) \<Rightarrow> nat \<Rightarrow> 'o \<Rightarrow> entry list \<Rightarrow> bool \<Rightarrow> 'o trace_dump \<Rightarrow> bool" where
  "dump_inv ready emit c out0 logged alive s \<longleftrightarrow>
     dump_at c (length (waiting (ring_buffer s))) 0 s \<and> ready (sink s) \<and> \<not> shutdown_flag s \<and>
     thread_running s = alive \<and> thread_alive s = alive \<and>
     resettable_overflow_counter (ring_buffer s) = 0 \<and>
     (\<exists>out. sink s = foldl emit out0 out \<and> out @ waiting (ring_buffer s) = map (entry_view c) logged)"

lemma shutdown_thread_ok:
  "thread_running s = thread_alive s \<Longrightarrow>
   shutdown_thread proc env s = Some (if thread_running s
     then s\<lparr>shutdown_flag := True, thread_alive := False, thread_running := False\<rparr> else s)"
  by (simp add: shutdown_thread_def thread_round_def)

lemma trace_dump_new_at:
  assumes "ring_at rb 0 0" "resettable_overflow_counter rb = 0"
  obtains s where "trace_dump_new env rb out0 = Some s" "ring_buffer s = rb" "sink s = out0"
    "dump_at (trace_message_capacity rb) 0 0 s" "\<not> shutdown_flag s" "\<not> thread_running s" "\<not> thread_alive s"
    "waiting rb = []"
proof -
  from assms(1) have ok: "ring_ok rb" by (simp add: ring_at_def)
  note C = ring_okD(8,9) [OF ok]
  then have "int_of_size (trace_message_capacity rb) = int (trace_message_capacity rb)" by simp
  moreover obtain m where "trace_message_new (env_chars env) (int (trace_message_capacity rb)) = Some m"
    "tm_fresh m" "tm_capacity m = int (trace_message_capacity rb)"
    by (rule trace_message_new_fresh [of "int (trace_message_capacity rb)" "env_chars env"]) (use C in simp_all)
  ultimately show thesis using assms(1) waiting_at [OF assms(1)]
    by (intro that [of "\<lparr>message_buffer = m, shutdown_flag = False, ring_buffer = rb,
        thread_running = False, thread_alive = False, sink = out0\<rparr>"])
      (simp_all add: trace_dump_new_def dump_at_def tm_fresh_ok)
qed

context message_sink
begin

lemma log_keeps:
  assumes "dump_inv ready emit cap out0 logged alive s" "entry_ok (a, b, v, t)"
    and "length (waiting (ring_buffer s)) < capacity (ring_buffer s)"
  obtains rb where "py_write [] a b v t (ring_buffer s) = Some rb" "capacity rb = capacity (ring_buffer s)"
    "length (waiting rb) = length (waiting (ring_buffer s)) + 1"
    "dump_inv ready emit cap out0 (logged @ [(a, b, v, t)]) alive (s\<lparr>ring_buffer := rb\<rparr>)"
proof -
  note inv = assms(1)[unfolded dump_inv_def]
  then have at: "dump_at cap (length (waiting (ring_buffer s))) 0 s" by blast
  with assms(2,3) have "ring_at (ring_buffer s) (length (waiting (ring_buffer s))) 0"
    "length (waiting (ring_buffer s)) < capacity (ring_buffer s)" "NUL \<notin> set t"
    by (simp_all add: dump_at_def entry_ok_def)
  then obtain rb where rb: "py_write [] a b v t (ring_buffer s) = Some rb"
    "ring_at rb (length (waiting (ring_buffer s)) + 1) 0" "capacity rb = capacity (ring_buffer s)"
    "trace_message_capacity rb = trace_message_capacity (ring_buffer s)"
    "waiting rb = waiting (ring_buffer s) @ [entry_view (trace_message_capacity (ring_buffer s)) (a, b, v, t)]"
    "resettable_overflow_counter rb = resettable_overflow_counter (ring_buffer s)"
    by (rule py_write_at)
  have "dump_inv ready emit cap out0 (logged @ [(a, b, v, t)]) alive (s\<lparr>ring_buffer := rb\<rparr>)"
    using inv rb at by (auto simp: dump_inv_def dump_at_def simp flip: append_assoc)
  with rb(1,3,5) show thesis by (intro that) simp_all
qed

lemma waiting_taken:
  assumes "dump_inv ready emit cap out0 logged alive s" "list_all (\<lambda>e. takes (entry_view cap e)) logged"
  shows "list_all takes (waiting (ring_buffer s))"
proof -
  obtain out where "out @ waiting (ring_buffer s) = map (entry_view cap) logged"
    using assms(1) by (auto simp: dump_inv_def)
  then have "list_all takes (out @ waiting (ring_buffer s))"
    using assms(2) by (simp add: list.pred_map comp_def)
  then show ?thesis by simp
qed

lemma round_keeps:
  assumes "dump_inv ready emit cap out0 logged alive s" "overflow_fits env cap"
    and "list_all (\<lambda>e. takes (entry_view cap e)) logged"
  obtains s' where "thread_round proc env s = Some s'" "dump_inv ready emit cap out0 logged alive s'"
    "capacity (ring_buffer s') = capacity (ring_buffer s)"
    "length (waiting (ring_buffer s')) = (if alive then length (waiting (ring_buffer s)) - 1 else length (waiting (ring_buffer s)))"
proof -
  note inv = assms(1)[unfolded dump_inv_def]
  then have at: "dump_at cap (length (waiting (ring_buffer s))) 0 s" and ready: "ready (sink s)" by blast+
  consider (dead) "\<not> alive" | (empty) "alive" "waiting (ring_buffer s) = []"
    | (some) n where "alive" "length (waiting (ring_buffer s)) = Suc n"
    by (cases "waiting (ring_buffer s)") auto
  then show thesis
  proof cases
    case dead
    with inv assms(1) show thesis by (intro that [of s]) (simp_all add: thread_round_def)
  next
    case empty
    with at have "dump_at cap 0 0 s" by simp
    then obtain s' where s': "pop_and_process proc env s = Some (False, s')" "dump_at cap 0 0 s'"
      "ready (sink s')" "same_flags s s'"
      "ring_buffer s' = (ring_buffer s)\<lparr>resettable_overflow_counter := 0\<rparr>"
      "sink s' = foldl emit (sink s) (lost_lines env (ring_buffer s))"
      using ready assms(2) by (rule round_none)
    have "sink s' = sink s" using s'(6) inv by (simp add: lost_lines_def)
    then have "dump_inv ready emit cap out0 logged alive s'"
      using s'(2,4,5) inv empty(2) unfolding dump_inv_def same_flags_def by - (elim conjE, simp)
    with empty s'(1,5) inv show thesis by (intro that [of s']) (simp_all add: thread_round_def)
  next
    case (some n)
    with at have "dump_at cap (Suc n) 0 s" by simp
    then obtain s' v where s': "pop_and_process proc env s = Some (True, s')" "dump_at cap n 0 s'"
      "ready (sink s')" "same_flags s s'" "waiting (ring_buffer s) = v # waiting (ring_buffer s')"
      "resettable_overflow_counter (ring_buffer s') = 0"
      "sink s' = foldl emit (sink s) (lost_lines env (ring_buffer s) @ [v])"
      "capacity (ring_buffer s') = capacity (ring_buffer s)"
      using ready assms(2) waiting_taken [OF assms(1,3)] by (rule round_some)
    have n: "n = length (waiting (ring_buffer s'))" using s'(5) some(2) by simp
    obtain out where out: "sink s = foldl emit out0 out"
      "out @ waiting (ring_buffer s) = map (entry_view cap) logged" using inv by blast
    have "sink s' = foldl emit out0 (out @ [v])" using s'(7) out(1) inv by (simp add: lost_lines_def)
    moreover have "(out @ [v]) @ waiting (ring_buffer s') = map (entry_view cap) logged" using out(2) s'(5) by simp
    ultimately have "dump_inv ready emit cap out0 logged alive s'"
      using s' inv n unfolding dump_inv_def same_flags_def by blast
    with some s'(1,5,8) inv show thesis by (intro that [of s']) (simp_all add: thread_round_def)
  qed
qed

lemma run_events:
  "dump_inv ready emit cap out0 logged alive s \<Longrightarrow> overflow_fits env cap \<Longrightarrow>
   dump_fits (capacity (ring_buffer s)) alive (length (waiting (ring_buffer s))) es \<Longrightarrow>
   list_all (\<lambda>e. takes (entry_view cap e)) (logged @ logs es) \<Longrightarrow>
   \<exists>s' alive'. run_dump stp proc env es s = Some s' \<and>
     dump_inv ready emit cap out0 (logged @ logs es) alive' s' \<and>
     capacity (ring_buffer s') = capacity (ring_buffer s) \<and>
     (thread_running s' \<longleftrightarrow> alive \<or> Start \<in> set es)"
proof (induction es arbitrary: s logged alive)
  case Nil
  then show ?case by (auto simp: dump_inv_def)
next
  case (Cons e es)
  show ?case
  proof (cases e)
    case Start
    have "dump_inv ready emit cap out0 logged True (start s)"
      using Cons.prems(1) by (auto simp: dump_inv_def start_def dump_at_def)
    moreover have rb: "ring_buffer (start s) = ring_buffer s" by (simp add: start_def)
    ultimately show ?thesis
      using Cons.IH [of logged True "start s"] Cons.prems(2-4) Start by (simp add: rb)
  next
    case (Log x)
    obtain a b v t where x: "x = (a, b, v, t)" by (cases x)
    have "entry_ok (a, b, v, t)" "length (waiting (ring_buffer s)) < capacity (ring_buffer s)"
      using Cons.prems(3) Log x by simp_all
    with Cons.prems(1) obtain rb where rb: "py_write [] a b v t (ring_buffer s) = Some rb"
      "capacity rb = capacity (ring_buffer s)" "length (waiting rb) = length (waiting (ring_buffer s)) + 1"
      "dump_inv ready emit cap out0 (logged @ [(a, b, v, t)]) alive (s\<lparr>ring_buffer := rb\<rparr>)" by (rule log_keeps)
    from Cons.IH [OF rb(4) Cons.prems(2)] Cons.prems(3,4) Log x rb(1-3) show ?thesis by simp
  next
    case Round
    obtain s' where s': "thread_round proc env s = Some s'" "dump_inv ready emit cap out0 logged alive s'"
      "capacity (ring_buffer s') = capacity (ring_buffer s)"
      "length (waiting (ring_buffer s')) = (if alive then length (waiting (ring_buffer s)) - 1 else length (waiting (ring_buffer s)))"
      using Cons.prems(1,2) _ by (rule round_keeps) (use Cons.prems(4) in simp)
    from Cons.IH [OF s'(2) Cons.prems(2)] Cons.prems(3,4) Round s' show ?thesis by simp
  next
    case Stop
    with Cons.prems(3) show ?thesis by simp
  qed
qed

text \<open>Stopping and draining writes what is left.\<close>

lemma stop_flushes:
  assumes "dump_inv ready emit cap out0 logged alive s" "overflow_fits env cap"
    and "list_all (\<lambda>e. takes (entry_view cap e)) logged"
  obtains s1 s2 where "shutdown_thread proc env s = Some s1" "sink s1 = sink s"
    "process_remaining proc env s1 = Some s2" "waiting (ring_buffer s2) = []"
    "sink s2 = foldl emit out0 (map (entry_view cap) logged)"
proof -
  note inv = assms(1)[unfolded dump_inv_def]
  let ?s1 = "if thread_running s then s\<lparr>shutdown_flag := True, thread_alive := False, thread_running := False\<rparr> else s"
  have sh: "shutdown_thread proc env s = Some ?s1" using inv by (intro shutdown_thread_ok) blast
  have "dump_at cap (length (waiting (ring_buffer ?s1))) 0 ?s1" "ready (sink ?s1)"
    using inv by (auto simp: dump_at_def)
  moreover have "list_all takes (waiting (ring_buffer ?s1))" using waiting_taken [OF assms(1,3)] by simp
  ultimately obtain s2 where
    s2: "process_remaining proc env ?s1 = Some s2" "waiting (ring_buffer s2) = []"
      "sink s2 = foldl emit (sink ?s1) (lost_lines env (ring_buffer ?s1) @ waiting (ring_buffer ?s1))"
    using remaining [OF _ _ assms(2)] by blast
  have "sink s2 = foldl emit out0 (map (entry_view cap) logged)"
    using s2(3) inv by (auto simp: lost_lines_def simp flip: foldl_append)
  with sh s2(1,2) show thesis by (intro that [of ?s1 s2]) auto
qed

lemma run_and_stop:
  assumes "dump_inv ready emit cap out0 [] False s" "overflow_fits env cap"
    and "dump_fits (capacity (ring_buffer s)) False 0 es" "waiting (ring_buffer s) = []"
    and tk: "list_all (\<lambda>e. takes (entry_view cap e)) (logs es)"
  obtains s1 s2 s3 where "run_dump stp proc env es s = Some s1" "shutdown_thread proc env s1 = Some s2"
    "sink s2 = sink s1" "\<exists>out. sink s1 = foldl emit out0 out" "process_remaining proc env s2 = Some s3"
    "waiting (ring_buffer s3) = []" "sink s3 = foldl emit out0 (map (entry_view cap) (logs es))"
proof -
  from run_events [OF assms(1,2), of es stp] assms(3,4) tk obtain s1 alive where
    s1: "run_dump stp proc env es s = Some s1" "dump_inv ready emit cap out0 (logs es) alive s1" by auto
  obtain s2 s3 where "shutdown_thread proc env s1 = Some s2" "sink s2 = sink s1"
    "process_remaining proc env s2 = Some s3" "waiting (ring_buffer s3) = []"
    "sink s3 = foldl emit out0 (map (entry_view cap) (logs es))"
    using s1(2) assms(2) tk by (rule stop_flushes)
  moreover have "\<exists>out. sink s1 = foldl emit out0 out" using s1(2) by (auto simp: dump_inv_def)
  ultimately show thesis using that s1(1) by blast
qed

end

section \<open>The dumps are sinks\<close>

definition file_view_line :: "msg_view \<Rightarrow> string" where
  "file_view_line v = (case v of (t, severity, ts) \<Rightarrow>
     iso_time ts @ ''Z'' @ [CHR 0x09] @ t @ [CHR 0x0A])"

definition file_emit :: "file_sink \<Rightarrow> msg_view \<Rightarrow> file_sink" where
  "file_emit f v = f\<lparr>written := written f @ file_view_line v\<rparr>"

interpretation base_dump: message_sink cap base_process "\<lambda>_. True" "\<lambda>out v. out @ fst v @ [CHR 0x0A]"
    "\<lambda>_. True" for cap
  by unfold_locales (auto simp: base_process_def msg_view_def dest: get_buffer_defined)

interpretation file_dump: message_sink cap file_process handle file_emit "\<lambda>_. True" for cap
  by unfold_locales
    (auto simp: file_process_def file_line_def file_emit_def file_view_line_def msg_view_def
      dest: get_buffer_defined)

interpretation file_dump_msvc: message_sink cap file_process_msvc handle
    "\<lambda>f v. f\<lparr>written := written f @ fst v @ [CHR 0x0A]\<rparr>" "\<lambda>_. True" for cap
  by unfold_locales (auto simp: file_process_msvc_def msg_view_def dest: get_buffer_defined)

lemma list_all_always: "list_all (\<lambda>_. True) xs"
  by (simp add: list_all_iff)

lemmas file_remaining = file_dump.remaining [OF _ _ _ list_all_always]

lemma fold_file_emit:
  "foldl file_emit f vs = f\<lparr>written := written f @ concat (map file_view_line vs)\<rparr>"
  by (induction vs arbitrary: f) (simp_all add: file_emit_def)

lemma overflow_fits_pid: "is_c_int (env_pid env) \<Longrightarrow> 67 \<le> c \<Longrightarrow> overflow_fits env c"
  unfolding overflow_fits_def by (intro allI, rule le_less_trans [OF overflow_text_length]) simp_all

lemma new_dump_inv:
  assumes "k \<le> 30" "0 < c" "int c < INT_MAX" "ring_new g (2 ^ k) c = Some rb" "ready out0"
  obtains s where "trace_dump_new env rb out0 = Some s" "dump_inv ready emit c out0 [] False s"
    "capacity (ring_buffer s) = 2 ^ k" "waiting (ring_buffer s) = []"
proof -
  obtain rb0 where "ring_new g (2 ^ k) c = Some rb0" "ring_at rb0 0 0" "capacity rb0 = 2 ^ k"
    "trace_message_capacity rb0 = c" using assms(1-3) by (rule ring_new_at)
  with assms(4) have at: "ring_at rb 0 0" and rb: "capacity rb = 2 ^ k" "trace_message_capacity rb = c"
    by simp_all
  have r: "resettable_overflow_counter rb = 0" using ring_new_fields [OF assms(4)] by simp
  obtain s where "trace_dump_new env rb out0 = Some s" "ring_buffer s = rb" "sink s = out0"
    "dump_at (trace_message_capacity rb) 0 0 s" "\<not> shutdown_flag s" "\<not> thread_running s" "\<not> thread_alive s"
    "waiting rb = []" using at r by (rule trace_dump_new_at)
  with assms(5) rb r show thesis
    by (intro that [of s]) (auto simp: dump_inv_def intro!: exI [of _ "[]"])
qed

section \<open>Properties\<close>

text \<open>C14: a file dump is complete: on a new ring of up to 2^30 slots whose messages hold at least
  67 characters (so that the line about lost messages fits), whatever the program logs between starting the
  dump and stopping it, interleaved in any way with the rounds of the dump thread, as long as
  no message is logged into a full ring, after \<open>stop\<close> the file holds one line per message, in
  the order they were logged, nothing waits, and the file is closed.\<close>

theorem file_dump_complete:
  assumes "k \<le> 30" "67 \<le> c" "int c < INT_MAX" "is_c_int (env_pid env)"
    and "ring_new g (2 ^ k) c = Some rb" "dump_fits (2 ^ k) False 0 es"
    and "trace_dump_new env rb \<lparr>handle = True, close_handle = True, written = old\<rparr> = Some s"
  shows "\<exists>s'. run_dump (file_stop env) file_process env (es @ [Stop]) s = Some s' \<and>
    written (sink s') = old @ concat (map (\<lambda>e. file_view_line (entry_view c e)) (logs es)) \<and>
    waiting (ring_buffer s') = [] \<and> \<not> handle (sink s')"
proof -
  let ?f = "\<lparr>handle = True, close_handle = True, written = old\<rparr>"
  have "0 < c" using assms(2) by simp
  obtain s0 where s0: "trace_dump_new env rb ?f = Some s0" "dump_inv handle file_emit c ?f [] False s0"
    "capacity (ring_buffer s0) = 2 ^ k" "waiting (ring_buffer s0) = []"
    by (rule new_dump_inv [OF assms(1) \<open>0 < c\<close> assms(3,5), of handle ?f env file_emit]) simp_all
  then have s: "s0 = s" using assms(7) by simp
  have fits: "overflow_fits env c" using assms(4,2) by (rule overflow_fits_pid)
  have ev: "dump_fits (capacity (ring_buffer s)) False 0 es" using s0(3) s assms(6) by simp
  obtain s1 s2 s3 where run: "run_dump (file_stop env) file_process env es s = Some s1"
    "shutdown_thread file_process env s1 = Some s2" "sink s2 = sink s1" "\<exists>out. sink s1 = foldl file_emit ?f out"
    "process_remaining file_process env s2 = Some s3" "waiting (ring_buffer s3) = []"
    "sink s3 = foldl file_emit ?f (map (entry_view c) (logs es))"
    using s0(2)[unfolded s] fits ev s0(4)[unfolded s] by (rule file_dump.run_and_stop) (simp add: list_all_iff)
  have "run_dump (file_stop env) file_process env (es @ [Stop]) s =
      Some (s3\<lparr>sink := (sink s3)\<lparr>handle := False\<rparr>\<rparr>)"
    using run by (auto simp: run_dump_append file_stop_def fold_file_emit)
  with run(6,7) show ?thesis by (simp add: fold_file_emit comp_def)
qed

definition sample_env :: dump_env where
  "sample_env = \<lparr>now_sec = 10, now_usec = 0, env_pid = 42, env_chars = (\<lambda>_. CHR ''?'')\<rparr>"

text \<open>A ring of two slots with room for the loss line.\<close>

lemma sample_ring_80:
  obtains rb where "ring_new (\<lambda>_ _. CHR ''?'') 2 80 = Some rb" "ring_at rb 0 0" "capacity rb = 2"
    "trace_message_capacity rb = 80"
  by (rule ring_new_at [of 1 80 "\<lambda>_ _. CHR ''?''"]) simp_all

theorem file_dump_complete_witness:
  "\<exists>rb s s'. ring_new (\<lambda>_ _. CHR ''?'') 2 80 = Some rb \<and>
     trace_dump_new sample_env rb \<lparr>handle = True, close_handle = True, written = []\<rparr> = Some s \<and>
     run_dump (file_stop sample_env) file_process sample_env
       [Start, Log (0, 0, 7, ''one''), Round, Log (86400, 0, 4, ''two''), Stop] s = Some s' \<and>
     written (sink s') = ''1970-01-01T00:00:00Z'' @ [CHR 0x09] @ ''one'' @ [CHR 0x0A] @
                         ''1970-01-02T00:00:00Z'' @ [CHR 0x09] @ ''two'' @ [CHR 0x0A]"
proof -
  obtain rb where rb: "ring_new (\<lambda>_ _. CHR ''?'') (2 ^ 1) 80 = Some rb" by (rule sample_ring_80) simp
  obtain s where s: "trace_dump_new sample_env rb \<lparr>handle = True, close_handle = True, written = []\<rparr> = Some s"
    by (rule new_dump_inv [of 1 80 "\<lambda>_ _. CHR ''?''" rb "\<lambda>_. True"
        "\<lparr>handle = True, close_handle = True, written = []\<rparr>" sample_env file_emit]) (use rb in simp_all)
  let ?es = "[Start, Log (0, 0, 7, ''one''), Round, Log (86400, 0, 4, ''two'')]"
  have "dump_fits (2 ^ 1) False 0 ?es" by (simp add: entry_ok_def)
  from file_dump_complete [OF _ _ _ _ rb this s] obtain s' where
    "run_dump (file_stop sample_env) file_process sample_env (?es @ [Stop]) s = Some s'"
    "written (sink s') = concat (map (\<lambda>e. file_view_line (entry_view 80 e)) (logs ?es))"
    by (auto simp: sample_env_def is_c_int_def)
  moreover have "file_view_line (entry_view 80 (0, 0, 7, ''one'')) =
      ''1970-01-01T00:00:00Z'' @ [CHR 0x09] @ ''one'' @ [CHR 0x0A]"
    "file_view_line (entry_view 80 (86400, 0, 4, ''two'')) =
      ''1970-01-02T00:00:00Z'' @ [CHR 0x09] @ ''two'' @ [CHR 0x0A]"
    by (simp_all add: file_view_line_def entry_view_def iso_time_examples)
  ultimately show ?thesis using rb s by auto
qed

text \<open>C16: draining ends, also when the program has overrun the ring: \<open>process_remaining\<close> is
  defined, and writes the line about lost messages when the overflow counter is not 0 and then
  every message that waits from the tail on; afterwards nothing waits there and the counter
  is 0.  Messages hold at least 67 characters, so that the line fits.\<close>

theorem file_drain:
  assumes "dump_at c n d s" "handle (sink s)" "is_c_int (env_pid env)" "67 \<le> c"
  shows "\<exists>s'. process_remaining file_process env s = Some s' \<and>
    written (sink s') = written (sink s) @
      concat (map file_view_line (lost_lines env (ring_buffer s) @ waiting (ring_buffer s))) \<and>
    waiting (ring_buffer s') = [] \<and> resettable_overflow_counter (ring_buffer s') = 0"
proof -
  from file_remaining [OF assms(1,2) overflow_fits_pid [OF assms(3,4)]] obtain s' where
    "process_remaining file_process env s = Some s'" "waiting (ring_buffer s') = []"
    "resettable_overflow_counter (ring_buffer s') = 0"
    "sink s' = foldl file_emit (sink s) (lost_lines env (ring_buffer s) @ waiting (ring_buffer s))"
    by blast
  then show ?thesis by (simp add: fold_file_emit)
qed

text \<open>A dump over a full ring of two slots of capacity 80, with three overruns counted.\<close>

definition message_80 :: trace_message where
  "message_80 = \<lparr>tm_capacity = 80, tm_buffer = Heap (''ab'' @ replicate 79 NUL),
     write_index = 2, limit_index = 80, tm_severity = 7, tm_timestamp = 1000\<rparr>"

definition sample_dump :: "'o \<Rightarrow> 'o trace_dump" where
  "sample_dump out = \<lparr>message_buffer = message_80, shutdown_flag = False,
     ring_buffer = \<lparr>capacity = 2, trace_message_capacity = 80, elements = [message_80, message_80],
       busy = [0, 0], has_data = [1, 1], head = 2, tail = 0, overflow_counter = 3,
       resettable_overflow_counter = 3, spinlock_consumer_wait_counter = 0,
       spinlock_producer_wait_counter = 0\<rparr>,
     thread_running = False, thread_alive = False, sink = out\<rparr>"

lemma message_80: "tm_ok message_80" "msg_view message_80 = (''ab'', 7, 1000)"
  by (simp_all add: message_80_def tm_ok_def tm_alloc_def tm_bytes_def nth_append msg_view_def
      get_buffer_def c_str_def numeral_nat)

lemma sample_dump_at: "dump_at 80 2 0 (sample_dump out)"
  "waiting (ring_buffer (sample_dump out)) = [(''ab'', 7, 1000), (''ab'', 7, 1000)]"
proof -
  let ?rb = "ring_buffer (sample_dump out)"
  have "\<exists>k \<le> (30 :: nat). (2 :: nat) = 2 ^ k" by (rule exI [of _ 1]) simp
  then have "ring_ok ?rb"
    using message_80(1) by (simp add: ring_ok_def sample_dump_def) (simp add: message_80_def is_flag_def)
  then have at: "ring_at ?rb 2 0"
    by (simp add: ring_at_def) (simp add: sample_dump_def slot_at_def ball_less_2)
  then show "dump_at 80 2 0 (sample_dump out)"
    using message_80(1) by (simp add: dump_at_def) (simp add: sample_dump_def message_80_def)
  from waiting_at [OF at] show "waiting ?rb = [(''ab'', 7, 1000), (''ab'', 7, 1000)]"
    by (simp add: sample_dump_def slot_at_def message_80(2) numeral_2_eq_2)
qed

theorem file_drain_witness:
  "\<exists>s'. process_remaining file_process sample_env
      (sample_dump \<lparr>handle = True, close_handle = True, written = []\<rparr>) = Some s' \<and>
    written (sink s') =
      ''1970-01-01T00:00:10Z'' @ [CHR 0x09] @ ''pid 42 lost 3 messages due to overflow'' @ [CHR 0x0A] @
      ''1970-01-01T00:00:01Z'' @ [CHR 0x09] @ ''ab'' @ [CHR 0x0A] @
      ''1970-01-01T00:00:01Z'' @ [CHR 0x09] @ ''ab'' @ [CHR 0x0A]"
proof -
  let ?s = "sample_dump \<lparr>handle = True, close_handle = True, written = []\<rparr>"
  have w: "waiting (ring_buffer ?s) = [(''ab'', 7, 1000), (''ab'', 7, 1000)]" by (rule sample_dump_at)
  have l: "lost_lines sample_env (ring_buffer ?s) =
      [(''pid 42 lost 3 messages due to overflow'', 4, 10000)]"
  proof -
    have "overflow_text 42 3 = ''pid 42 lost 3 messages due to overflow''" by code_simp
    then show ?thesis by (simp add: lost_lines_def overflow_view_def sample_dump_def sample_env_def)
  qed
  have v: "file_view_line (''pid 42 lost 3 messages due to overflow'', 4, 10000) =
      ''1970-01-01T00:00:10Z'' @ [CHR 0x09] @ ''pid 42 lost 3 messages due to overflow'' @ [CHR 0x0A]"
    "file_view_line (''ab'', 7, 1000) = ''1970-01-01T00:00:01Z'' @ [CHR 0x09] @ ''ab'' @ [CHR 0x0A]"
    by (simp_all add: file_view_line_def iso_time_examples)
  have "handle (sink ?s)" "written (sink ?s) = []" "is_c_int (env_pid sample_env)"
    by (simp_all add: sample_dump_def sample_env_def is_c_int_def)
  with file_drain [OF sample_dump_at(1) this(1,3)] w l v show ?thesis by auto
qed

text \<open>A dump on a handle that is not its own (standard output or error) is stopped without
  draining: the thread ends and the messages that still wait are neither written nor taken
  out.\<close>

lemma file_stop_leaves_messages:
  assumes "\<not> close_handle (sink s)" "thread_running s = thread_alive s"
  shows "\<exists>s'. file_stop env s = Some s' \<and> written (sink s') = written (sink s) \<and>
    ring_buffer s' = ring_buffer s \<and> \<not> thread_alive s'"
  using assms by (simp add: file_stop_def shutdown_thread_ok)

lemma file_stop_leaves_messages_example:
  "\<exists>s'. file_stop sample_env (sample_dump \<lparr>handle = True, close_handle = False, written = []\<rparr>) = Some s' \<and>
     written (sink s') = [] \<and> length (waiting (ring_buffer s')) = 2"
  using file_stop_leaves_messages
      [of "sample_dump \<lparr>handle = True, close_handle = False, written = []\<rparr>" sample_env]
    sample_dump_at(2) [of "\<lparr>handle = True, close_handle = False, written = []\<rparr>"]
  by (auto simp: sample_dump_def)

text \<open>With the shutdown flag set a dump writes nothing whatever happens short of a stop: what is
  logged waits behind what waited before.\<close>

lemma flagged_log:
  assumes "ring_at (ring_buffer s) (length (waiting (ring_buffer s))) 0"
    and "trace_message_capacity (ring_buffer s) = c" "entry_ok e"
    and "length (waiting (ring_buffer s)) < capacity (ring_buffer s)"
  obtains rb where "run_dump stp proc env (Log e # es) s = run_dump stp proc env es (s\<lparr>ring_buffer := rb\<rparr>)"
    "ring_at rb (length (waiting rb)) 0" "trace_message_capacity rb = c" "capacity rb = capacity (ring_buffer s)"
    "waiting rb = waiting (ring_buffer s) @ [entry_view c e]"
proof -
  obtain a b v t where e: "e = (a, b, v, t)" by (cases e)
  then have "NUL \<notin> set t" using assms(3) by (simp add: entry_ok_def)
  with assms(1,4) obtain rb where rb: "py_write [] a b v t (ring_buffer s) = Some rb"
    "ring_at rb (length (waiting (ring_buffer s)) + 1) 0" "capacity rb = capacity (ring_buffer s)"
    "trace_message_capacity rb = trace_message_capacity (ring_buffer s)"
    "waiting rb = waiting (ring_buffer s) @ [entry_view (trace_message_capacity (ring_buffer s)) (a, b, v, t)]"
    by (rule py_write_at)
  with assms(2) e show thesis by (intro that [of rb]) simp_all
qed

lemma flagged_run:
  "shutdown_flag s \<Longrightarrow> ring_at (ring_buffer s) (length (waiting (ring_buffer s))) 0 \<Longrightarrow>
   trace_message_capacity (ring_buffer s) = c \<Longrightarrow> list_all entry_ok (logs es) \<Longrightarrow> Stop \<notin> set es \<Longrightarrow>
   length (waiting (ring_buffer s)) + length (logs es) \<le> capacity (ring_buffer s) \<Longrightarrow>
   \<exists>s'. run_dump stp proc env es s = Some s' \<and> sink s' = sink s \<and>
     waiting (ring_buffer s') = waiting (ring_buffer s) @ map (entry_view c) (logs es) \<and>
     (thread_running s' \<longleftrightarrow> thread_running s \<or> Start \<in> set es)"
proof (induction es arbitrary: s)
  case (Cons e es)
  show ?case
  proof (cases e)
    case Start
    from Cons.IH [of "start s"] Cons.prems Start show ?thesis by (auto simp: start_def)
  next
    case (Log x)
    have "entry_ok x" "length (waiting (ring_buffer s)) < capacity (ring_buffer s)"
      using Cons.prems(4,6) Log by simp_all
    with Cons.prems(2,3) obtain rb where
      "run_dump stp proc env (Log x # es) s = run_dump stp proc env es (s\<lparr>ring_buffer := rb\<rparr>)"
      "ring_at rb (length (waiting rb)) 0" "trace_message_capacity rb = c" "capacity rb = capacity (ring_buffer s)"
      "waiting rb = waiting (ring_buffer s) @ [entry_view c x]" by (rule flagged_log)
    with Cons.IH [of "s\<lparr>ring_buffer := rb\<rparr>"] Cons.prems Log show ?thesis by auto
  next
    case Round
    have "thread_round proc env s = Some (s\<lparr>thread_alive := False\<rparr>)"
      using Cons.prems(1) by (cases "thread_alive s") (simp_all add: thread_round_def)
    with Cons.IH [of "s\<lparr>thread_alive := False\<rparr>"] Cons.prems Round show ?thesis by auto
  next
    case Stop
    with Cons.prems(5) show ?thesis by simp
  qed
qed simp

text \<open>Stopping a file dump that was started: the flag is set and stays set, and nothing else than
  the handle is reset.\<close>

lemma file_stop_flags:
  assumes "dump_inv handle file_emit c out0 logged True s" "overflow_fits env c"
  obtains s' where "file_stop env s = Some s'" "shutdown_flag s'" "\<not> thread_running s'"
    "ring_at (ring_buffer s') (length (waiting (ring_buffer s'))) 0"
    "trace_message_capacity (ring_buffer s') = c" "capacity (ring_buffer s') = capacity (ring_buffer s)"
    "close_handle (sink s) \<longrightarrow> waiting (ring_buffer s') = []"
proof -
  note inv = assms(1)[unfolded dump_inv_def]
  let ?s1 = "s\<lparr>shutdown_flag := True, thread_alive := False, thread_running := False\<rparr>"
  have sh: "shutdown_thread file_process env s = Some ?s1"
  proof -
    have "thread_running s" "thread_alive s" using inv by auto
    then show ?thesis using shutdown_thread_ok [of s file_process env] by simp
  qed
  have d: "dump_at c (length (waiting (ring_buffer ?s1))) 0 ?s1" "handle (sink ?s1)"
    using inv by (auto simp: dump_at_def)
  show thesis
  proof (cases "close_handle (sink s)")
    case False
    with sh d show thesis by (intro that [of ?s1]) (simp_all add: file_stop_def dump_at_def)
  next
    case True
    from file_remaining [OF d assms(2)] obtain s2 where s2: "process_remaining file_process env ?s1 = Some s2"
      "dump_at c 0 0 s2" "same_flags ?s1 s2" "waiting (ring_buffer s2) = []"
      "capacity (ring_buffer s2) = capacity (ring_buffer s)" by auto
    with True sh d(2) show thesis
      by (intro that [of "s2\<lparr>sink := (sink s2)\<lparr>handle := False\<rparr>\<rparr>"])
        (simp_all add: file_stop_def dump_at_def same_flags_def)
  qed
qed

text \<open>C22: a file dump that was started and stopped cannot be started again: after any run on a
  new ring in which it was started (no message logged into a full ring, capacity at least 67,
  a handle of its own or a borrowed one), stop it, start it again and let the program log as
  much as fits and the new thread make any number of rounds: the file holds what it held after
  the stop, and everything logged since then still waits in the ring, although the dump says
  that its thread runs.\<close>

theorem restart_is_dead:
  assumes "k \<le> 30" "67 \<le> c" "int c < INT_MAX" "is_c_int (env_pid env)"
    and "ring_new g (2 ^ k) c = Some rb" "dump_fits (2 ^ k) False 0 es" "Start \<in> set es"
    and "trace_dump_new env rb \<lparr>handle = True, close_handle = own, written = old\<rparr> = Some s"
    and "Stop \<notin> set es2" "list_all entry_ok (logs es2)"
  shows "\<exists>s1. run_dump (file_stop env) file_process env (es @ [Stop]) s = Some s1 \<and>
    (own \<longrightarrow> waiting (ring_buffer s1) = []) \<and>
    (length (waiting (ring_buffer s1)) + length (logs es2) \<le> 2 ^ k \<longrightarrow>
      (\<exists>s2. run_dump (file_stop env) file_process env (es @ [Stop, Start] @ es2) s = Some s2 \<and>
         thread_running s2 \<and> written (sink s2) = written (sink s1) \<and>
         waiting (ring_buffer s2) = waiting (ring_buffer s1) @ map (entry_view c) (logs es2)))"
proof -
  let ?f = "\<lparr>handle = True, close_handle = own, written = old\<rparr>"
  have "0 < c" using assms(2) by simp
  obtain s0 where s0: "trace_dump_new env rb ?f = Some s0" "dump_inv handle file_emit c ?f [] False s0"
    "capacity (ring_buffer s0) = 2 ^ k" "waiting (ring_buffer s0) = []"
    by (rule new_dump_inv [OF assms(1) \<open>0 < c\<close> assms(3,5), of handle ?f env file_emit]) simp_all
  then have s: "s0 = s" using assms(8) by simp
  have fits: "overflow_fits env c" using assms(4,2) by (rule overflow_fits_pid)
  from file_dump.run_events [OF s0(2) fits, of es "file_stop env"] assms(6,7) s0(3,4) obtain t alive where
    t: "run_dump (file_stop env) file_process env es s = Some t" "dump_inv handle file_emit c ?f (logs es) alive t"
      "capacity (ring_buffer t) = 2 ^ k" "thread_running t" by (auto simp: s list_all_always)
  then have alive: "alive" "close_handle (sink t) = own" by (auto simp: dump_inv_def fold_file_emit)
  obtain s1 where s1: "file_stop env t = Some s1" "shutdown_flag s1" "\<not> thread_running s1"
    "ring_at (ring_buffer s1) (length (waiting (ring_buffer s1))) 0"
    "trace_message_capacity (ring_buffer s1) = c" "capacity (ring_buffer s1) = capacity (ring_buffer t)"
    "close_handle (sink t) \<longrightarrow> waiting (ring_buffer s1) = []"
    by (rule file_stop_flags [of c ?f "logs es" t env]) (use t(2) alive fits in simp_all)
  have "run_dump (file_stop env) file_process env (es @ [Stop]) s = Some s1"
    using t(1) s1(1) by (simp add: run_dump_append)
  moreover have "run_dump (file_stop env) file_process env (es @ [Stop, Start] @ es2) s =
      run_dump (file_stop env) file_process env es2 (start s1)"
    using t(1) s1(1) by (simp add: run_dump_append)
  moreover have "start s1 = s1\<lparr>thread_alive := True, thread_running := True\<rparr>" using s1(3) by (simp add: start_def)
  ultimately show ?thesis using flagged_run [of "start s1" c es2 "file_stop env" file_process env]
      s1 t(3) alive(2) assms(9,10) by auto
qed

theorem restart_is_dead_witness:
  "\<exists>rb s s1 s2. ring_new (\<lambda>_ _. CHR ''?'') 2 80 = Some rb \<and>
     trace_dump_new sample_env rb \<lparr>handle = True, close_handle = True, written = []\<rparr> = Some s \<and>
     run_dump (file_stop sample_env) file_process sample_env [Start, Stop] s = Some s1 \<and>
     run_dump (file_stop sample_env) file_process sample_env [Start, Stop, Start, Round, Log (0, 0, 7, ''one''), Round] s = Some s2 \<and>
     written (sink s2) = written (sink s1) \<and> length (waiting (ring_buffer s2)) = length (waiting (ring_buffer s1)) + 1"
proof -
  obtain rb where rb: "ring_new (\<lambda>_ _. CHR ''?'') (2 ^ 1) 80 = Some rb" by (rule sample_ring_80) simp
  let ?f = "\<lparr>handle = True, close_handle = True, written = []\<rparr>"
  obtain s where s: "trace_dump_new sample_env rb ?f = Some s"
    by (rule new_dump_inv [of 1 80 "\<lambda>_ _. CHR ''?''" rb "\<lambda>_. True" ?f sample_env file_emit]) (use rb in simp_all)
  let ?es = "[Round, Log (0, 0, 7, ''one''), Round]"
  have "list_all entry_ok (logs ?es)" "is_c_int (env_pid sample_env)"
    by (simp_all add: entry_ok_def sample_env_def is_c_int_def)
  with restart_is_dead [OF _ _ _ _ rb, of sample_env "[Start]" True "[]" s ?es] s rb show ?thesis by auto
qed

text \<open>A message logged after an overrun has been drained can be lost without a trace: on a
  full ring of more than one slot that is overrun once and drained, the next message is not
  found by the drain of \<open>stop\<close>.  The file does not change, the message stays in the ring, and
  no lost message is counted for it.\<close>

lemma stop_drops_hidden:
  assumes "dump_at c n 0 s" "n = capacity (ring_buffer s)" "1 < n" "handle (sink s)"
    and "is_c_int (env_pid env)" "67 \<le> c" "NUL \<notin> set t" "NUL \<notin> set u"
  shows "\<exists>rb1 s1 rb2 s2 i. py_write [] a b v t (ring_buffer s) = Some rb1 \<and>
    process_remaining file_process env (s\<lparr>ring_buffer := rb1\<rparr>) = Some s1 \<and>
    py_write [] a' b' v' u (ring_buffer s1) = Some rb2 \<and>
    process_remaining file_process env (s1\<lparr>ring_buffer := rb2\<rparr>) = Some s2 \<and>
    written (sink s2) = written (sink s1) \<and> i < n \<and> has_data (ring_buffer s2) ! i = 1 \<and>
    msg_view (elements (ring_buffer s2) ! i) = entry_view c (a', b', v', u) \<and>
    resettable_overflow_counter (ring_buffer s2) = 0"
proof -
  from assms(1,2) have at: "ring_at (ring_buffer s) (capacity (ring_buffer s)) 0"
    "trace_message_capacity (ring_buffer s) = c" by (simp_all add: dump_at_def)
  obtain rb1 where rb1: "py_write [] a b v t (ring_buffer s) = Some rb1"
    "ring_at rb1 (capacity (ring_buffer s)) 1" "capacity rb1 = capacity (ring_buffer s)"
    "trace_message_capacity rb1 = trace_message_capacity (ring_buffer s)"
    using at(1) assms(7) by (rule overrun_write)
  have d1: "dump_at c n 1 (s\<lparr>ring_buffer := rb1\<rparr>)"
    using assms(1,2) rb1(2,4) by (simp add: dump_at_def)
  have fits: "overflow_fits env c" using assms(5,6) by (rule overflow_fits_pid)
  from file_remaining [OF d1 _ fits] assms(4) rb1(3) obtain s1 where
    s1: "process_remaining file_process env (s\<lparr>ring_buffer := rb1\<rparr>) = Some s1" "dump_at c 0 1 s1"
      "handle (sink s1)" "resettable_overflow_counter (ring_buffer s1) = 0"
      "capacity (ring_buffer s1) = capacity (ring_buffer s)" by auto
  from s1(2) have at1: "ring_at (ring_buffer s1) 0 1" "trace_message_capacity (ring_buffer s1) = c"
    by (simp_all add: dump_at_def)
  obtain rb2 i where rb2: "py_write [] a' b' v' u (ring_buffer s1) = Some rb2" "ring_ok rb2"
    "i < capacity (ring_buffer s1)" "has_data rb2 ! i = 1"
    "msg_view (elements rb2 ! i) = entry_view (trace_message_capacity (ring_buffer s1)) (a', b', v', u)"
    "has_data rb2 ! nat (tail rb2) = 0"
    "resettable_overflow_counter rb2 = resettable_overflow_counter (ring_buffer s1)"
    using at1(1) _ assms(8) by (rule hidden_write) (use assms(2,3) s1(5) in simp)
  let ?s2 = "s1\<lparr>ring_buffer := rb2\<rparr>"
  have id: "rb2\<lparr>resettable_overflow_counter := 0\<rparr> = rb2" using rb2(7) s1(4) by (cases rb2) simp
  have "pop [] (env_chars env) (message_buffer s1) rb2 = Some (False, message_buffer s1, rb2)"
    using rb2(2,6) by (rule pop_empty)
  then have "pop_and_process file_process env ?s2 = Some (False, ?s2)"
    using rb2(7) s1(4) by (simp add: pop_and_process_def get_and_reset_overflow_counter_def id)
  then have "process_remaining file_process env ?s2 = Some ?s2"
    by (simp add: process_remaining.simps)
  with rb1(1) s1(1) rb2 s1(4,5) at1(2) assms(2) show ?thesis
    by (intro exI [of _ rb1] exI [of _ s1] exI [of _ rb2] exI [of _ ?s2] exI [of _ i]) simp
qed

lemma stop_drops_hidden_example:
  "\<exists>rb1 s1 rb2 s2 i. py_write [] 2 0 4 ''x'' (ring_buffer (sample_dump ())) = Some rb1 \<and>
    process_remaining file_process sample_env
      (sample_dump \<lparr>handle = True, close_handle = True, written = []\<rparr>\<lparr>ring_buffer := rb1\<rparr>) = Some s1 \<and>
    py_write [] 3 0 5 ''lost'' (ring_buffer s1) = Some rb2 \<and>
    process_remaining file_process sample_env (s1\<lparr>ring_buffer := rb2\<rparr>) = Some s2 \<and>
    written (sink s2) = written (sink s1) \<and>
    msg_view (elements (ring_buffer s2) ! i) = (''lost'', 5, 3000)"
proof -
  let ?s = "sample_dump \<lparr>handle = True, close_handle = True, written = []\<rparr>"
  have "2 = capacity (ring_buffer ?s)" "handle (sink ?s)" "is_c_int (env_pid sample_env)"
    by (simp_all add: sample_dump_def sample_env_def is_c_int_def)
  from stop_drops_hidden [OF sample_dump_at(1) this(1) _ this(2,3), of "''x''" "''lost''" 2 0 4 3 0 5]
  have "\<exists>rb1 s1 rb2 s2 i. py_write [] 2 0 4 ''x'' (ring_buffer ?s) = Some rb1 \<and>
    process_remaining file_process sample_env (?s\<lparr>ring_buffer := rb1\<rparr>) = Some s1 \<and>
    py_write [] 3 0 5 ''lost'' (ring_buffer s1) = Some rb2 \<and>
    process_remaining file_process sample_env (s1\<lparr>ring_buffer := rb2\<rparr>) = Some s2 \<and>
    written (sink s2) = written (sink s1) \<and>
    msg_view (elements (ring_buffer s2) ! i) = entry_view 80 (3, 0, 5, ''lost'')" by simp blast
  moreover have "ring_buffer (sample_dump ()) = ring_buffer ?s" by (simp add: sample_dump_def)
  ultimately show ?thesis by (simp add: entry_view_def)
qed

end
