(* ===== verification/Syslog_Socket.thy ===== *)
theory Syslog_Socket
  imports Prelude
begin

text \<open>
  The sockets of \<open>trace_dump.cpp\<close>: \<open>SyslogSocket\<close> with its UNIX and TCP subclasses.  The
  operating system is a parameter, a record of the calls the code makes; nothing is assumed
  of it.  Every call and its result is appended to a log, which is what the theorems speak
  about: descriptors opened and closed, bytes handed to \<open>send\<close>.
\<close>

section \<open>The operating system\<close>

datatype sockaddr = Sun "char list" | Sin u32 "16 word"

datatype socket_type = Sock_Dgram | Sock_Stream

record 'w os =
  os_socket :: "bool \<Rightarrow> socket_type \<Rightarrow> 'w \<Rightarrow> int \<times> 'w"
  os_connect :: "int \<Rightarrow> sockaddr \<Rightarrow> 'w \<Rightarrow> int \<times> 'w"
  os_send :: "int \<Rightarrow> char list \<Rightarrow> 'w \<Rightarrow> int \<times> 'w"
  os_close :: "int \<Rightarrow> 'w \<Rightarrow> 'w"
  os_inet_addr :: "string \<Rightarrow> u32"

datatype call =
    Socket_Call socket_type int | Connect_Call int sockaddr int | Send_Call int "char list" int
  | Close_Call int

text \<open>The socket object: its descriptor, with the world outside and the log.\<close>

record 'w net =
  fd :: int
  world :: 'w
  calls :: "call list"

definition call_socket :: "'w os \<Rightarrow> bool \<Rightarrow> socket_type \<Rightarrow> 'w net \<Rightarrow> 'w net" where
  "call_socket os unix ty n =
     (let (r, w) = os_socket os unix ty (world n)
      in n\<lparr>fd := r, world := w, calls := calls n @ [Socket_Call ty r]\<rparr>)"

definition call_connect :: "'w os \<Rightarrow> sockaddr \<Rightarrow> 'w net \<Rightarrow> int \<times> 'w net" where
  "call_connect os a n =
     (let (r, w) = os_connect os (fd n) a (world n)
      in (r, n\<lparr>world := w, calls := calls n @ [Connect_Call (fd n) a r]\<rparr>))"

definition call_send :: "'w os \<Rightarrow> char list \<Rightarrow> 'w net \<Rightarrow> int \<times> 'w net" where
  "call_send os b n =
     (let (r, w) = os_send os (fd n) b (world n)
      in (r, n\<lparr>world := w, calls := calls n @ [Send_Call (fd n) b r]\<rparr>))"

section \<open>SyslogSocket\<close>

definition net_new :: "'w \<Rightarrow> 'w net" where
  "net_new w = \<lparr>fd = - 1, world = w, calls = []\<rparr>"

definition net_close :: "'w os \<Rightarrow> 'w net \<Rightarrow> 'w net" where
  "net_close os n =
     (if fd n \<noteq> - 1
      then n\<lparr>fd := - 1, world := os_close os (fd n) (world n), calls := calls n @ [Close_Call (fd n)]\<rparr>
      else n)"

section \<open>SyslogUNIXSocket\<close>

text \<open>\<open>std::strncpy(sockaddr.sun_path, address.c_str(), sizeof(sockaddr.sun_path))\<close>: 108
  bytes, without a NUL when the path is longer.\<close>

definition sun_path :: "string \<Rightarrow> char list" where
  "sun_path address = take 108 address @ replicate (108 - length address) NUL"

definition try_connect_to_type :: "'w os \<Rightarrow> string \<Rightarrow> socket_type \<Rightarrow> 'w net \<Rightarrow> bool \<times> 'w net" where
  "try_connect_to_type os address ty n =
     (let n = call_socket os True ty n
      in if fd n = - 1 then (False, n)
         else (let (r, n) = call_connect os (Sun (sun_path address)) n
               in if r \<noteq> 0 then (False, net_close os n) else (True, n)))"

definition unix_try_connect :: "'w os \<Rightarrow> string \<Rightarrow> 'w net \<Rightarrow> bool \<times> 'w net" where
  "unix_try_connect os address n =
     (if fd n \<noteq> - 1 then (True, n)
      else (let (ok, n) = try_connect_to_type os address Sock_Dgram n
            in if \<not> ok then try_connect_to_type os address Sock_Stream n else (True, n)))"

definition unix_send :: "'w os \<Rightarrow> char list \<Rightarrow> 'w net \<Rightarrow> bool \<times> 'w net" where
  "unix_send os b n =
     (let (r, n) = call_send os b n
      in if r \<noteq> int (length b) then (False, net_close os n) else (True, n))"

section \<open>SyslogTCPSocket\<close>

definition tcp_address :: "'w os \<Rightarrow> string \<Rightarrow> int \<Rightarrow> sockaddr" where
  "tcp_address os address port = Sin (os_inet_addr os address) (word_of_int port)"

definition tcp_try_connect :: "'w os \<Rightarrow> sockaddr \<Rightarrow> 'w net \<Rightarrow> bool \<times> 'w net" where
  "tcp_try_connect os a n =
     (if fd n \<noteq> - 1 then (True, n)
      else (let n = call_socket os False Sock_Stream n
            in if fd n = - 1 then (False, n)
               else (let (r, n) = call_connect os a n
                     in if r \<noteq> 0 then (False, net_close os n) else (True, n))))"

text \<open>Octet counting of RFC 6587: the length in decimal, a space, the message.\<close>

definition size_prefix :: "nat \<Rightarrow> string" where
  "size_prefix len = fmt_d (int len) @ '' ''"

definition tcp_send :: "'w os \<Rightarrow> char list \<Rightarrow> 'w net \<Rightarrow> bool \<times> 'w net" where
  "tcp_send os b n =
     (let prefix_len = snprintf_result (size_prefix (length b));
          prefix = take (nat prefix_len) (snprintf_stored 64 (size_prefix (length b)))
      in if prefix_len < 0 \<or> prefix_len = 64 then (False, n)
         else (let (r, n) = call_send os prefix n
               in if r = prefix_len
                  then (let (r, n) = call_send os b n
                        in if r = int (length b) then (True, n) else (False, net_close os n))
                  else (False, net_close os n)))"

section \<open>Virtual dispatch\<close>

datatype syslog_address = Unix_Address string | Tcp_Address string int

fun try_connect :: "'w os \<Rightarrow> syslog_address \<Rightarrow> 'w net \<Rightarrow> bool \<times> 'w net" where
  "try_connect os (Unix_Address a) n = unix_try_connect os a n"
| "try_connect os (Tcp_Address a p) n = tcp_try_connect os (tcp_address os a p) n"

fun net_send :: "'w os \<Rightarrow> syslog_address \<Rightarrow> char list \<Rightarrow> 'w net \<Rightarrow> bool \<times> 'w net" where
  "net_send os (Unix_Address a) b n = unix_send os b n"
| "net_send os (Tcp_Address a p) b n = tcp_send os b n"

section \<open>What the log shows\<close>

text \<open>The descriptors a log leaves open: \<^const>\<open>None\<close> when a call uses or closes one that is not
  open at that point (a second \<open>close\<close>, a \<open>send\<close> after the \<open>close\<close>).\<close>

fun open_fds :: "call list \<Rightarrow> int list \<Rightarrow> int list option" where
  "open_fds [] fds = Some fds"
| "open_fds (Socket_Call ty r # cs) fds = open_fds cs (if r = - 1 then fds else r # fds)"
| "open_fds (Close_Call f # cs) fds = (if f \<in> set fds then open_fds cs (remove1 f fds) else None)"
| "open_fds (Connect_Call f a r # cs) fds = (if f \<in> set fds then open_fds cs fds else None)"
| "open_fds (Send_Call f b r # cs) fds = (if f \<in> set fds then open_fds cs fds else None)"

text \<open>The descriptors a log was given and those it has closed, in order.\<close>

fun opened :: "call list \<Rightarrow> int list" where
  "opened [] = []"
| "opened (Socket_Call ty r # cs) = (if r = - 1 then [] else [r]) @ opened cs"
| "opened (Close_Call f # cs) = opened cs"
| "opened (Connect_Call f a r # cs) = opened cs"
| "opened (Send_Call f b r # cs) = opened cs"

fun closed :: "call list \<Rightarrow> int list" where
  "closed [] = []"
| "closed (Close_Call f # cs) = f # closed cs"
| "closed (Socket_Call ty r # cs) = closed cs"
| "closed (Connect_Call f a r # cs) = closed cs"
| "closed (Send_Call f b r # cs) = closed cs"

text \<open>The byte runs that were sent whole, each with its descriptor.\<close>

fun sent :: "call list \<Rightarrow> (int \<times> char list) list" where
  "sent [] = []"
| "sent (Send_Call f b r # cs) = (if r = int (length b) then [(f, b)] else []) @ sent cs"
| "sent (Socket_Call ty r # cs) = sent cs"
| "sent (Connect_Call f a r # cs) = sent cs"
| "sent (Close_Call f # cs) = sent cs"

lemma open_fds_append: "open_fds (cs @ ds) fds = Option.bind (open_fds cs fds) (open_fds ds)"
  by (induction cs fds rule: open_fds.induct) auto

lemma count_remove1: "f \<in> set fds \<Longrightarrow> count_list (remove1 f fds) x + (if x = f then 1 else 0) = count_list fds x"
  by (induction fds) auto

lemma open_fds_balance:
  "open_fds cs fds = Some fds' \<Longrightarrow>
   count_list (opened cs) x + count_list fds x = count_list (closed cs) x + count_list fds' x"
proof (induction cs fds arbitrary: fds' rule: open_fds.induct)
  case (3 f cs fds)
  then have "f \<in> set fds" by (simp split: if_splits)
  from count_remove1 [OF this, of x] 3 show ?case by (auto split: if_splits)
qed (auto split: if_splits)

lemma closed_once: "open_fds cs [] = Some [] \<Longrightarrow> count_list (opened cs) x = count_list (closed cs) x"
  using open_fds_balance [of cs "[]" "[]" x] by simp

lemma sent_append: "sent (cs @ ds) = sent cs @ sent ds"
  by (induction cs rule: sent.induct) auto

text \<open>No descriptor leaks and none is used when it is not open: the log leaves open what the
  object holds, and nothing else.\<close>

definition net_ok :: "'w net \<Rightarrow> bool" where
  "net_ok n \<longleftrightarrow> open_fds (calls n) [] = Some (if fd n = - 1 then [] else [fd n])"

lemma net_ok_new: "net_ok (net_new w)"
  by (simp add: net_ok_def net_new_def)

lemma call_socket_ok: "fd n = - 1 \<Longrightarrow> net_ok n \<Longrightarrow> net_ok (call_socket os u ty n)"
  by (simp add: net_ok_def call_socket_def open_fds_append split: prod.splits)

lemma call_connect_ok: "call_connect os a n = (r, n') \<Longrightarrow> net_ok n \<Longrightarrow> fd n \<noteq> - 1 \<Longrightarrow> net_ok n' \<and> fd n' = fd n"
  by (auto simp: net_ok_def call_connect_def open_fds_append split: prod.splits)

lemma call_send_ok: "call_send os b n = (r, n') \<Longrightarrow> net_ok n \<Longrightarrow> fd n \<noteq> - 1 \<Longrightarrow>
  net_ok n' \<and> fd n' = fd n \<and> sent (calls n') = sent (calls n) @ (if r = int (length b) then [(fd n, b)] else [])"
  by (auto simp: net_ok_def call_send_def open_fds_append sent_append split: prod.splits)

lemma net_close_ok: "net_ok n \<Longrightarrow> net_ok (net_close os n) \<and> fd (net_close os n) = - 1"
  by (simp add: net_ok_def net_close_def open_fds_append)

lemma size_prefix_length: "n < 10 ^ 19 \<Longrightarrow> length (size_prefix n) \<le> 20"
  using fmt_u_length [of n 18] by (simp add: size_prefix_def fmt_d_def)

lemma size_prefix_stored:
  assumes "n < 10 ^ 19"
  shows "snprintf_result (size_prefix n) = int (length (size_prefix n))"
    "take (length (size_prefix n)) (snprintf_stored 64 (size_prefix n)) = size_prefix n"
    "length (size_prefix n) < 64"
  using size_prefix_length [OF assms] by (simp_all add: snprintf_result_def snprintf_stored_fits)

section \<open>The contract of a socket\<close>

text \<open>What \<open>SyslogTraceDump::process\<close> relies on in a subclass: after a successful
  \<open>try_connect\<close> a descriptor is open, after a failed one none is; a successful \<open>send\<close> has put
  the message on the wire as a whole; a failed one has closed the socket.\<close>

locale syslog_connection =
  fixes connect :: "'w net \<Rightarrow> bool \<times> 'w net"
    and send :: "char list \<Rightarrow> 'w net \<Rightarrow> bool \<times> 'w net"
    and wire :: "char list \<Rightarrow> char list list"
    and sendable :: "char list \<Rightarrow> bool"
  assumes connect_ok: "net_ok n \<Longrightarrow> connect n = (ok, n') \<Longrightarrow>
      net_ok n' \<and> (ok \<longleftrightarrow> fd n' \<noteq> - 1) \<and> sent (calls n') = sent (calls n)"
    and connect_open: "fd n \<noteq> - 1 \<Longrightarrow> connect n = (True, n)"
    and send_done: "net_ok n \<Longrightarrow> fd n \<noteq> - 1 \<Longrightarrow> sendable b \<Longrightarrow> send b n = (True, n') \<Longrightarrow>
      net_ok n' \<and> fd n' = fd n \<and> sent (calls n') = sent (calls n) @ map (Pair (fd n)) (wire b)"
    and send_failed: "net_ok n \<Longrightarrow> fd n \<noteq> - 1 \<Longrightarrow> sendable b \<Longrightarrow> send b n = (False, n') \<Longrightarrow>
      net_ok n' \<and> fd n' = - 1 \<and>
      (\<exists>k < length (wire b). sent (calls n') = sent (calls n) @ map (Pair (fd n)) (take k (wire b)))"

text \<open>\<open>for (int i = 0; i < 2; ++i) if (try_connect()) if (send(...)) break;\<close>\<close>

fun send_attempts ::
  "nat \<Rightarrow> ('w net \<Rightarrow> bool \<times> 'w net) \<Rightarrow> (char list \<Rightarrow> 'w net \<Rightarrow> bool \<times> 'w net) \<Rightarrow> char list \<Rightarrow>
   'w net \<Rightarrow> bool \<times> 'w net" where
  "send_attempts 0 connect send b n = (False, n)"
| "send_attempts (Suc k) connect send b n =
     (let (ok, n) = connect n
      in if ok
         then (let (ok, n) = send b n
               in if ok then (True, n) else send_attempts k connect send b n)
         else send_attempts k connect send b n)"

text \<open>The pieces of a message that failed attempts have put on the wire, by descriptor.\<close>

definition pieces :: "char list list \<Rightarrow> (int \<times> nat) list \<Rightarrow> (int \<times> char list) list" where
  "pieces ws fs = concat (map (\<lambda>(f, k). map (Pair f) (take k ws)) fs)"

lemma pieces_Cons: "map (Pair f) (take k ws) @ pieces ws fs = pieces ws ((f, k) # fs)"
  by (simp add: pieces_def)

context syslog_connection
begin

lemma attempts_spec:
  "net_ok n \<Longrightarrow> sendable b \<Longrightarrow> send_attempts j connect send b n = (ok, n') \<Longrightarrow>
   net_ok n' \<and> (\<exists>fs. length fs \<le> j \<and> (\<forall>(f, k) \<in> set fs. k < length (wire b)) \<and>
     sent (calls n') = sent (calls n) @ pieces (wire b) fs @
       (if ok then map (Pair (fd n')) (wire b) else [])) \<and>
   (ok \<longrightarrow> fd n' \<noteq> - 1) \<and> (\<not> ok \<and> 0 < j \<longrightarrow> fd n' = - 1)"
proof (induction j arbitrary: n ok n')
  case 0
  then show ?case by (auto simp: pieces_def intro!: exI [of _ "[]"])
next
  case (Suc j)
  obtain ok1 n1 where c: "connect n = (ok1, n1)" by fastforce
  note c1 = connect_ok [OF Suc.prems(1) c]
  show ?case
  proof (cases ok1)
    case False
    with c1 have n1: "net_ok n1" "fd n1 = - 1" "sent (calls n1) = sent (calls n)" by simp_all
    have r: "send_attempts j connect send b n1 = (ok, n')" using Suc.prems(3) c False by simp
    from Suc.IH [OF n1(1) Suc.prems(2) r] n1 r show ?thesis
      by (cases j) (auto intro: le_SucI)
  next
    case True
    with c1 have n1: "net_ok n1" "fd n1 \<noteq> - 1" "sent (calls n1) = sent (calls n)" by simp_all
    obtain ok2 n2 where s: "send b n1 = (ok2, n2)" by fastforce
    show ?thesis
    proof (cases ok2)
      case True
      with \<open>ok1\<close> c s Suc.prems(3) have "ok" "n' = n2" by simp_all
      moreover from send_done [OF n1(1,2) Suc.prems(2)] s True
      have "net_ok n2" "fd n2 = fd n1" "sent (calls n2) = sent (calls n1) @ map (Pair (fd n1)) (wire b)"
        by simp_all
      ultimately show ?thesis using n1(2,3)
        by (auto simp: pieces_def intro!: exI [of _ "[]"])
    next
      case False
      from send_failed [OF n1(1,2) Suc.prems(2)] s False obtain k where
        n2: "net_ok n2" "fd n2 = - 1" "k < length (wire b)"
        "sent (calls n2) = sent (calls n1) @ map (Pair (fd n1)) (take k (wire b))" by auto
      have r: "send_attempts j connect send b n2 = (ok, n')" using Suc.prems(3) c \<open>ok1\<close> s False by simp
      from Suc.IH [OF n2(1) Suc.prems(2) r] obtain fs where
        fs: "net_ok n'" "length fs \<le> j" "\<forall>(f, k) \<in> set fs. k < length (wire b)"
          "sent (calls n') = sent (calls n2) @ pieces (wire b) fs @
            (if ok then map (Pair (fd n')) (wire b) else [])"
          "ok \<longrightarrow> fd n' \<noteq> - 1" "\<not> ok \<and> 0 < j \<longrightarrow> fd n' = - 1" by blast
      have "\<not> ok \<longrightarrow> fd n' = - 1" using fs(6) r n2(2) by (cases j) auto
      moreover have "sent (calls n') = sent (calls n) @ pieces (wire b) ((fd n1, k) # fs) @
          (if ok then map (Pair (fd n')) (wire b) else [])"
        using fs(4) n2(4) n1(3) by (simp add: pieces_def)
      ultimately show ?thesis using fs(1,2,3,5) n2(3)
        by (intro conjI exI [of _ "(fd n1, k) # fs"]) auto
    qed
  qed
qed

end

lemma try_connect_to_type_ok:
  assumes "net_ok n" "fd n = - 1" "try_connect_to_type os a ty n = (ok, n')"
  shows "net_ok n' \<and> (ok \<longleftrightarrow> fd n' \<noteq> - 1) \<and> sent (calls n') = sent (calls n)"
proof -
  let ?n1 = "call_socket os True ty n"
  have n1: "net_ok ?n1" using assms(1,2) by (intro call_socket_ok)
  have s1: "sent (calls ?n1) = sent (calls n)"
    by (simp add: call_socket_def sent_append split: prod.splits)
  obtain r n2 where c: "call_connect os (Sun (sun_path a)) ?n1 = (r, n2)" by fastforce
  have n2: "net_ok n2" "fd n2 = fd ?n1" if "fd ?n1 \<noteq> - 1" using call_connect_ok [OF c n1 that] by simp_all
  have s2: "sent (calls n2) = sent (calls ?n1)"
    using c by (auto simp: call_connect_def sent_append split: prod.splits)
  have s3: "sent (calls (net_close os n2)) = sent (calls n2)"
    by (simp add: net_close_def sent_append)
  show ?thesis
  proof (cases "fd ?n1 = - 1")
    case True
    with assms(3) n1 s1 show ?thesis by (auto simp: try_connect_to_type_def Let_def)
  next
    case False
    with assms(3) n2 s1 s2 s3 c net_close_ok [OF n2(1) [OF False], of os] show ?thesis
      by (auto simp: try_connect_to_type_def Let_def split: if_splits)
  qed
qed

interpretation unix_socket: syslog_connection "unix_try_connect os a" "unix_send os" "\<lambda>b. [b]" "\<lambda>b. True"
  for os a
proof (unfold_locales, goal_cases)
  case (1 n ok n')
  show ?case
  proof (cases "fd n = - 1")
    case False
    with 1 show ?thesis by (auto simp: unix_try_connect_def)
  next
    case True
    obtain ok1 n1 where c: "try_connect_to_type os a Sock_Dgram n = (ok1, n1)" by fastforce
    from try_connect_to_type_ok [OF 1(1) True c] have
      n1: "net_ok n1" "ok1 \<longleftrightarrow> fd n1 \<noteq> - 1" "sent (calls n1) = sent (calls n)" by simp_all
    show ?thesis
    proof (cases ok1)
      case True
      with \<open>fd n = - 1\<close> 1(2) c n1 show ?thesis by (auto simp: unix_try_connect_def)
    next
      case False
      with \<open>fd n = - 1\<close> 1(2) c have "try_connect_to_type os a Sock_Stream n1 = (ok, n')"
        by (simp add: unix_try_connect_def)
      from try_connect_to_type_ok [OF n1(1) _ this] n1 False show ?thesis by simp
    qed
  qed
next
  case (2 n)
  then show ?case by (simp add: unix_try_connect_def)
next
  case (3 n b n')
  obtain r n1 where c: "call_send os b n = (r, n1)" by fastforce
  from call_send_ok [OF c 3(1,2)] 3(4) c show ?case by (auto simp: unix_send_def split: if_splits)
next
  case (4 n b n')
  obtain r n1 where c: "call_send os b n = (r, n1)" by fastforce
  have "sent (calls (net_close os n1)) = sent (calls n1)" by (simp add: net_close_def sent_append)
  with call_send_ok [OF c 4(1,2)] 4(4) c net_close_ok [of n1 os] show ?case
    by (auto simp: unix_send_def split: if_splits)
qed

interpretation tcp_socket: syslog_connection "tcp_try_connect os a" "tcp_send os"
    "\<lambda>b. [size_prefix (length b), b]" "\<lambda>b. length b < 10 ^ 19"
  for os a
proof (unfold_locales, goal_cases)
  case (1 n ok n')
  let ?n1 = "call_socket os False Sock_Stream n"
  obtain r n2 where c: "call_connect os a ?n1 = (r, n2)" by fastforce
  show ?case
  proof (cases "fd n = - 1")
    case False
    with 1 show ?thesis by (auto simp: tcp_try_connect_def)
  next
    case True
    have n1: "net_ok ?n1" using 1(1) True by (intro call_socket_ok)
    have n2: "net_ok n2" "fd n2 = fd ?n1" if "fd ?n1 \<noteq> - 1" using call_connect_ok [OF c n1 that] by simp_all
    have s: "sent (calls ?n1) = sent (calls n)" "sent (calls n2) = sent (calls ?n1)"
      "sent (calls (net_close os n2)) = sent (calls n2)"
      using c by (auto simp: call_socket_def call_connect_def net_close_def sent_append split: prod.splits)
    show ?thesis
    proof (cases "fd ?n1 = - 1")
      case True
      with 1(2) \<open>fd n = - 1\<close> n1 s show ?thesis by (auto simp: tcp_try_connect_def Let_def)
    next
      case False
      with 1(2) \<open>fd n = - 1\<close> n2 s c net_close_ok [OF n2(1) [OF False], of os] show ?thesis
        by (auto simp: tcp_try_connect_def Let_def split: if_splits)
    qed
  qed
next
  case (2 n)
  then show ?case by (simp add: tcp_try_connect_def)
next
  case (3 n b n')
  note p = size_prefix_stored [of "length b"]
  obtain r1 n1 where c1: "call_send os (size_prefix (length b)) n = (r1, n1)" by fastforce
  obtain r2 n2 where c2: "call_send os b n1 = (r2, n2)" by fastforce
  from call_send_ok [OF c1 3(1,2)] have n1: "net_ok n1" "fd n1 = fd n"
    "sent (calls n1) = sent (calls n) @
      (if r1 = int (length (size_prefix (length b))) then [(fd n, size_prefix (length b))] else [])" by simp_all
  from call_send_ok [OF c2 n1(1)] n1 3(2-4) c1 c2 p show ?case
    by (auto simp: tcp_send_def Let_def split: if_splits)
next
  case (4 n b n')
  note p = size_prefix_stored [of "length b"]
  obtain r1 n1 where c1: "call_send os (size_prefix (length b)) n = (r1, n1)" by fastforce
  obtain r2 n2 where c2: "call_send os b n1 = (r2, n2)" by fastforce
  from call_send_ok [OF c1 4(1,2)] have n1: "net_ok n1" "fd n1 = fd n"
    "sent (calls n1) = sent (calls n) @
      (if r1 = int (length (size_prefix (length b))) then [(fd n, size_prefix (length b))] else [])" by simp_all
  from call_send_ok [OF c2 n1(1)] n1(2) 4(2) have n2: "net_ok n2"
    "sent (calls n2) = sent (calls n1) @ (if r2 = int (length b) then [(fd n1, b)] else [])" by simp_all
  have cl: "sent (calls (net_close os n1)) = sent (calls n1)"
    "sent (calls (net_close os n2)) = sent (calls n2)" by (simp_all add: net_close_def sent_append)
  show ?case
  proof (cases "r1 = int (length (size_prefix (length b)))")
    case True
    with 4(3,4) c1 c2 p have "r2 \<noteq> int (length b)" "n' = net_close os n2"
      by (auto simp: tcp_send_def Let_def split: if_splits)
    with True n1 n2 cl net_close_ok [OF n2(1), of os] show ?thesis
      by (intro conjI exI [of _ 1]) auto
  next
    case False
    with 4(3,4) c1 p have "n' = net_close os n1"
      by (auto simp: tcp_send_def Let_def split: if_splits)
    with False n1 cl net_close_ok [OF n1(1), of os] show ?thesis
      by (intro conjI exI [of _ 0]) auto
  qed
qed

section \<open>Octet counting read back\<close>

text \<open>How a receiver takes a TCP stream apart: a length in decimal up to a space, then that
  many bytes, and so on to the end of the stream; \<^const>\<open>None\<close> when anything is left over or does
  not have this form.\<close>

fun read_length :: "nat \<Rightarrow> string \<Rightarrow> (nat \<times> string) option" where
  "read_length acc [] = None"
| "read_length acc (c # cs) =
     (if c = CHR '' '' then Some (acc, cs)
      else if is_digit c then read_length (10 * acc + char_digit c) cs else None)"

lemma read_length_shorter: "read_length acc s = Some (n, r) \<Longrightarrow> length r < length s"
  by (induction acc s rule: read_length.induct) (auto split: if_splits)

function read_stream :: "string \<Rightarrow> string list option" where
  "read_stream s =
     (if s = [] then Some []
      else (case read_length 0 s of
          None \<Rightarrow> None
        | Some (n, r) \<Rightarrow>
            if n \<le> length r then map_option ((#) (take n r)) (read_stream (drop n r)) else None))"
  by pat_completeness auto
termination
  by (relation "measure length") (auto dest: read_length_shorter)

declare read_stream.simps [simp del]


lemma not_digit_space: "\<not> is_digit (CHR '' '')"
  by (simp add: is_digit_def)

lemma read_length_digits:
  "list_all is_digit ds \<Longrightarrow>
   read_length acc (ds @ r) = read_length (foldl (\<lambda>a c. 10 * a + char_digit c) acc ds) r"
proof (induction ds arbitrary: acc)
  case (Cons d ds)
  then have "d \<noteq> CHR '' ''" using not_digit_space by auto
  with Cons show ?case by simp
qed simp

lemma read_length_prefix: "read_length 0 (size_prefix n @ r) = Some (n, r)"
proof -
  have "list_all is_digit (fmt_u n)" using fmt_u_digits by (simp add: list_all_iff)
  from read_length_digits [OF this, of 0 "CHR '' '' # r"] dec_val_fmt_u [of n] show ?thesis
    by (simp add: size_prefix_def fmt_d_def dec_val_def)
qed

lemma read_stream_Nil: "read_stream [] = Some []"
  by (simp add: read_stream.simps)

lemma read_stream_Cons:
  "read_stream (size_prefix (length b) @ b @ r) = map_option ((#) b) (read_stream r)"
proof -
  have ne: "size_prefix n \<noteq> []" for n by (simp add: size_prefix_def)
  show ?thesis by (subst read_stream.simps) (simp add: read_length_prefix ne)
qed

lemma read_stream_messages:
  "read_stream (concat (map (\<lambda>b. size_prefix (length b) @ b) bs)) = Some bs"
  by (induction bs) (simp_all add: read_stream_Nil read_stream_Cons)

section \<open>Properties\<close>


text \<open>C18: sending over TCP never leaks a descriptor and never leaves a broken one in use,
  whatever the operating system answers: after the two attempts the socket holds the one
  descriptor that is open, or none; on success the length prefix and the message were sent
  whole, last and in this order, and what failed attempts left on other connections is at
  most a prefix of that; on failure the socket is closed.\<close>

theorem tcp_two_attempts:
  assumes "net_ok n" "length b < 10 ^ 19"
    and "send_attempts 2 (tcp_try_connect os a) (tcp_send os) b n = (ok, n')"
  shows "net_ok n' \<and> (ok \<longleftrightarrow> fd n' \<noteq> - 1) \<and>
    (\<exists>fs. length fs \<le> 2 \<and> (\<forall>(f, k) \<in> set fs. k < 2) \<and>
      sent (calls n') = sent (calls n) @ pieces [size_prefix (length b), b] fs @
        (if ok then [(fd n', size_prefix (length b)), (fd n', b)] else []))"
  using tcp_socket.attempts_spec [OF assms] by (auto simp: split_beta numeral_2_eq_2)

text \<open>A small operating system for the witnesses: it hands out descriptors from 3 on, and the
  first \<open>send\<close> on a fresh system fails (the peer has reset the connection).\<close>

definition sample_os :: "nat os" where
  "sample_os = \<lparr>os_socket = (\<lambda>u ty w. (int w + 3, w + 1)), os_connect = (\<lambda>f a w. (0, w)),
     os_send = (\<lambda>f b w. (if w \<le> 1 then - 1 else int (length b), w)), os_close = (\<lambda>f w. w),
     os_inet_addr = (\<lambda>s. 2130706433)\<rparr>"

lemma prefix_5: "size_prefix (Suc (Suc (Suc (Suc (Suc 0))))) = ''5 ''"
  by code_simp

lemma run_two_attempts:
  "case send_attempts 2 (tcp_try_connect sample_os (Sin 0 514)) (tcp_send sample_os) ''hello'' (net_new 0) of
     (ok, n) \<Rightarrow> ok \<and> fd n = 4"
  by code_simp

theorem tcp_two_attempts_witness:
  "\<exists>n'. send_attempts 2 (tcp_try_connect sample_os (Sin 0 514)) (tcp_send sample_os) ''hello'' (net_new 0) =
      (True, n') \<and> fd n' = 4 \<and> net_ok n' \<and> (\<exists>junk. sent (calls n') = junk @ [(4, ''5 ''), (4, ''hello'')])"
proof -
  obtain ok n' where r: "send_attempts 2 (tcp_try_connect sample_os (Sin 0 514)) (tcp_send sample_os)
      ''hello'' (net_new 0) = (ok, n')" by fastforce
  have v: "ok" "fd n' = 4" using run_two_attempts r by simp_all
  from tcp_two_attempts [OF net_ok_new _ r] v r prefix_5 show ?thesis
    by auto
qed


end
