(* ===== verification/Syslog_Dump.thy ===== *)
theory Syslog_Dump
  imports Trace_Dump Syslog_Socket
begin

text \<open>
  \<open>SyslogTraceDump\<close> of \<open>trace_dump.cpp\<close>: the formatting of a message for syslog (RFC 5424 and
  the BSD format), the two attempts to send it, and the stop.  The state is the object's
  fields; \<open>sock_present\<close> is whether the pointer \<open>socket\<close> is not NULL.
\<close>

section \<open>The object\<close>

record 'w syslog_sink =
  host_name :: string
  application_name :: string
  process_id :: string
  rfc5424 :: bool
  facility :: int
  sock_present :: bool
  sock_address :: syslog_address
  sock :: "'w net"
  syslog_buffer_size :: int
  syslog_buffer :: "char list"

text \<open>A \<open>const char*\<close> argument: NULL is None.\<close>

definition name_or_dash :: "string option \<Rightarrow> string" where
  "name_or_dash s = (case s of None \<Rightarrow> ''-'' | Some t \<Rightarrow> if t = [] then ''-'' else t)"

definition syslog_sink_new ::
  "(nat \<Rightarrow> char) \<Rightarrow> ring \<Rightarrow> string option \<Rightarrow> string option \<Rightarrow> string option \<Rightarrow> int \<Rightarrow> bool \<Rightarrow>
   syslog_address \<Rightarrow> 'w net \<Rightarrow> 'w syslog_sink" where
  "syslog_sink_new g rb host app pid fac rfc addr n =
     (let bufsize = int_of_size (trace_message_capacity rb + 8192)
      in \<lparr>host_name = name_or_dash host, application_name = name_or_dash app,
          process_id = name_or_dash pid, rfc5424 = rfc, facility = fac, sock_present = True,
          sock_address = addr, sock = n, syslog_buffer_size = bufsize,
          syslog_buffer = map g [0..<nat bufsize]\<rparr>)"

section \<open>format_message\<close>

text \<open>\<open>(facility << 3) + severity\<close> as an \<open>int\<close>: undefined when the facility is negative or
  the shift or the sum leaves the range.\<close>

definition severity_or_debug :: "int \<Rightarrow> int" where
  "severity_or_debug sev = (if sev = SEVERITY_NOTSET then 7 else sev)"

definition priority_of :: "int \<Rightarrow> int \<Rightarrow> int" where
  "priority_of fac sev = fac * 8 + severity_or_debug sev"

definition priority_ok :: "int \<Rightarrow> int \<Rightarrow> bool" where
  "priority_ok fac sev \<longleftrightarrow> 0 \<le> fac \<and> is_c_int (fac * 8) \<and> is_c_int (priority_of fac sev)"

definition syslog_text :: "'w syslog_sink \<Rightarrow> msg_view \<Rightarrow> string" where
  "syslog_text k v = (case v of (t, sev, ts) \<Rightarrow>
     (if rfc5424 k
      then ''<'' @ fmt_d (priority_of (facility k) sev) @ ''>1 '' @ iso_time ts @ ''Z '' @
           host_name k @ '' '' @ application_name k @ '' '' @ process_id k @ '' - - '' @ t
      else ''<'' @ fmt_d (priority_of (facility k) sev) @ ''>['' @ application_name k @ '']: '' @ t))"

definition format_message :: "'w syslog_sink \<Rightarrow> trace_message \<Rightarrow> (int \<times> 'w syslog_sink) option" where
  "format_message k m = (if \<not> priority_ok (facility k) (tm_severity m) then None else do {
     t \<leftarrow> get_buffer m;
     (let text = syslog_text k (t, tm_severity m, tm_timestamp m);
          stored = snprintf_stored (size_of_int (syslog_buffer_size k)) text;
          result = snprintf_result text;
          k = k\<lparr>syslog_buffer := stored @ drop (length stored) (syslog_buffer k)\<rparr>
      in if result = syslog_buffer_size k then Some (result, k)
         else if result > 0 then (if result = INT_MAX then None else Some (result + 1, k))
         else Some (- 1, k)) })"

section \<open>process and stop\<close>

text \<open>The two attempts.  \<open>send\<close> reads \<open>size\<close> bytes of the buffer, which is undefined when the
  buffer is shorter and an attempt gets as far as \<open>send\<close>.\<close>

definition syslog_process :: "'w os \<Rightarrow> 'w syslog_sink process" where
  "syslog_process os k m = do {
     (size', k) \<leftarrow> format_message k m;
     (if size' > 0
      then (if \<not> sock_present k then None
            else if nat size' \<le> length (syslog_buffer k)
            then (let (ok, n) = send_attempts 2 (try_connect os (sock_address k))
                        (net_send os (sock_address k)) (take (nat size') (syslog_buffer k)) (sock k)
                  in Some (k\<lparr>sock := n\<rparr>))
            else (let (reached, n) = send_attempts 2 (try_connect os (sock_address k))
                        (\<lambda>b n. (True, n)) [] (sock k)
                  in if reached then None else Some (k\<lparr>sock := n\<rparr>)))
      else Some k) }"

definition syslog_stop :: "'w os \<Rightarrow> dump_env \<Rightarrow> 'w syslog_sink trace_dump \<Rightarrow> 'w syslog_sink trace_dump option" where
  "syslog_stop os env s = do {
     s' \<leftarrow> shutdown_thread (syslog_process os) env s;
     (if sock_present (sink s')
      then do { s'' \<leftarrow> process_remaining (syslog_process os) env s';
                Some (s''\<lparr>sink := (sink s'')\<lparr>sock := net_close os (sock (sink s'')), sock_present := False\<rparr>\<rparr>) }
      else Some s') }"

section \<open>What process does\<close>

definition syslog_emit :: "'w os \<Rightarrow> 'w syslog_sink \<Rightarrow> msg_view \<Rightarrow> 'w syslog_sink" where
  "syslog_emit os k v =
     (let b = syslog_text k v @ [NUL]
      in k\<lparr>syslog_buffer := take (length (syslog_buffer k)) (b @ drop (length b) (syslog_buffer k)),
           sock := snd (send_attempts 2 (try_connect os (sock_address k)) (net_send os (sock_address k))
                          b (sock k))\<rparr>)"

text \<open>The names are short enough for the 8192 bytes the buffer has beyond a message, and the
  facility can be shifted.\<close>

definition syslog_ready :: "nat \<Rightarrow> 'w syslog_sink \<Rightarrow> bool" where
  "syslog_ready c k \<longleftrightarrow> sock_present k \<and> c + 8192 < 2147483647 \<and>
     syslog_buffer_size k = int (c + 8192) \<and> length (syslog_buffer k) = c + 8192 \<and>
     length (host_name k) + length (application_name k) + length (process_id k) \<le> 8000 \<and>
     0 \<le> facility k \<and> facility k < 268435456"

text \<open>The severities such a facility can be added to: those of syslog, and everything below.\<close>

definition syslog_severity :: "msg_view \<Rightarrow> bool" where
  "syslog_severity v \<longleftrightarrow> is_c_int (fst (snd v)) \<and> fst (snd v) \<le> 7"

lemma priority_fits:
  "0 \<le> fac \<Longrightarrow> fac < 268435456 \<Longrightarrow> is_c_int sev \<Longrightarrow> sev \<le> 7 \<Longrightarrow> priority_ok fac sev"
  by (auto simp: priority_ok_def priority_of_def severity_or_debug_def is_c_int_def)

lemma priority_length:
  assumes "priority_ok f sev"
  shows "length (fmt_d (priority_of f sev)) \<le> 11"
proof -
  let ?p = "priority_of f sev"
  have "nat \<bar>?p\<bar> < 10 ^ Suc 9" using assms by (auto simp: priority_ok_def is_c_int_def)
  then show ?thesis using fmt_d_length [of ?p 9] by simp
qed

lemma syslog_text_length:
  assumes "length (host_name k) + length (application_name k) + length (process_id k) \<le> 8000" "length t \<le> c"
    and "priority_ok (facility k) sev"
  shows "length (syslog_text k (t, sev, ts)) + 1 < c + 8192" "0 < length (syslog_text k (t, sev, ts))"
  using assms(1,2) priority_length [OF assms(3)] iso_time_length [of ts]
  by (auto simp: syslog_text_def)

lemma get_buffer_length:
  assumes "tm_ok m" "get_buffer m = Some t"
  shows "int (length t) \<le> tm_capacity m"
proof -
  from assms(1) obtain cs where cs: "tm_buffer m = Heap cs" "length cs = Suc (nat (tm_capacity m))"
    "cs ! nat (tm_capacity m) = NUL" "0 < tm_capacity m" by (elim tm_okE) auto
  with assms(2) have t: "t = takeWhile (\<lambda>c. c \<noteq> NUL) cs"
    by (auto simp: get_buffer_def c_str_def split: if_splits)
  have "length t \<le> nat (tm_capacity m)"
  proof (rule ccontr)
    assume "\<not> length t \<le> nat (tm_capacity m)"
    then have "nat (tm_capacity m) < length t" by simp
    then have "t ! nat (tm_capacity m) \<in> set t" "t ! nat (tm_capacity m) = cs ! nat (tm_capacity m)"
      by (simp, simp only: t takeWhile_nth)
    with cs(3) show False by (auto simp: t dest: set_takeWhileD)
  qed
  with cs(4) show ?thesis by simp
qed

lemma syslog_process_ready:
  assumes "syslog_ready c k" "tm_ok m" "tm_capacity m = int c"
    and "syslog_severity (msg_view m)"
  shows "syslog_process os k m = Some (syslog_emit os k (msg_view m))"
proof -
  obtain t where t: "get_buffer m = Some t" using get_buffer_defined [OF assms(2)] by blast
  let ?v = "(t, tm_severity m, tm_timestamp m)"
  let ?x = "syslog_text k ?v"
  have "length t \<le> c" using get_buffer_length [OF assms(2) t] assms(3) by simp
  moreover have "length (host_name k) + length (application_name k) + length (process_id k) \<le> 8000"
    using assms(1) by (simp add: syslog_ready_def)
  moreover have pr: "priority_ok (facility k) (tm_severity m)"
    using assms(1,4) by (intro priority_fits) (simp_all add: syslog_ready_def syslog_severity_def msg_view_def)
  ultimately have len: "length ?x + 1 < c + 8192" "0 < length ?x"
    using syslog_text_length by blast+
  have c: "c + 8192 < 2147483647" "syslog_buffer_size k = int (c + 8192)" "length (syslog_buffer k) = c + 8192"
    "sock_present k" using assms(1) by (simp_all add: syslog_ready_def)
  have sz: "size_of_int (syslog_buffer_size k) = c + 8192" unfolding c(2) using c(1) by (subst size_of_int_nonneg) simp_all
  have na: "nat (int c + 8192) = c + 8192" by linarith
  have st: "snprintf_stored (c + 8192) ?x = ?x @ [NUL]" using len by (intro snprintf_stored_fits) simp
  have res: "snprintf_result ?x = int (length ?x)" using len c(1) by (simp add: snprintf_result_def)
  have "format_message k m = Some (int (length ?x) + 1,
      k\<lparr>syslog_buffer := (?x @ [NUL]) @ drop (length (?x @ [NUL])) (syslog_buffer k)\<rparr>)"
    using t len c by (simp add: format_message_def pr na st res Let_def)
  moreover have "nat (int (length ?x) + 1) = Suc (length ?x)" by simp
  moreover have v: "msg_view m = ?v" using t by (simp add: msg_view_def)
  ultimately show ?thesis using len c(3,4)
    by (simp add: syslog_process_def syslog_emit_def Let_def case_prod_unfold)
qed

lemma syslog_emit_fields [simp]:
  "host_name (syslog_emit os k v) = host_name k" "application_name (syslog_emit os k v) = application_name k"
  "process_id (syslog_emit os k v) = process_id k" "rfc5424 (syslog_emit os k v) = rfc5424 k"
  "facility (syslog_emit os k v) = facility k" "sock_present (syslog_emit os k v) = sock_present k"
  "sock_address (syslog_emit os k v) = sock_address k"
  "syslog_buffer_size (syslog_emit os k v) = syslog_buffer_size k"
  by (simp_all add: syslog_emit_def Let_def)

section \<open>A syslog dump is a sink\<close>

lemma syslog_emit_ready: "syslog_ready c k \<Longrightarrow> syslog_ready c (syslog_emit os k v)"
  by (auto simp: syslog_ready_def) (auto simp: syslog_emit_def Let_def)

interpretation syslog_dump: message_sink c "syslog_process os" "syslog_ready c" "syslog_emit os"
    syslog_severity for c os
  by unfold_locales
    (simp_all add: syslog_process_ready syslog_emit_ready syslog_severity_def overflow_view_def is_c_int_def)

text \<open>The messages a sequence of views is sent as.\<close>

definition syslog_payload :: "'w syslog_sink \<Rightarrow> msg_view \<Rightarrow> char list" where
  "syslog_payload k v = syslog_text k v @ [NUL]"

lemma syslog_text_emit [simp]: "syslog_text (syslog_emit os k v) = syslog_text k"
  by (simp add: fun_eq_iff syslog_text_def)

lemma syslog_payload_emit [simp]: "syslog_payload (syslog_emit os k v) = syslog_payload k"
  by (simp add: fun_eq_iff syslog_payload_def)

text \<open>An operating system that accepts every call, and what then is on the wire.\<close>

definition accepting :: "'w os \<Rightarrow> bool" where
  "accepting os \<longleftrightarrow> (\<forall>u ty w. fst (os_socket os u ty w) \<noteq> - 1) \<and> (\<forall>f a w. fst (os_connect os f a w) = 0) \<and>
     (\<forall>f b w. fst (os_send os f b w) = int (length b))"

lemma accepting_calls:
  assumes "accepting os"
  shows "fd (call_socket os u ty n) \<noteq> - 1"
    "fst (call_connect os a n) = 0"
    "fst (call_send os b n) = int (length b)"
  using assms by (simp_all add: accepting_def call_socket_def call_connect_def call_send_def case_prod_unfold Let_def)

lemma tcp_accepting:
  assumes "accepting os" "length b < 10 ^ 19" "net_ok n"
  obtains n' where "send_attempts 2 (tcp_try_connect os a) (tcp_send os) b n = (True, n')" "net_ok n'"
    "fd n' \<noteq> - 1" "fd n \<noteq> - 1 \<Longrightarrow> fd n' = fd n"
    "sent (calls n') = sent (calls n) @ [(fd n', size_prefix (length b)), (fd n', b)]"
proof -
  note acc = accepting_calls [OF assms(1)]
  obtain n1 where n1: "tcp_try_connect os a n = (True, n1)" "fd n \<noteq> - 1 \<longrightarrow> n1 = n"
  proof (cases "fd n = - 1")
    case True
    let ?m = "call_socket os False Sock_Stream n"
    have "tcp_try_connect os a n = (True, snd (call_connect os a ?m))"
      using True acc(1) [of False Sock_Stream n] acc(2) [of a ?m]
      by (simp add: tcp_try_connect_def Let_def case_prod_unfold)
    with True that show ?thesis by blast
  next
    case False
    with that [of n] show ?thesis by (simp add: tcp_try_connect_def)
  qed
  from tcp_socket.connect_ok [OF assms(3) n1(1)]
  have c: "net_ok n1" "fd n1 \<noteq> - 1" "sent (calls n1) = sent (calls n)" by simp_all
  let ?p = "size_prefix (length b)"
  let ?m = "snd (call_send os ?p n1)"
  have n2: "tcp_send os b n1 = (True, snd (call_send os b ?m))"
    using size_prefix_stored [OF assms(2)] acc(3) [of ?p n1] acc(3) [of b ?m]
    by (simp add: tcp_send_def Let_def case_prod_unfold)
  from tcp_socket.send_done [OF c(1,2) assms(2) n2] c n1 n2 show thesis
    by (intro that [of "snd (call_send os b ?m)"]) (simp_all add: numeral_2_eq_2)
qed

text \<open>What is logged, as the dump sees it: no longer than a message, with a severity of syslog.\<close>

definition syslog_view :: "nat \<Rightarrow> msg_view \<Rightarrow> bool" where
  "syslog_view c v \<longleftrightarrow> length (fst v) \<le> c \<and> syslog_severity v"

lemma entry_syslog_view: "syslog_severity (entry_view c e) \<Longrightarrow> syslog_view c (entry_view c e)"
  by (simp add: syslog_view_def) (simp add: entry_view_def split: prod.split)

text \<open>The names and the capacity keep every payload far below the length a prefix can count.\<close>

definition short_names :: "nat \<Rightarrow> 'w syslog_sink \<Rightarrow> bool" where
  "short_names c k \<longleftrightarrow> c + 8192 < 2147483647 \<and>
     length (host_name k) + length (application_name k) + length (process_id k) \<le> 8000 \<and>
     0 \<le> facility k \<and> facility k < 268435456"

lemma ready_short_names: "syslog_ready c k \<Longrightarrow> short_names c k"
  by (simp add: syslog_ready_def short_names_def)

lemma short_names_emit [simp]: "short_names c (syslog_emit os k v) = short_names c k"
  by (simp add: short_names_def)

lemma payload_length:
  "short_names c k \<Longrightarrow> syslog_view c v \<Longrightarrow> length (syslog_payload k v) < 10 ^ 19"
  using syslog_text_length(1) [of k "fst v" c "fst (snd v)" "snd (snd v)"]
    priority_fits [of "facility k" "fst (snd v)"]
  by (cases v) (simp add: short_names_def syslog_payload_def syslog_view_def syslog_severity_def)

lemma sock_emit: "sock (syslog_emit os k v) = snd (send_attempts 2 (try_connect os (sock_address k))
    (net_send os (sock_address k)) (syslog_payload k v) (sock k))"
  by (simp add: syslog_emit_def syslog_payload_def Let_def)

text \<open>Whatever the operating system answers, a message leaks no descriptor.\<close>

lemma emit_net_ok:
  assumes "net_ok (sock k)" "short_names c k" "syslog_view c v"
  shows "net_ok (sock (syslog_emit os k v))"
proof (cases "sock_address k")
  case (Unix_Address a)
  then have "try_connect os (sock_address k) = unix_try_connect os a"
    "net_send os (sock_address k) = unix_send os" by (simp_all add: fun_eq_iff)
  then show ?thesis using unix_socket.attempts_spec [OF assms(1) TrueI prod.collapse [symmetric]]
    by (simp add: sock_emit)
next
  case (Tcp_Address a p)
  then have "try_connect os (sock_address k) = tcp_try_connect os (tcp_address os a p)"
    "net_send os (sock_address k) = tcp_send os" by (simp_all add: fun_eq_iff)
  then show ?thesis
    using tcp_socket.attempts_spec [OF assms(1) payload_length [OF assms(2,3)] prod.collapse [symmetric]]
    by (simp add: sock_emit)
qed

lemma fold_net_ok:
  "net_ok (sock k) \<Longrightarrow> short_names c k \<Longrightarrow> list_all (syslog_view c) vs \<Longrightarrow>
   net_ok (sock (foldl (syslog_emit os) k vs))"
  by (induction vs arbitrary: k) (simp_all add: emit_net_ok)

lemma fold_emit_fields [simp]:
  "sock_present (foldl (syslog_emit os) k vs) = sock_present k"
  "sock_address (foldl (syslog_emit os) k vs) = sock_address k"
  by (induction vs arbitrary: k) simp_all

text \<open>Over an accepting system all messages go out on one connection, each with its prefix.\<close>

lemma fold_tcp:
  assumes "accepting os"
  shows "net_ok (sock k) \<Longrightarrow> short_names c k \<Longrightarrow> sock_address k = Tcp_Address a p \<Longrightarrow>
    list_all (syslog_view c) vs \<Longrightarrow>
    \<exists>f. (fd (sock k) \<noteq> - 1 \<longrightarrow> f = fd (sock k)) \<and>
      sent (calls (sock (foldl (syslog_emit os) k vs))) = sent (calls (sock k)) @
        concat (map (\<lambda>v. [(f, size_prefix (length (syslog_payload k v))), (f, syslog_payload k v)]) vs)"
proof (induction vs arbitrary: k)
  case (Cons v vs)
  have len: "length (syslog_payload k v) < 10 ^ 19" by (rule payload_length [OF Cons.prems(2)]) (use Cons.prems(4) in simp)
  have fn: "try_connect os (sock_address k) = tcp_try_connect os (tcp_address os a p)"
    "net_send os (sock_address k) = tcp_send os" using Cons.prems(3) by (simp_all add: fun_eq_iff)
  obtain n' where n': "send_attempts 2 (tcp_try_connect os (tcp_address os a p)) (tcp_send os)
      (syslog_payload k v) (sock k) = (True, n')" "net_ok n'" "fd n' \<noteq> - 1"
    "fd (sock k) \<noteq> - 1 \<longrightarrow> fd n' = fd (sock k)"
    "sent (calls n') = sent (calls (sock k)) @
       [(fd n', size_prefix (length (syslog_payload k v))), (fd n', syslog_payload k v)]"
    using tcp_accepting [OF assms len Cons.prems(1)] by metis
  let ?k = "syslog_emit os k v"
  have k: "sock ?k = n'" using n'(1) by (simp add: sock_emit fn)
  from Cons.IH [of ?k] Cons.prems k n'(2,3) have
    "sent (calls (sock (foldl (syslog_emit os) ?k vs))) = sent (calls n') @
        concat (map (\<lambda>v. [(fd n', size_prefix (length (syslog_payload k v))), (fd n', syslog_payload k v)]) vs)"
    by auto
  with n'(4,5) show ?case by (intro exI [of _ "fd n'"]) simp
qed simp

lemma net_close_sent: "sent (calls (net_close os n)) = sent (calls n)"
  by (simp add: net_close_def sent_append)

lemma name_or_dash_length: "length (name_or_dash s) \<le> max 1 (case s of None \<Rightarrow> 0 | Some t \<Rightarrow> length t)"
  by (simp add: name_or_dash_def split: option.split)

lemma new_syslog_ready:
  assumes "trace_message_capacity rb = c" "c + 8192 < 2147483647"
    and "length (name_or_dash host) + length (name_or_dash app) + length (name_or_dash pid) \<le> 8000"
    and "0 \<le> fac" "fac < 268435456"
  shows "syslog_ready c (syslog_sink_new g rb host app pid fac rfc addr n)"
proof -
  have "nat (int c + 8192) = c + 8192" by linarith
  with assms show ?thesis by (simp add: syslog_ready_def syslog_sink_new_def Let_def)
qed

text \<open>Running a syslog dump and stopping it.\<close>

lemma run_syslog:
  assumes "k \<le> 30" "67 \<le> c" "c + 8192 < 2147483647" "is_c_int (env_pid env)"
    and "ring_new g (2 ^ k) c = Some rb" "dump_fits (2 ^ k) False 0 es"
    and "syslog_ready c out0" "trace_dump_new env rb out0 = Some s"
    and sev: "list_all (\<lambda>e. syslog_severity (entry_view c e)) (logs es)"
  obtains s' where "run_dump (syslog_stop os env) (syslog_process os) env (es @ [Stop]) s = Some s'"
    "waiting (ring_buffer s') = []"
    "sink s' = (let out = foldl (syslog_emit os) out0 (map (entry_view c) (logs es))
                in out\<lparr>sock := net_close os (sock out), sock_present := False\<rparr>)"
proof -
  have c: "0 < c" "int c < INT_MAX" using assms(2,3) by simp_all
  obtain s0 where s0: "trace_dump_new env rb out0 = Some s0"
    "dump_inv (syslog_ready c) (syslog_emit os) c out0 [] False s0"
    "capacity (ring_buffer s0) = 2 ^ k" "waiting (ring_buffer s0) = []"
    using assms(1) c assms(5,7) by (rule new_dump_inv)
  then have s: "s0 = s" using assms(8) by simp
  have fits: "overflow_fits env c" using assms(4,2) by (rule overflow_fits_pid)
  have ev: "dump_fits (capacity (ring_buffer s)) False 0 es" using s0(3) s assms(6) by simp
  obtain s1 s2 s3 where run: "run_dump (syslog_stop os env) (syslog_process os) env es s = Some s1"
    "shutdown_thread (syslog_process os) env s1 = Some s2" "sink s2 = sink s1"
    "\<exists>out. sink s1 = foldl (syslog_emit os) out0 out"
    "process_remaining (syslog_process os) env s2 = Some s3" "waiting (ring_buffer s3) = []"
    "sink s3 = foldl (syslog_emit os) out0 (map (entry_view c) (logs es))"
    using s0(2)[unfolded s] fits ev s0(4)[unfolded s] sev by (rule syslog_dump.run_and_stop)
  have "sock_present (sink s2)" using run(3,4) assms(7) by (auto simp: syslog_ready_def)
  then have "run_dump (syslog_stop os env) (syslog_process os) env (es @ [Stop]) s =
      Some (s3\<lparr>sink := (sink s3)\<lparr>sock := net_close os (sock (sink s3)), sock_present := False\<rparr>\<rparr>)"
    using run(1,2,5) by (simp add: run_dump_append syslog_stop_def)
  with run(6,7) show thesis
    by (intro that [of "s3\<lparr>sink := (sink s3)\<lparr>sock := net_close os (sock (sink s3)), sock_present := False\<rparr>\<rparr>"])
      (simp_all add: Let_def)
qed

lemma concat_pairs:
  "concat (map snd (concat (map (\<lambda>v. [(f, x v), (f, y v)]) vs))) = concat (map (\<lambda>v. x v @ y v) vs)"
  by (induction vs) simp_all

section \<open>Properties\<close>

text \<open>C15: a syslog dump over TCP is complete: on a new ring (capacity at least 67) and an operating
  system that accepts every call, whatever the program logs between starting and stopping the
  dump, as long as no message is logged into a full ring, a receiver that counts octets and
  reads everything that was sent, to the end, gets exactly one message per logged message, in
  order, each the formatted text with a NUL, and nothing else; they all arrive on one
  connection, and it is closed.  The names have at most 8000 characters together, the facility
  is at least 0 and less than 2^28, and the severities are at most 7.\<close>

theorem syslog_tcp_complete:
  assumes "k \<le> 30" "67 \<le> c" "c + 8192 < 2147483647" "is_c_int (env_pid env)" "accepting os"
    and "ring_new g (2 ^ k) c = Some rb" "dump_fits (2 ^ k) False 0 es"
    and "length (name_or_dash host) + length (name_or_dash app) + length (name_or_dash pid) \<le> 8000"
    and "out0 = syslog_sink_new g' rb host app pid fac rfc (Tcp_Address a p) (net_new w)"
    and "trace_dump_new env rb out0 = Some s"
    and fac: "0 \<le> fac" "fac < 268435456"
    and sev: "list_all (\<lambda>e. syslog_severity (entry_view c e)) (logs es)"
  shows "\<exists>s' f. run_dump (syslog_stop os env) (syslog_process os) env (es @ [Stop]) s = Some s' \<and>
    (let wire = sent (calls (sock (sink s')))
     in read_stream (concat (map snd wire)) =
          Some (map (\<lambda>e. syslog_text out0 (entry_view c e) @ [NUL]) (logs es)) \<and>
        (\<forall>x \<in> set wire. fst x = f)) \<and>
    open_fds (calls (sock (sink s'))) [] = Some [] \<and> \<not> sock_present (sink s')"
proof -
  have cap: "trace_message_capacity rb = c"
    using assms(6) by (auto simp: ring_new_def bind_eq_Some_conv)
  have ready: "syslog_ready c out0" unfolding assms(9) using cap assms(3,8) fac by (rule new_syslog_ready)
  have new: "sock out0 = net_new w" "sock_address out0 = Tcp_Address a p"
    by (simp_all add: assms(9) syslog_sink_new_def Let_def)
  let ?vs = "map (entry_view c) (logs es)"
  let ?out = "foldl (syslog_emit os) out0 ?vs"
  obtain s' where s': "run_dump (syslog_stop os env) (syslog_process os) env (es @ [Stop]) s = Some s'"
    "sink s' = (let out = ?out in out\<lparr>sock := net_close os (sock out), sock_present := False\<rparr>)"
    using assms(1-4,6,7) ready assms(10) sev by (rule run_syslog)
  have short: "list_all (syslog_view c) ?vs"
    using sev by (auto simp: list_all_iff entry_syslog_view)
  have ok: "net_ok (sock out0)" by (simp add: new net_ok_new)
  note names = ready_short_names [OF ready]
  from fold_tcp [OF assms(5) ok names new(2) short] new(1) obtain f where
    f: "sent (calls (sock ?out)) = concat (map (\<lambda>v. [(f, size_prefix (length (syslog_payload out0 v))),
        (f, syslog_payload out0 v)]) ?vs)" by (auto simp: net_new_def)
  have w: "sent (calls (sock (sink s'))) = sent (calls (sock ?out))"
    by (simp add: s'(2) Let_def net_close_sent)
  have "read_stream (concat (map snd (sent (calls (sock (sink s')))))) =
      Some (map (syslog_payload out0) ?vs)"
    unfolding w f concat_pairs
    using read_stream_messages [of "map (syslog_payload out0) ?vs"] by (simp add: comp_def)
  moreover have "\<forall>x \<in> set (sent (calls (sock (sink s')))). fst x = f" unfolding w f by auto
  moreover have "open_fds (calls (sock (sink s'))) [] = Some []"
    using net_close_ok [OF fold_net_ok [OF ok names short], of os] by (simp add: s'(2) Let_def net_ok_def)
  moreover have "\<not> sock_present (sink s')" by (simp add: s'(2) Let_def)
  ultimately show ?thesis using s'(1)
    by (intro exI [of _ s'] exI [of _ f]) (simp add: Let_def syslog_payload_def comp_def)
qed


text \<open>A system without failures: descriptors count up, every call succeeds.\<close>

definition good_os :: "nat os" where
  "good_os = \<lparr>os_socket = (\<lambda>u ty w. (int w + 3, w + 1)), os_connect = (\<lambda>f a w. (0, w)),
     os_send = (\<lambda>f b w. (int (length b), w)), os_close = (\<lambda>f w. w), os_inet_addr = (\<lambda>s. 2130706433)\<rparr>"

lemma good_os_accepting: "accepting good_os"
  by (simp add: accepting_def good_os_def)

definition sample_syslog :: "syslog_address \<Rightarrow> ring \<Rightarrow> nat syslog_sink" where
  "sample_syslog a rb = syslog_sink_new (\<lambda>_. CHR ''?'') rb (Some ''host'') None (Some ''42'') 3 True a (net_new 0)"

definition sample_events :: "dump_event list" where
  "sample_events = [Start, Log (0, 0, 7, ''one''), Round, Log (86400, 0, 4, ''two'')]"

lemma sample_events_fit: "dump_fits (2 ^ 1) False 0 sample_events"
  by (simp add: sample_events_def entry_ok_def)

lemma sample_severities: "list_all (\<lambda>e. syslog_severity (entry_view 80 e)) (logs sample_events)"
  by (simp add: sample_events_def syslog_severity_def entry_view_def is_c_int_def)

lemma sample_names: "length (name_or_dash (Some ''host'')) + length (name_or_dash None) +
    length (name_or_dash (Some ''42'')) \<le> 8000" by (simp add: name_or_dash_def)

lemma sample_syslog_run:
  obtains rb s where "ring_new (\<lambda>_ _. CHR ''?'') (2 ^ 1) 80 = Some rb"
    "trace_dump_new sample_env rb (sample_syslog a rb) = Some s"
proof -
  obtain rb where rb: "ring_new (\<lambda>_ _. CHR ''?'') (2 ^ 1) 80 = Some rb" "trace_message_capacity rb = 80"
    by (rule sample_ring_80) simp
  have r: "syslog_ready 80 (sample_syslog a rb)"
    unfolding sample_syslog_def using rb(2) _ sample_names by (rule new_syslog_ready) simp_all
  obtain s where "trace_dump_new sample_env rb (sample_syslog a rb) = Some s"
    by (rule new_dump_inv [of 1 80 "\<lambda>_ _. CHR ''?''" rb "syslog_ready 80" "sample_syslog a rb" sample_env
        "syslog_emit sample_os"]) (use rb(1) r in simp_all)
  with rb(1) show thesis by (rule that)
qed

lemma sample_texts:
  "syslog_text (sample_syslog a rb) (entry_view 80 (0, 0, 7, ''one'')) =
     ''<31>1 1970-01-01T00:00:00Z host - 42 - - one''"
  "syslog_text (sample_syslog a rb) (entry_view 80 (86400, 0, 4, ''two'')) =
     ''<28>1 1970-01-02T00:00:00Z host - 42 - - two''"
proof -
  have p: "fmt_d (priority_of 3 7) = ''31''" "fmt_d (priority_of 3 4) = ''28''" by code_simp+
  then show "syslog_text (sample_syslog a rb) (entry_view 80 (0, 0, 7, ''one'')) =
      ''<31>1 1970-01-01T00:00:00Z host - 42 - - one''"
    "syslog_text (sample_syslog a rb) (entry_view 80 (86400, 0, 4, ''two'')) =
      ''<28>1 1970-01-02T00:00:00Z host - 42 - - two''"
    by (simp_all add: sample_syslog_def syslog_text_def syslog_sink_new_def Let_def name_or_dash_def
        entry_view_def iso_time_examples)
qed

theorem syslog_tcp_complete_witness:
  "\<exists>rb s s'. trace_dump_new sample_env rb (sample_syslog (Tcp_Address ''127.0.0.1'' 514) rb) = Some s \<and>
    run_dump (syslog_stop good_os sample_env) (syslog_process good_os) sample_env (sample_events @ [Stop]) s = Some s' \<and>
    read_stream (concat (map snd (sent (calls (sock (sink s')))))) = Some
      [''<31>1 1970-01-01T00:00:00Z host - 42 - - one'' @ [NUL],
       ''<28>1 1970-01-02T00:00:00Z host - 42 - - two'' @ [NUL]]"
proof -
  obtain rb s where r: "ring_new (\<lambda>_ _. CHR ''?'') (2 ^ 1) 80 = Some rb"
    "trace_dump_new sample_env rb (sample_syslog (Tcp_Address ''127.0.0.1'' 514) rb) = Some s"
    by (rule sample_syslog_run)
  have l: "logs sample_events = [(0, 0, 7, ''one''), (86400, 0, 4, ''two'')]" by (simp add: sample_events_def)
  from syslog_tcp_complete [OF _ _ _ _ good_os_accepting r(1) sample_events_fit sample_names
      sample_syslog_def r(2) _ _ sample_severities] l sample_texts r(2) show ?thesis
    by (auto simp: sample_env_def is_c_int_def Let_def numeral_2_eq_2)
qed

text \<open>C17: no descriptor leaks, whatever the operating system answers and whatever the address:
  after any run on a new ring (capacity at least 67) without overruns, stopping the syslog dump
  leaves no descriptor open; every descriptor the system gave it was closed exactly as often as
  it was given, and none was used or closed while it was not open.  The names have at most 8000
  characters together, the facility is at least 0 and less than 2^28, and the severities are at
  most 7.\<close>

theorem syslog_no_leak:
  assumes "k \<le> 30" "67 \<le> c" "c + 8192 < 2147483647" "is_c_int (env_pid env)"
    and "ring_new g (2 ^ k) c = Some rb" "dump_fits (2 ^ k) False 0 es"
    and "length (name_or_dash host) + length (name_or_dash app) + length (name_or_dash pid) \<le> 8000"
    and "trace_dump_new env rb (syslog_sink_new g' rb host app pid fac rfc addr (net_new w)) = Some s"
    and fac: "0 \<le> fac" "fac < 268435456"
    and sev: "list_all (\<lambda>e. syslog_severity (entry_view c e)) (logs es)"
  shows "\<exists>s'. run_dump (syslog_stop os env) (syslog_process os) env (es @ [Stop]) s = Some s' \<and>
    open_fds (calls (sock (sink s'))) [] = Some [] \<and> fd (sock (sink s')) = - 1 \<and>
    (\<forall>f. count_list (closed (calls (sock (sink s')))) f = count_list (opened (calls (sock (sink s')))) f)"
proof -
  let ?k = "syslog_sink_new g' rb host app pid fac rfc addr (net_new w)"
  have cap: "trace_message_capacity rb = c" using assms(5) by (auto simp: ring_new_def bind_eq_Some_conv)
  have ready: "syslog_ready c ?k" using cap assms(3,7) fac by (rule new_syslog_ready)
  let ?vs = "map (entry_view c) (logs es)"
  obtain s' where s': "run_dump (syslog_stop os env) (syslog_process os) env (es @ [Stop]) s = Some s'"
    "sink s' = (let out = foldl (syslog_emit os) ?k ?vs
                in out\<lparr>sock := net_close os (sock out), sock_present := False\<rparr>)"
    using assms(1-6) ready assms(8) sev by (rule run_syslog)
  have "list_all (syslog_view c) ?vs"
    using sev by (auto simp: list_all_iff entry_syslog_view)
  moreover have "net_ok (sock ?k)" by (simp add: syslog_sink_new_def Let_def net_ok_new)
  ultimately have "net_ok (sock (foldl (syslog_emit os) ?k ?vs))"
    using ready_short_names [OF ready] by (intro fold_net_ok)
  from net_close_ok [OF this, of os] s' show ?thesis by (auto simp: Let_def net_ok_def closed_once)
qed

theorem syslog_no_leak_witness:
  "\<exists>rb s s'. trace_dump_new sample_env rb (sample_syslog (Unix_Address ''/dev/log'') rb) = Some s \<and>
    run_dump (syslog_stop sample_os sample_env) (syslog_process sample_os) sample_env (sample_events @ [Stop]) s = Some s' \<and>
    open_fds (calls (sock (sink s'))) [] = Some []"
proof -
  obtain rb s where r: "ring_new (\<lambda>_ _. CHR ''?'') (2 ^ 1) 80 = Some rb"
    "trace_dump_new sample_env rb (sample_syslog (Unix_Address ''/dev/log'') rb) = Some s"
    by (rule sample_syslog_run)
  from syslog_no_leak [OF _ _ _ _ r(1) sample_events_fit sample_names r(2)[unfolded sample_syslog_def]
      _ _ sample_severities, of sample_os] r show ?thesis
    by (auto simp: sample_env_def is_c_int_def)
qed

text \<open>C20: which messages \<open>process\<close> may handle: over a system that accepts every call it is
  defined exactly when the priority can be computed (the facility is not negative and neither
  the shift nor the sum overflows) and the formatted text is no longer than the buffer; a longer
  one makes \<open>format_message\<close> return one more than the text's length, and \<open>send\<close> read past the
  buffer.\<close>

theorem syslog_process_defined_iff:
  assumes "accepting os" "sock_present k" "net_ok (sock k)" "get_buffer m = Some t"
    and "syslog_buffer_size k = int (length (syslog_buffer k))" "0 < length (syslog_buffer k)"
    and "length (syslog_buffer k) < 2147483647"
    and "length (syslog_text k (t, tm_severity m, tm_timestamp m)) < 2147483647"
  shows "syslog_process os k m \<noteq> None \<longleftrightarrow> priority_ok (facility k) (tm_severity m) \<and>
    length (syslog_text k (t, tm_severity m, tm_timestamp m)) \<le> length (syslog_buffer k)"
proof -
  let ?x = "syslog_text k (t, tm_severity m, tm_timestamp m)"
  let ?n = "length (syslog_buffer k)"
  have pos: "0 < length ?x" by (auto simp: syslog_text_def)
  have res: "snprintf_result ?x = int (length ?x)" using assms(8) by (simp add: snprintf_result_def)
  have sz: "size_of_int (syslog_buffer_size k) = ?n"
    unfolding assms(5) using assms(7) by (subst size_of_int_nonneg) simp_all
  let ?st = "snprintf_stored ?n ?x"
  let ?k = "k\<lparr>syslog_buffer := ?st @ drop (length ?st) (syslog_buffer k)\<rparr>"
  let ?r = "if length ?x = ?n then int ?n else int (length ?x) + 1"
  have f: "format_message k m = (if priority_ok (facility k) (tm_severity m) then Some (?r, ?k) else None)"
    using assms(4,5,8) pos sz by (simp add: format_message_def Let_def res)
  have l: "length (syslog_buffer ?k) = ?n" using snprintf_stored_length [of ?n ?x] by simp
  have big: "0 < ?r" "nat ?r \<le> ?n \<longleftrightarrow> length ?x \<le> ?n" using pos by auto
  have conn: "fst (try_connect os (sock_address k) (sock k))"
  proof (cases "sock_address k")
    case (Unix_Address a)
    then show ?thesis using accepting_calls [OF assms(1)]
      by (simp add: unix_try_connect_def try_connect_to_type_def Let_def case_prod_unfold)
  next
    case (Tcp_Address a p)
    then show ?thesis using accepting_calls [OF assms(1)]
      by (simp add: tcp_try_connect_def Let_def case_prod_unfold)
  qed
  then have "fst (send_attempts 2 (try_connect os (sock_address k)) (\<lambda>b n. (True, n)) [] (sock k))"
    by (simp add: numeral_2_eq_2 case_prod_unfold)
  then show ?thesis using big assms(2) l
    by (simp add: syslog_process_def f case_prod_unfold Let_def del: length_append)
qed

text \<open>C21: a receiver recovers facility and severity: the number between the angle brackets of the
  formatted text is a priority whose quotient and remainder by 8 are the facility and the
  severity of the message, with debug for a message that has none; in both formats.\<close>

theorem priority_roundtrip:
  assumes "0 \<le> facility k" "facility k \<le> 23" "sev = SEVERITY_NOTSET \<or> 0 \<le> sev \<and> sev \<le> 7"
  shows "let p = int (dec_val (takeWhile is_digit (tl (syslog_text k (t, sev, ts)))))
    in p div 8 = facility k \<and> p mod 8 = (if sev = SEVERITY_NOTSET then 7 else sev)"
proof -
  let ?s = "if sev = SEVERITY_NOTSET then 7 else sev"
  have s: "0 \<le> ?s" "?s \<le> 7" using assms(3) by auto
  have p: "priority_of (facility k) sev = facility k * 8 + ?s"
    by (simp add: priority_of_def severity_or_debug_def)
  have nn: "0 \<le> facility k * 8 + ?s" using assms(1) s by simp
  have d: "\<forall>x \<in> set (fmt_u n). is_digit x" for n using fmt_u_digits by blast
  have "takeWhile is_digit (fmt_u n @ CHR ''>'' # r) = fmt_u n" for n r
    using d by (subst takeWhile_append2) (auto simp: is_digit_def)
  then have "takeWhile is_digit (tl (syslog_text k (t, sev, ts))) = fmt_u (nat (facility k * 8 + ?s))"
    using nn by (auto simp: syslog_text_def p fmt_d_def)
  then show ?thesis using nn s by (simp add: Let_def)
qed

definition sample_sink :: "syslog_address \<Rightarrow> string \<Rightarrow> nat \<Rightarrow> nat syslog_sink" where
  "sample_sink a host n = \<lparr>host_name = host, application_name = ''-'', process_id = ''-'', rfc5424 = True,
     facility = 16, sock_present = True, sock_address = a, sock = net_new 0,
     syslog_buffer_size = int n, syslog_buffer = replicate n (CHR ''?'')\<rparr>"

theorem priority_roundtrip_witness:
  "let p = int (dec_val (takeWhile is_digit
       (tl (syslog_text (sample_sink (Unix_Address ''/dev/log'') ''-'' 100) (''hello'', 4, 0)))))
   in p div 8 = 16 \<and> p mod 8 = 4"
proof -
  let ?k = "sample_sink (Unix_Address ''/dev/log'') ''-'' 100"
  have "facility ?k = 16" by (simp add: sample_sink_def)
  with priority_roundtrip [of ?k 4 "''hello''" 0] show ?thesis by simp
qed

text \<open>A ring whose messages hold 20 bytes has a syslog buffer of 8212; a host name of 9000 characters
  is too long for it, one of 8150 not.\<close>

theorem syslog_process_defined_iff_witness:
  "let m = \<lparr>tm_capacity = 20, tm_buffer = Heap (''hello'' @ replicate 16 NUL), write_index = 5, limit_index = 20,
            tm_severity = 7, tm_timestamp = 0\<rparr>
   in syslog_process good_os (sample_sink (Tcp_Address ''127.0.0.1'' 514) (replicate 9000 (CHR ''h'')) 8212) m = None \<and>
      syslog_process good_os (sample_sink (Tcp_Address ''127.0.0.1'' 514) (replicate 8150 (CHR ''h'')) 8212) m \<noteq> None"
proof -
  let ?m = "\<lparr>tm_capacity = 20, tm_buffer = Heap (''hello'' @ replicate 16 NUL), write_index = 5, limit_index = 20,
            tm_severity = 7, tm_timestamp = 0\<rparr>"
  let ?k = "\<lambda>j. sample_sink (Tcp_Address ''127.0.0.1'' 514) (replicate j (CHR ''h'')) 8212"
  have b: "get_buffer ?m = Some ''hello''" by (simp add: get_buffer_def c_str_def)
  have p: "fmt_d (priority_of 16 7) = ''135''" by code_simp
  have l: "length (syslog_text (?k j) (''hello'', 7, 0)) = j + 42" for j
    by (simp add: syslog_text_def sample_sink_def p iso_time_examples)
  have f: "sock_present (?k j)" "net_ok (sock (?k j))" "length (syslog_buffer (?k j)) = 8212"
      "syslog_buffer_size (?k j) = 8212" for j
    by (simp_all add: sample_sink_def net_ok_new)
  have pr: "priority_ok (facility (?k j)) 7" for j by (intro priority_fits) (simp_all add: sample_sink_def is_c_int_def)
  have "syslog_process good_os (?k j) ?m \<noteq> None \<longleftrightarrow> j + 42 \<le> 8212" if "j < 10000" for j
    using syslog_process_defined_iff [OF good_os_accepting f(1,2) b, of j] f(3,4) l that pr [of j] by simp
  from this [of 9000] this [of 8150] show ?thesis by (simp add: Let_def)
qed

end
