(* ===== verification/Hash_Functions.thy ===== *)
theory Hash_Functions
  imports Prelude
begin

text \<open>
  The hash functions of \<open>uthash.h\<close> that \<open>HASH_FUNCTION\<close> can select (Jenkins' is the default),
  on the bytes of a key.  \<open>hashv\<close> is an \<open>unsigned\<close> and wraps; \<open>char\<close> is signed, as with gcc
  on x86, so the functions that read the key through a \<open>char*\<close> extend the sign.  The macros
  end with the bucket \<open>hashv & (num_bkts - 1)\<close>, which is \<open>hash_to_bkt\<close>.
\<close>

section \<open>The bucket of a hash value\<close>

definition hash_to_bkt :: "u32 \<Rightarrow> u32 \<Rightarrow> u32" where
  "hash_to_bkt hashv num_bkts = hashv AND (num_bkts - 1)"

lemma hash_to_bkt_mod: "unat (hash_to_bkt hashv (of_nat (2 ^ k))) = unat hashv mod 2 ^ k"
  by (simp only: hash_to_bkt_def unat_and_size_mask)

section \<open>Bernstein, SAX, FNV, one-at-a-time\<close>

definition hash_ber :: "u8 list \<Rightarrow> u32" where
  "hash_ber key = foldl (\<lambda>hashv b. (push_bit 5 hashv + hashv) + scast b) 0 key"

definition hash_sax :: "u8 list \<Rightarrow> u32" where
  "hash_sax key = foldl (\<lambda>hashv b. hashv XOR (push_bit 5 hashv + drop_bit 2 hashv + scast b)) 0 key"

text \<open>Only the first statement under the \<open>for\<close> is its body; the multiplication is done once.\<close>

definition hash_fnv :: "u8 list \<Rightarrow> u32" where
  "hash_fnv key =
     (let hashv = foldl (\<lambda>hashv b. hashv XOR scast b) 2166136261 key
      in hashv * 16777619)"

definition hash_oat :: "u8 list \<Rightarrow> u32" where
  "hash_oat key =
     (let hashv = foldl (\<lambda>hashv b.
            (let hashv = hashv + scast b;
                 hashv = hashv + push_bit 10 hashv
             in hashv XOR drop_bit 6 hashv)) 0 key;
          hashv = hashv + push_bit 3 hashv;
          hashv = hashv XOR drop_bit 11 hashv
      in hashv + push_bit 15 hashv)"

section \<open>Jenkins\<close>

text \<open>The mix is three times the same three lines with other shifts.\<close>

definition jen_round :: "nat \<Rightarrow> nat \<Rightarrow> nat \<Rightarrow> u32 \<times> u32 \<times> u32 \<Rightarrow> u32 \<times> u32 \<times> u32" where
  "jen_round r l r' = (\<lambda>(a, b, c).
     (let a = (a - b - c) XOR drop_bit r c;
          b = (b - c - a) XOR push_bit l a;
          c = (c - a - b) XOR drop_bit r' b
      in (a, b, c)))"

definition jen_mix :: "u32 \<times> u32 \<times> u32 \<Rightarrow> u32 \<times> u32 \<times> u32" where
  "jen_mix s = jen_round 3 10 15 (jen_round 12 16 5 (jen_round 13 8 13 s))"

text \<open>Byte \<open>i\<close> of the key shifted left by \<open>s\<close>.\<close>

definition byte_at :: "u8 list \<Rightarrow> nat \<Rightarrow> nat \<Rightarrow> u32" where
  "byte_at key i s = push_bit s (ucast (key ! i))"

definition word_at :: "u8 list \<Rightarrow> nat \<Rightarrow> u32" where
  "word_at key i = byte_at key i 0 + byte_at key (i + 1) 8 + byte_at key (i + 2) 16 + byte_at key (i + 3) 24"

text \<open>The loop over blocks of twelve bytes; what is left of the key, and \<open>i\<close>, \<open>j\<close>, \<open>hashv\<close>.\<close>

function jen_blocks :: "u8 list \<Rightarrow> u32 \<times> u32 \<times> u32 \<Rightarrow> u8 list \<times> u32 \<times> u32 \<times> u32" where
  "jen_blocks key (i, j, hashv) =
     (if 12 \<le> length key
      then jen_blocks (drop 12 key)
             (jen_mix (i + word_at key 0, j + word_at key 4, hashv + word_at key 8))
      else (key, i, j, hashv))"
  by auto
termination by (relation "measure (\<lambda>(key, s). length key)") auto

declare jen_blocks.simps [simp del]

text \<open>The \<open>switch\<close> falls through from case \<open>k\<close> to case 1.\<close>

definition hash_jen :: "u8 list \<Rightarrow> u32" where
  "hash_jen key =
     (let (rest, i, j, hashv) = jen_blocks key (0x9e3779b9, 0x9e3779b9, 0xfeedbeef);
          hashv = hashv + word_of_nat (length key);
          k = length rest;
          hashv = (if 11 \<le> k then hashv + byte_at rest 10 24 else hashv);
          hashv = (if 10 \<le> k then hashv + byte_at rest 9 16 else hashv);
          hashv = (if 9 \<le> k then hashv + byte_at rest 8 8 else hashv);
          j = (if 8 \<le> k then j + byte_at rest 7 24 else j);
          j = (if 7 \<le> k then j + byte_at rest 6 16 else j);
          j = (if 6 \<le> k then j + byte_at rest 5 8 else j);
          j = (if 5 \<le> k then j + byte_at rest 4 0 else j);
          i = (if 4 \<le> k then i + byte_at rest 3 24 else i);
          i = (if 3 \<le> k then i + byte_at rest 2 16 else i);
          i = (if 2 \<le> k then i + byte_at rest 1 8 else i);
          i = (if 1 \<le> k then i + byte_at rest 0 0 else i);
          (i, j, hashv) = jen_mix (i, j, hashv)
      in hashv)"

section \<open>Hsieh\<close>

definition get16bits :: "u8 list \<Rightarrow> nat \<Rightarrow> u32" where
  "get16bits key i = byte_at key (i + 1) 8 + byte_at key i 0"

function sfh_blocks :: "u8 list \<Rightarrow> u32 \<Rightarrow> u8 list \<times> u32" where
  "sfh_blocks key hashv =
     (if 4 \<le> length key
      then sfh_blocks (drop 4 key)
             (let hashv = hashv + get16bits key 0;
                  tmp = push_bit 11 (get16bits key 2) XOR hashv;
                  hashv = push_bit 16 hashv XOR tmp
              in hashv + drop_bit 11 hashv)
      else (key, hashv))"
  by auto
termination by (relation "measure (\<lambda>(key, s). length key)") auto

declare sfh_blocks.simps [simp del]

definition sfh_rest :: "u8 list \<Rightarrow> u32 \<Rightarrow> u32" where
  "sfh_rest key hashv =
     (if length key = 3
      then (let hashv = hashv + get16bits key 0;
                hashv = hashv XOR push_bit 16 hashv;
                hashv = hashv XOR byte_at key 2 18
            in hashv + drop_bit 11 hashv)
      else if length key = 2
      then (let hashv = hashv + get16bits key 0;
                hashv = hashv XOR push_bit 11 hashv
            in hashv + drop_bit 17 hashv)
      else if length key = 1
      then (let hashv = hashv + byte_at key 0 0;
                hashv = hashv XOR push_bit 10 hashv
            in hashv + drop_bit 1 hashv)
      else hashv)"

definition sfh_avalanche :: "u32 \<Rightarrow> u32" where
  "sfh_avalanche hashv =
     (let hashv = hashv XOR push_bit 3 hashv;
          hashv = hashv + drop_bit 5 hashv;
          hashv = hashv XOR push_bit 4 hashv;
          hashv = hashv + drop_bit 17 hashv;
          hashv = hashv XOR push_bit 25 hashv
      in hashv + drop_bit 6 hashv)"

definition hash_sfh :: "u8 list \<Rightarrow> u32" where
  "hash_sfh key = (let (rest, hashv) = sfh_blocks key 0xcafebabe in sfh_avalanche (sfh_rest rest hashv))"

section \<open>Murmur, on a little-endian machine\<close>

definition mur_rotl32 :: "u32 \<Rightarrow> nat \<Rightarrow> u32" where
  "mur_rotl32 x r = push_bit r x OR drop_bit (32 - r) x"

definition mur_fmix :: "u32 \<Rightarrow> u32" where
  "mur_fmix h =
     (let h = h XOR drop_bit 16 h;
          h = h * 0x85ebca6b;
          h = h XOR drop_bit 13 h;
          h = h * 0xc2b2ae35
      in h XOR drop_bit 16 h)"

definition mur_k :: "u32 \<Rightarrow> u32" where
  "mur_k k1 = mur_rotl32 (k1 * 0xcc9e2d51) 15 * 0x1b873593"

function mur_blocks :: "u8 list \<Rightarrow> u32 \<Rightarrow> u8 list \<times> u32" where
  "mur_blocks key h1 =
     (if 4 \<le> length key
      then mur_blocks (drop 4 key) (mur_rotl32 (h1 XOR mur_k (word_at key 0)) 13 * 5 + 0xe6546b64)
      else (key, h1))"
  by auto
termination by (relation "measure (\<lambda>(key, s). length key)") auto

declare mur_blocks.simps [simp del]

definition mur_tail :: "u8 list \<Rightarrow> u32 \<Rightarrow> u32" where
  "mur_tail rest h1 =
     (let k1 = (if length rest = 3 then 0 XOR byte_at rest 2 16 else 0);
          k1 = (if 2 \<le> length rest then k1 XOR byte_at rest 1 8 else k1);
          k1 = (if 1 \<le> length rest then k1 XOR byte_at rest 0 0 else k1)
      in if 1 \<le> length rest then h1 XOR mur_k k1 else h1)"

definition hash_mur :: "u8 list \<Rightarrow> u32" where
  "hash_mur key = (let (rest, h1) = mur_blocks key 0xf88D5353
     in mur_fmix (mur_tail rest h1 XOR word_of_nat (length key)))"

section \<open>What the functions do to keys\<close>

text \<open>One line of the mix, on a triple that is turned by one place.\<close>

definition jen_line :: "(u32 \<Rightarrow> u32) \<Rightarrow> u32 \<times> u32 \<times> u32 \<Rightarrow> u32 \<times> u32 \<times> u32" where
  "jen_line f = (\<lambda>(x, y, z). (y, z, (x - y - z) XOR f z))"

lemma xor_cancel_right: "(a :: u32) XOR c = b XOR c \<Longrightarrow> a = b"
  by (metis xor.assoc xor.right_neutral xor_self_eq)

lemma inj_jen_line: "inj (jen_line f)"
proof (rule injI)
  fix s t assume "jen_line f s = jen_line f t"
  then show "s = t" by (cases s, cases t) (auto simp: jen_line_def dest: xor_cancel_right)
qed

lemma inj_jen_round: "inj (jen_round r l r')"
proof -
  have "jen_round r l r' = jen_line (drop_bit r') \<circ> jen_line (push_bit l) \<circ> jen_line (drop_bit r)"
  proof
    fix s
    show "jen_round r l r' s = (jen_line (drop_bit r') \<circ> jen_line (push_bit l) \<circ> jen_line (drop_bit r)) s"
      by (cases s) (simp only: jen_round_def jen_line_def Let_def comp_def prod.case)
  qed
  then show ?thesis by (simp add: inj_compose inj_jen_line)
qed

lemma fnv_fold: "foldl (\<lambda>hashv b. hashv XOR scast b) h (key :: u8 list) = h XOR scast (foldl (XOR) 0 key)"
proof (induction key rule: rev_induct)
  case (snoc b key)
  then show ?case by (simp add: signed_xor_eq xor.assoc)
qed simp

section \<open>Properties\<close>

text \<open>The mix of Jenkins' hash loses nothing: different triples stay different, so every
  block of twelve bytes of the key still counts in the three words after it.\<close>

lemma jen_mix_injective: "inj jen_mix"
  by (rule injI) (auto simp: jen_mix_def dest!: injD [OF inj_jen_round])

text \<open>The FNV variant has at most 256 hash values, whatever the keys: the multiplication that
  should follow each byte is outside the loop, so the value depends on the exclusive or of the
  key's bytes only; in particular permuted keys always collide.\<close>

lemma fnv_256_values: "finite (range hash_fnv) \<and> card (range hash_fnv) \<le> 256"
proof -
  let ?f = "\<lambda>b :: u8. (2166136261 XOR scast b :: u32) * 16777619"
  have "range hash_fnv \<subseteq> range ?f" by (auto simp: hash_fnv_def fnv_fold)
  moreover have "finite (range ?f)" by simp
  moreover have "card (range ?f) \<le> 256"
    using card_image_le [of "UNIV :: u8 set" ?f] by (simp add: card_word)
  ultimately show ?thesis using card_mono finite_subset le_trans by (metis (no_types, lifting))
qed

end
