(* ===== verification/Murmur_Portable.thy ===== *)
theory Murmur_Portable
  imports Hash_Functions
begin

text \<open>
  \<open>HASH_MUR\<close> of \<open>uthash.h\<close> on the processors that cannot load an unaligned word: \<open>MUR_GETBLOCK\<close> puts
  it together from the two aligned words it lies in.  The macro forgets its index when the key is
  not aligned, so the blocks of such a key do not count.
\<close>

section \<open>The code\<close>

type_synonym memory = "nat \<Rightarrow> u8"

text \<open>An aligned load, on a big-endian and on a little-endian machine.\<close>

definition load32 :: "bool \<Rightarrow> memory \<Rightarrow> nat \<Rightarrow> u32" where
  "load32 big m a =
     (let b = (\<lambda>i s. push_bit s (ucast (m (a + i)) :: u32))
      in if big then b 0 24 OR b 1 16 OR b 2 8 OR b 3 0 else b 0 0 OR b 1 8 OR b 2 16 OR b 3 24)"

definition wp :: "nat \<Rightarrow> nat" where "wp p = p - p mod 4"

definition mur_three_one :: "bool \<Rightarrow> memory \<Rightarrow> nat \<Rightarrow> u32" where
  "mur_three_one big m p =
     (if big then push_bit 8 (load32 big m (wp p) AND 0x00ffffff) OR drop_bit 24 (load32 big m (wp p + 4) AND 0xff000000)
      else drop_bit 8 (load32 big m (wp p) AND 0xffffff00) OR push_bit 24 (load32 big m (wp p + 4) AND 0x000000ff))"

definition mur_two_two :: "bool \<Rightarrow> memory \<Rightarrow> nat \<Rightarrow> u32" where
  "mur_two_two big m p =
     (if big then push_bit 16 (load32 big m (wp p) AND 0x0000ffff) OR drop_bit 16 (load32 big m (wp p + 4) AND 0xffff0000)
      else drop_bit 16 (load32 big m (wp p) AND 0xffff0000) OR push_bit 16 (load32 big m (wp p + 4) AND 0x0000ffff))"

definition mur_one_three :: "bool \<Rightarrow> memory \<Rightarrow> nat \<Rightarrow> u32" where
  "mur_one_three big m p =
     (if big then push_bit 24 (load32 big m (wp p) AND 0x000000ff) OR drop_bit 8 (load32 big m (wp p + 4) AND 0xffffff00)
      else drop_bit 24 (load32 big m (wp p) AND 0xff000000) OR push_bit 8 (load32 big m (wp p + 4) AND 0x00ffffff))"

text \<open>Only the aligned case looks at \<open>i\<close>.\<close>

definition mur_getblock :: "bool \<Rightarrow> memory \<Rightarrow> nat \<Rightarrow> int \<Rightarrow> u32" where
  "mur_getblock big m p i =
     (if p mod 4 = 0 then load32 big m (nat (int p + 4 * i))
      else if p mod 4 = 1 then mur_three_one big m p
      else if p mod 4 = 2 then mur_two_two big m p
      else mur_one_three big m p)"

text \<open>The loop from \<open>i = - n\<close> up to 0.\<close>

fun mur_loop :: "bool \<Rightarrow> memory \<Rightarrow> nat \<Rightarrow> nat \<Rightarrow> u32 \<Rightarrow> u32" where
  "mur_loop big m p 0 h1 = h1"
| "mur_loop big m p (Suc n) h1 =
     (let k1 = mur_k (mur_getblock big m p (- int (Suc n)))
      in mur_loop big m p n (mur_rotl32 (h1 XOR k1) 13 * 5 + 0xe6546b64))"

definition hash_mur_portable :: "bool \<Rightarrow> memory \<Rightarrow> nat \<Rightarrow> nat \<Rightarrow> u32" where
  "hash_mur_portable big m key keylen =
     (let nblocks = keylen div 4;
          blocks = key + nblocks * 4;
          h1 = mur_loop big m blocks nblocks 0xf88D5353;
          rest = map m [blocks..<key + keylen]
      in mur_fmix (mur_tail rest h1 XOR word_of_nat keylen))"

section \<open>One block\<close>

lemma keep_high: "drop_bit k (x AND NOT (mask k)) = drop_bit k (x :: u32)"
  by (rule bit_word_eqI) (auto simp: bit_simps dest: bit_imp_le_length)

lemma keep_low: "push_bit k (x AND mask (32 - k)) = push_bit k (x :: u32)"
  by (rule bit_word_eqI) (auto simp: bit_simps)

lemma masks:
  "drop_bit 24 (x AND 0xff000000) = drop_bit 24 (x :: u32)" "push_bit 24 (x AND 0x000000ff) = push_bit 24 (x :: u32)"
  "drop_bit 16 (x AND 0xffff0000) = drop_bit 16 (x :: u32)" "push_bit 16 (x AND 0x0000ffff) = push_bit 16 (x :: u32)"
  "drop_bit 8 (x AND 0xffffff00) = drop_bit 8 (x :: u32)" "push_bit 8 (x AND 0x00ffffff) = push_bit 8 (x :: u32)"
  using keep_high [of 24 x] keep_low [of 24 x] keep_high [of 16 x] keep_low [of 16 x] keep_high [of 8 x] keep_low [of 8 x]
  by (simp_all add: mask_eq_exp_minus_1)

lemma push_byte_out: "32 \<le> k \<Longrightarrow> push_bit k (x :: u32) = 0"
  by (rule bit_word_eqI) (auto simp: bit_simps)

lemma drop_byte:
  fixes b :: u8
  assumes "s + 8 \<le> 32"
  shows "drop_bit k (push_bit s (ucast b :: u32)) =
    (if s + 8 \<le> k then 0 else if k \<le> s then push_bit (s - k) (ucast b) else drop_bit (k - s) (ucast b))"
  using assms by (intro bit_word_eqI) (auto simp: bit_simps add.commute dest: bit_imp_le_length)

lemma drop_low_byte: "8 \<le> k \<Longrightarrow> drop_bit k (ucast (b :: u8) :: u32) = 0"
  using drop_byte [of 0 k b] by simp

lemma sums:
  "w + 2 = Suc (Suc w)" "w + 3 = Suc (Suc (Suc w))" "w + 4 = Suc (Suc (Suc (Suc w)))" for w :: nat
  by simp_all

text \<open>Without an index, the block is the word at the address, on both kinds of machine.\<close>

lemma getblock_unaligned_load: "mur_getblock big m p 0 = load32 big m p"
proof -
  obtain w where p: "p = w + p mod 4" "wp p = w" by (metis add.commute le_add_diff_inverse mod_less_eq_dividend wp_def)
  note load = load32_def push_bit_or drop_bit_or drop_byte drop_low_byte push_byte_out ac_simps sums Let_def
  have shift1: "mur_three_one big m p = load32 big m (w + 1)"
    by (cases big) (simp_all only: mur_three_one_def masks p(2) if_True if_False, simp_all add: load)
  have shift2: "mur_two_two big m p = load32 big m (w + 2)"
    by (cases big) (simp_all only: mur_two_two_def masks p(2) if_True if_False, simp_all add: load)
  have shift3: "mur_one_three big m p = load32 big m (w + 3)"
    by (cases big) (simp_all only: mur_one_three_def masks p(2) if_True if_False, simp_all add: load)
  have "p mod 4 < 4" by simp
  then consider "p mod 4 = 0" | "p mod 4 = 1" "p = w + 1" | "p mod 4 = 2" "p = w + 2" | "p mod 4 = 3" "p = w + 3"
    using p(1) by linarith
  then show ?thesis using shift1 shift2 shift3 by cases (simp_all add: mur_getblock_def)
qed

section \<open>The blocks of a key\<close>

lemma upt_four: "a + 4 \<le> p \<Longrightarrow> [a..<p] = a # Suc a # Suc (Suc a) # Suc (Suc (Suc a)) # [a + 4..<p]"
  by (simp add: upt_conv_Cons sums)

lemma bytes_add:
  fixes a b c d :: u8
  shows "ucast a + push_bit 8 (ucast b) + push_bit 16 (ucast c) + push_bit 24 (ucast d) =
    (((ucast a OR push_bit 8 (ucast b)) OR push_bit 16 (ucast c)) OR push_bit 24 (ucast d) :: u32)"
proof -
  have "(ucast a :: u32) AND push_bit 8 (ucast b) = 0"
    "((ucast a :: u32) OR push_bit 8 (ucast b)) AND push_bit 16 (ucast c) = 0"
    "(((ucast a :: u32) OR push_bit 8 (ucast b)) OR push_bit 16 (ucast c)) AND push_bit 24 (ucast d) = 0"
    by (rule bit_word_eqI, auto simp: bit_simps dest: bit_imp_le_length)+
  from this [THEN disjunctive_add_eq_or] show ?thesis by (simp only:)
qed

lemma mur_loop_aligned:
  assumes "p mod 4 = 0"
  shows "4 * n \<le> p \<Longrightarrow> length r < 4 \<Longrightarrow>
    mur_blocks (map m [p - 4 * n..<p] @ r) h1 = (r, mur_loop False m p n h1)"
proof (induction n arbitrary: h1)
  case 0
  then show ?case by (subst mur_blocks.simps) simp
next
  case (Suc n)
  let ?a = "p - 4 * Suc n"
  have a: "[?a..<p] = ?a # Suc ?a # Suc (Suc ?a) # Suc (Suc (Suc ?a)) # [p - 4 * n..<p]" "nat (int p + 4 * - int (Suc n)) = ?a"
    using Suc.prems(1) upt_four [of ?a p] by simp_all
  have "word_at (map m [?a..<p] @ r) 0 = load32 False m ?a"
    unfolding a(1) by (simp add: word_at_def byte_at_def load32_def numeral_3_eq_3 bytes_add or.assoc)
  with Suc assms a show ?case by (subst mur_blocks.simps) (simp add: mur_getblock_def Let_def)
qed

text \<open>On a little-endian machine an aligned key has the hash it has on x86.\<close>

lemma hash_mur_aligned:
  assumes "key mod 4 = 0"
  shows "hash_mur_portable False m key keylen = hash_mur (map m [key..<key + keylen])"
proof -
  let ?n = "keylen div 4" let ?p = "key + keylen div 4 * 4"
  have split: "map m [key..<key + keylen] = map m [?p - 4 * ?n..<?p] @ map m [?p..<key + keylen]"
    using upt_add_eq_append [of key ?p "keylen mod 4"] by (simp add: ac_simps flip: map_append)
  have "mur_blocks (map m [key..<key + keylen]) h1 = (map m [?p..<key + keylen], mur_loop False m ?p ?n h1)" for h1
    unfolding split using assms by (intro mur_loop_aligned) (simp_all add: mod_add_right_eq mod_less_eq_dividend)
  then show ?thesis by (simp add: hash_mur_portable_def hash_mur_def Let_def)
qed

text \<open>The hash of an unaligned key does not depend on its blocks: keys of the same length that agree
  from the last aligned word before their tail on, and so in their tail and in what follows, have the
  same hash.\<close>

lemma mur_loop_unaligned:
  assumes "p mod 4 \<noteq> 0" "\<forall>a \<ge> wp p. m a = m' a"
  shows "mur_loop big m p n h1 = mur_loop big m' p n h1"
proof -
  have "mur_getblock big m p i = mur_getblock big m' p i" for i
    using assms by (simp add: mur_getblock_def mur_three_one_def mur_two_two_def mur_one_three_def load32_def Let_def)
  then show ?thesis by (induction n arbitrary: h1) simp_all
qed

lemma mur_unaligned_ignores_blocks:
  assumes "key mod 4 \<noteq> 0" "\<forall>a \<ge> wp (key + keylen div 4 * 4). m a = m' a"
  shows "hash_mur_portable big m key keylen = hash_mur_portable big m' key keylen"
proof -
  let ?p = "key + keylen div 4 * 4"
  have "wp ?p \<le> ?p" by (simp add: wp_def)
  then have "map m [?p..<key + keylen] = map m' [?p..<key + keylen]" using assms(2) by simp
  moreover have "mur_loop big m ?p n h1 = mur_loop big m' ?p n h1" for n h1
    using assms by (intro mur_loop_unaligned) simp_all
  ultimately show ?thesis by (simp only: hash_mur_portable_def Let_def)
qed

text \<open>Ten bytes at address 5: its first seven may be anything; and the same key at address 8 has
  another hash, so that it is looked for in another bucket.\<close>

definition sample_memory :: "u8 list \<Rightarrow> nat \<Rightarrow> memory" where
  "sample_memory bs key a = (if key \<le> a \<and> a < key + length bs then bs ! (a - key) else 0)"

lemma mur_unaligned_example:
  "hash_mur_portable False (sample_memory [1, 2, 3, 4, 5, 6, 7, 8, 9, 10] 5) 5 10 =
     hash_mur_portable False (sample_memory [77, 0, 0, 0, 0, 0, 0, 8, 9, 10] 5) 5 10"
  "hash_mur_portable False (sample_memory [1, 2, 3, 4, 5, 6, 7, 8, 9, 10] 5) 5 10 \<noteq>
     hash_mur_portable False (sample_memory [1, 2, 3, 4, 5, 6, 7, 8, 9, 10] 8) 8 10"
  by code_simp+

end
