(* ===== verification/Linked_Lists.thy ===== *)
theory Linked_Lists
  imports Prelude
begin

text \<open>
  Doubly linked lists as uthash keeps them, twice in every element: in insertion order
  (\<open>next\<close>, \<open>prev\<close>) and per bucket (\<open>hh_next\<close>, \<open>hh_prev\<close>).  A link map gives the pair of
  pointers of an address; NULL is \<^const>\<open>None\<close>.  The theory has the shape predicate, and what
  unlinking, appending and pushing to the front do to it.
\<close>

type_synonym links = "nat \<rightharpoonup> nat option \<times> nat option"

definition first :: "'a list \<Rightarrow> 'a option \<Rightarrow> 'a option" where
  "first xs n = (case xs of [] \<Rightarrow> n | x # _ \<Rightarrow> Some x)"

definition last_of :: "'a list \<Rightarrow> 'a option \<Rightarrow> 'a option" where
  "last_of xs p = (if xs = [] then p else Some (last xs))"

lemma first_simps [simp]: "first [] n = n" "first (x # xs) n = Some x"
  by (simp_all add: first_def)

lemma last_of_simps [simp]: "last_of [] p = p" "last_of (xs @ [x]) p = Some x" "last_of [x] p = Some x"
  "last_of (x # y # ys) p = last_of (y # ys) p"
  by (simp_all add: last_of_def)

lemma first_append: "first (xs @ ys) n = first xs (first ys n)"
  by (cases xs) simp_all

lemma first_None: "first xs None = None \<longleftrightarrow> xs = []"
  by (cases xs) simp_all

lemma first_Some: "first xs None = Some a \<longleftrightarrow> (\<exists>ys. xs = a # ys)"
  by (cases xs) auto

lemma last_of_append: "last_of (xs @ ys) p = last_of ys (last_of xs p)"
  by (simp add: last_of_def)

lemma last_of_None: "last_of xs None = None \<longleftrightarrow> xs = []"
  by (simp add: last_of_def)

text \<open>The addresses \<open>xs\<close> are linked in this order, between \<open>p\<close> and \<open>n\<close>.\<close>

fun seg :: "links \<Rightarrow> nat option \<Rightarrow> nat list \<Rightarrow> nat option \<Rightarrow> bool" where
  "seg l p [] n \<longleftrightarrow> True"
| "seg l p (a # as) n \<longleftrightarrow> l a = Some (first as n, p) \<and> seg l (Some a) as n"

abbreviation dll :: "links \<Rightarrow> nat list \<Rightarrow> bool" where
  "dll l xs \<equiv> seg l None xs None"

lemma seg_append:
  "seg l p (us @ vs) n \<longleftrightarrow> seg l p us (first vs n) \<and> seg l (last_of us p) vs n"
proof (induction us arbitrary: p)
  case (Cons a us)
  then show ?case by (cases us) (auto simp: first_append last_of_def)
qed simp

lemma seg_cong: "(\<And>a. a \<in> set xs \<Longrightarrow> l a = l' a) \<Longrightarrow> seg l p xs n \<longleftrightarrow> seg l' p xs n"
  by (induction xs arbitrary: p) auto

lemma seg_upd_other [simp]: "a \<notin> set xs \<Longrightarrow> seg (l(a \<mapsto> x)) p xs n \<longleftrightarrow> seg l p xs n"
  by (rule seg_cong) auto

lemma seg_dom: "seg l p xs n \<Longrightarrow> a \<in> set xs \<Longrightarrow> a \<in> dom l"
  by (induction xs arbitrary: p) auto

lemma seg_at: "seg l p (us @ a # vs) n \<Longrightarrow> l a = Some (first vs n, last_of us p)"
  by (simp add: seg_append)

section \<open>The pointer operations\<close>

definition set_next :: "nat \<Rightarrow> nat option \<Rightarrow> links \<Rightarrow> links option" where
  "set_next a x l = do { (y, p) \<leftarrow> l a; Some (l(a \<mapsto> (x, p))) }"

definition set_prev :: "nat \<Rightarrow> nat option \<Rightarrow> links \<Rightarrow> links option" where
  "set_prev a x l = do { (n, y) \<leftarrow> l a; Some (l(a \<mapsto> (n, x))) }"

text \<open>Assignments through a pointer that may be NULL, and are skipped then.\<close>

definition opt_next :: "nat option \<Rightarrow> nat option \<Rightarrow> links \<Rightarrow> links option" where
  "opt_next p x l = (case p of None \<Rightarrow> Some l | Some a \<Rightarrow> set_next a x l)"

definition opt_prev :: "nat option \<Rightarrow> nat option \<Rightarrow> links \<Rightarrow> links option" where
  "opt_prev p x l = (case p of None \<Rightarrow> Some l | Some a \<Rightarrow> set_prev a x l)"

text \<open>The neighbours of \<open>a\<close> are linked to each other; the node \<open>a\<close> keeps its pointers.\<close>

definition unlink :: "nat \<Rightarrow> links \<Rightarrow> links option" where
  "unlink a l = do { (n, p) \<leftarrow> l a; l \<leftarrow> opt_next p n l; (n, p) \<leftarrow> l a; opt_prev n p l }"

lemma unlink_dll:
  assumes "dll l (us @ a # vs)" "distinct (us @ a # vs)"
  obtains l' where "unlink a l = Some l'" "dll l' (us @ vs)" "\<And>b. b \<notin> set us \<union> set vs \<Longrightarrow> l' b = l b"
proof (cases us rule: rev_cases)
  case Nil
  note us = this
  show thesis
  proof (cases vs)
    case Nil
    with us assms show thesis by (intro that [of l]) (simp_all add: unlink_def opt_next_def opt_prev_def)
  next
    case (Cons v vs')
    with us assms have "l v = Some (first vs' None, Some a)" "l a = Some (Some v, None)" "v \<noteq> a"
      by (auto simp: seg_append)
    with us Cons assms show thesis
      by (intro that [of "l(v \<mapsto> (first vs' None, None))"])
        (auto simp: unlink_def opt_next_def opt_prev_def set_prev_def)
  qed
next
  case (snoc us' u)
  note us = this
  show thesis
  proof (cases vs)
    case Nil
    with us assms have "l u = Some (Some a, last_of us' None)" "l a = Some (None, Some u)" "u \<noteq> a"
      by (auto simp: seg_append)
    with us Nil assms show thesis
      by (intro that [of "l(u \<mapsto> (None, last_of us' None))"])
        (auto simp: unlink_def opt_next_def opt_prev_def set_next_def seg_append)
  next
    case (Cons v vs')
    with us assms have "l u = Some (Some a, last_of us' None)" "l a = Some (Some v, Some u)" "u \<noteq> a"
      "l v = Some (first vs' None, Some a)" "v \<noteq> a" "u \<noteq> v"
      by (auto simp: seg_append)
    with us Cons assms show thesis
      by (intro that [of "l(u \<mapsto> (Some v, last_of us' None), v \<mapsto> (first vs' None, Some u))"])
        (auto simp: unlink_def opt_next_def opt_prev_def set_next_def set_prev_def seg_append)
  qed
qed

text \<open>Append: the last node points to the new one.\<close>

lemma append_dll:
  assumes "dll l (us @ [t])" "distinct (us @ [t])" "a \<notin> set (us @ [t])"
  shows "dll (l(t \<mapsto> (Some a, last_of us None), a \<mapsto> (None, Some t))) (us @ [t, a])"
  using assms by (auto simp: seg_append)

text \<open>Push to the front of a bucket.\<close>

definition push_front :: "nat \<Rightarrow> nat option \<Rightarrow> links \<Rightarrow> links option" where
  "push_front a h l = opt_prev h (Some a) (l(a \<mapsto> (h, None)))"

lemma push_front_dll:
  assumes "dll l xs" "distinct xs" "a \<notin> set xs"
  obtains l' where "push_front a (first xs None) l = Some l'" "dll l' (a # xs)"
    "\<And>b. b \<noteq> a \<Longrightarrow> b \<notin> set xs \<Longrightarrow> l' b = l b"
proof (cases xs)
  case Nil
  then show thesis by (intro that [of "l(a \<mapsto> (None, None))"]) (simp_all add: push_front_def opt_prev_def)
next
  case (Cons x xs')
  with assms have "l x = Some (first xs' None, None)" "x \<noteq> a" by auto
  with Cons assms show thesis
    by (intro that [of "l(a \<mapsto> (Some x, None), x \<mapsto> (first xs' None, Some a))"])
      (auto simp: push_front_def opt_prev_def set_prev_def)
qed

end
