(* ===== verification/Uthash.thy ===== *)
theory Uthash
  imports Linked_Lists Hash_Functions
begin

text \<open>
  The hash table of \<open>uthash.h\<close>, at the level of its pointers: every element carries a handle
  with four links, the table has an array of buckets, and the macros patch them.  An element
  and the handle inside it are one address (\<open>ELMT_FROM_HH\<close> only shifts it); NULL is
  \<^const>\<open>None\<close>.  A macro that follows a pointer to no element, reads outside an array, divides
  by zero or does not end is \<^const>\<open>None\<close>; \<open>uthash_fatal\<close>, which ends the process when an
  allocation fails, is the outcome \<open>Fatal\<close>.
\<close>

section \<open>Elements, buckets, tables\<close>

record handle =
  el_prev :: "nat option"
  el_next :: "nat option"
  hh_prev :: "nat option"
  hh_next :: "nat option"
  hkey :: "u8 list"
  keylen :: u32
  hashv :: u32

type_synonym heap = "nat \<rightharpoonup> handle"

record bucket =
  bkt_head :: "nat option"
  bkt_count :: u32
  expand_mult :: u32

text \<open>The Bloom filter is there when \<open>HASH_BLOOM\<close> is defined: its number of index bits and the
  bit vector.\<close>

record ut_table =
  buckets :: "bucket list"
  num_buckets :: u32
  log2_num_buckets :: u32
  num_items :: u32
  tbl_tail :: "nat option"
  ideal_chain_maxlen :: u32
  nonideal_items :: u32
  ineff_expands :: u32
  noexpand :: u32
  signature :: u32
  bloom :: "(nat \<times> u8 list) option"

text \<open>The application's head pointer, the table its elements point to, and the elements.\<close>

record uthash =
  hash_head :: "nat option"
  tbl :: "ut_table option"
  heap :: heap

text \<open>What is chosen when the header is compiled, and whether an allocation of so many bytes
  succeeds.\<close>

record ut_config =
  hash_fcn :: "u8 list \<Rightarrow> u32"
  hash_bloom :: "nat option"
  malloc_ok :: "nat \<Rightarrow> bool"

datatype 'a outcome = Done 'a | Fatal

text \<open>\<open>p->field = ...\<close>, and the same guarded by \<open>if (p)\<close>.\<close>

definition modify :: "nat \<Rightarrow> (handle \<Rightarrow> handle) \<Rightarrow> heap \<Rightarrow> heap option" where
  "modify a f hp = do { h \<leftarrow> hp a; Some (hp(a \<mapsto> f h)) }"

definition opt_modify :: "nat option \<Rightarrow> (handle \<Rightarrow> handle) \<Rightarrow> heap \<Rightarrow> heap option" where
  "opt_modify p f hp = (case p of None \<Rightarrow> Some hp | Some a \<Rightarrow> modify a f hp)"

section \<open>The Bloom filter\<close>

definition bloom_bytelen :: "nat \<Rightarrow> nat" where
  "bloom_bytelen nbits = 2 ^ nbits div 8 + (if 2 ^ nbits mod 8 \<noteq> (0 :: nat) then 1 else 0)"

definition bloom_idx :: "nat \<Rightarrow> u32 \<Rightarrow> nat" where
  "bloom_idx nbits hv = unat (hv AND (of_nat (2 ^ nbits) - 1))"

definition bloom_bitset :: "u8 list \<Rightarrow> nat \<Rightarrow> u8 list option" where
  "bloom_bitset bv idx = do {
     b \<leftarrow> arr_get bv (int (idx div 8));
     arr_set bv (int (idx div 8)) (b OR push_bit (idx mod 8) 1) }"

definition bloom_bittest :: "u8 list \<Rightarrow> nat \<Rightarrow> bool option" where
  "bloom_bittest bv idx = do {
     b \<leftarrow> arr_get bv (int (idx div 8));
     Some (b AND push_bit (idx mod 8) 1 \<noteq> 0) }"

definition bloom_add :: "u32 \<Rightarrow> (nat \<times> u8 list) option \<Rightarrow> (nat \<times> u8 list) option option" where
  "bloom_add hv bl = (case bl of None \<Rightarrow> Some None
     | Some (nbits, bv) \<Rightarrow> do { bv \<leftarrow> bloom_bitset bv (bloom_idx nbits hv); Some (Some (nbits, bv)) })"

definition bloom_test :: "u32 \<Rightarrow> (nat \<times> u8 list) option \<Rightarrow> bool option" where
  "bloom_test hv bl = (case bl of None \<Rightarrow> Some True
     | Some (nbits, bv) \<Rightarrow> bloom_bittest bv (bloom_idx nbits hv))"

section \<open>HASH_FIND\<close>

text \<open>The bucket as an array index.\<close>

definition bkt_index :: "u32 \<Rightarrow> u32 \<Rightarrow> nat" where
  "bkt_index hv nb = unat (hash_to_bkt hv nb)"

text \<open>A key is the bytes at \<open>keyptr\<close>, as many as \<open>keylen\<close> says; \<open>memcmp\<close> must not read more
  than there are.\<close>

partial_function (option) find_in_bkt :: "heap \<Rightarrow> u8 list \<Rightarrow> nat option \<Rightarrow> nat option option" where
  "find_in_bkt hp k out = (case out of None \<Rightarrow> Some None
     | Some a \<Rightarrow> do {
         h \<leftarrow> hp a;
         if unat (keylen h) = length k
         then (if length (hkey h) < length k then None
               else if take (length k) (hkey h) = k then Some (Some a)
               else find_in_bkt hp k (hh_next h))
         else find_in_bkt hp k (hh_next h) })"

declare find_in_bkt.simps [code]

definition hash_find :: "ut_config \<Rightarrow> u8 list \<Rightarrow> uthash \<Rightarrow> nat option option" where
  "hash_find cfg k s = (case hash_head s of None \<Rightarrow> Some None
     | Some a \<Rightarrow> do {
         t \<leftarrow> tbl s;
         (let hv = hash_fcn cfg k; bkt = bkt_index hv (num_buckets t)
          in do {
            maybe \<leftarrow> bloom_test hv (bloom t);
            if maybe then do { b \<leftarrow> arr_get (buckets t) (int bkt); find_in_bkt (heap s) k (bkt_head b) }
            else Some None }) })"

section \<open>Buckets\<close>

definition empty_bucket :: bucket where
  "empty_bucket = \<lparr>bkt_head = None, bkt_count = 0, expand_mult = 0\<rparr>"

text \<open>The handle becomes the first of the chain that starts at \<open>h\<close>.\<close>

definition push_bkt :: "nat \<Rightarrow> nat option \<Rightarrow> heap \<Rightarrow> heap option" where
  "push_bkt a h hp = do {
     hp \<leftarrow> modify a (\<lambda>x. x\<lparr>hh_next := h, hh_prev := None\<rparr>) hp;
     opt_modify h (\<lambda>x. x\<lparr>hh_prev := Some a\<rparr>) hp }"

definition del_in_bkt :: "nat \<Rightarrow> nat \<Rightarrow> bucket list \<Rightarrow> heap \<Rightarrow> (bucket list \<times> heap) option" where
  "del_in_bkt i a bs hp = do {
     b \<leftarrow> arr_get bs (int i);
     h \<leftarrow> hp a;
     (let b = b\<lparr>bkt_count := bkt_count b - 1\<rparr>;
          b = (if bkt_head b = Some a then b\<lparr>bkt_head := hh_next h\<rparr> else b)
      in do {
        bs \<leftarrow> arr_set bs (int i) b;
        hp \<leftarrow> opt_modify (hh_prev h) (\<lambda>x. x\<lparr>hh_next := hh_next h\<rparr>) hp;
        h \<leftarrow> hp a;
        hp \<leftarrow> opt_modify (hh_next h) (\<lambda>x. x\<lparr>hh_prev := hh_prev h\<rparr>) hp;
        Some (bs, hp) }) }"

section \<open>HASH_EXPAND_BUCKETS\<close>

type_synonym rehash = "heap \<times> bucket list \<times> u32"

text \<open>The body of the inner loop, for one handle: elements, new buckets, \<open>nonideal_items\<close>.\<close>

definition rehash_one :: "u32 \<Rightarrow> u32 \<Rightarrow> nat \<Rightarrow> rehash \<Rightarrow> rehash option" where
  "rehash_one nb ideal a st = (case st of (hp, bs, nonideal) \<Rightarrow> do {
     h \<leftarrow> hp a;
     (let i = int (bkt_index (hashv h) nb)
      in do {
        b \<leftarrow> arr_get bs i;
        (b, nonideal) \<leftarrow>
          (let b = b\<lparr>bkt_count := bkt_count b + 1\<rparr>
           in if bkt_count b > ideal
              then (if ideal = 0 then None
                    else Some (b\<lparr>expand_mult := bkt_count b div ideal\<rparr>, nonideal + 1))
              else Some (b, nonideal));
        hp \<leftarrow> push_bkt a (bkt_head b) hp;
        bs \<leftarrow> arr_set bs i (b\<lparr>bkt_head := Some a\<rparr>);
        Some (hp, bs, nonideal) }) })"

partial_function (option) rehash_chain :: "u32 \<Rightarrow> u32 \<Rightarrow> nat option \<Rightarrow> rehash \<Rightarrow> rehash option" where
  "rehash_chain nb ideal thh st = (case thh of None \<Rightarrow> Some st
     | Some a \<Rightarrow> do {
         h \<leftarrow> fst st a;
         st \<leftarrow> rehash_one nb ideal a st;
         rehash_chain nb ideal (hh_next h) st })"

declare rehash_chain.simps [code]

fun rehash_all :: "bucket list \<Rightarrow> u32 \<Rightarrow> u32 \<Rightarrow> nat list \<Rightarrow> rehash \<Rightarrow> rehash option" where
  "rehash_all old nb ideal [] st = Some st"
| "rehash_all old nb ideal (i # is) st = do {
     b \<leftarrow> arr_get old (int i);
     st \<leftarrow> rehash_chain nb ideal (bkt_head b) st;
     rehash_all old nb ideal is st }"

definition ideal_maxlen :: "ut_table \<Rightarrow> u32" where
  "ideal_maxlen t = drop_bit (unat (log2_num_buckets t + 1)) (num_items t) +
     (if num_items t AND (num_buckets t * 2 - 1) \<noteq> 0 then 1 else 0)"

definition sizeof_bucket :: nat where "sizeof_bucket = 16"

definition hash_expand :: "ut_config \<Rightarrow> ut_table \<Rightarrow> heap \<Rightarrow> (ut_table \<times> heap) outcome option" where
  "hash_expand cfg t hp =
     (let nb = 2 * num_buckets t; ideal = ideal_maxlen t
      in if \<not> malloc_ok cfg (unat nb * sizeof_bucket) then Some Fatal
         else do {
           (hp, bs, nonideal) \<leftarrow> rehash_all (buckets t) nb ideal [0..<unat (num_buckets t)]
                                  (hp, replicate (unat nb) empty_bucket, 0);
           (let ineff = (if nonideal > drop_bit 1 (num_items t) then ineff_expands t + 1 else 0)
            in Some (Done (t\<lparr>buckets := bs, num_buckets := nb,
                 log2_num_buckets := log2_num_buckets t + 1, ideal_chain_maxlen := ideal,
                 nonideal_items := nonideal, ineff_expands := ineff,
                 noexpand := (if ineff > 1 then 1 else noexpand t)\<rparr>, hp))) })"

section \<open>HASH_ADD\<close>

definition add_to_bkt ::
  "ut_config \<Rightarrow> nat \<Rightarrow> nat \<Rightarrow> ut_table \<Rightarrow> heap \<Rightarrow> (ut_table \<times> heap) outcome option" where
  "add_to_bkt cfg i a t hp = do {
     b \<leftarrow> arr_get (buckets t) (int i);
     hp \<leftarrow> push_bkt a (bkt_head b) hp;
     (let b = b\<lparr>bkt_count := bkt_count b + 1, bkt_head := Some a\<rparr>
      in do {
        bs \<leftarrow> arr_set (buckets t) (int i) b;
        (let t = t\<lparr>buckets := bs\<rparr>
         in if bkt_count b \<ge> (expand_mult b + 1) * 10 \<and> noexpand t \<noteq> 1
            then hash_expand cfg t hp
            else Some (Done (t, hp))) }) }"

definition sizeof_table :: nat where "sizeof_table = 64"

definition hash_make_table :: "ut_config \<Rightarrow> nat \<Rightarrow> ut_table outcome" where
  "hash_make_table cfg a =
     (if malloc_ok cfg sizeof_table \<and> malloc_ok cfg (32 * sizeof_bucket) \<and>
         (case hash_bloom cfg of None \<Rightarrow> True | Some nbits \<Rightarrow> malloc_ok cfg (bloom_bytelen nbits))
      then Done \<lparr>buckets = replicate 32 empty_bucket, num_buckets = 32, log2_num_buckets = 5,
             num_items = 0, tbl_tail = Some a, ideal_chain_maxlen = 0, nonideal_items = 0,
             ineff_expands = 0, noexpand = 0, signature = 0xa0111fe1,
             bloom = (case hash_bloom cfg of None \<Rightarrow> None
                      | Some nbits \<Rightarrow> Some (nbits, replicate (bloom_bytelen nbits) 0))\<rparr>
      else Fatal)"

text \<open>The part of \<open>HASH_ADD_KEYPTR\<close> after the insertion order has been extended.\<close>

definition add_hashed ::
  "ut_config \<Rightarrow> nat \<Rightarrow> u8 list \<Rightarrow> nat option \<Rightarrow> ut_table \<Rightarrow> heap \<Rightarrow> uthash outcome option" where
  "add_hashed cfg a k hd_el t hp =
     (let t = t\<lparr>num_items := num_items t + 1\<rparr>;
          hv = hash_fcn cfg k
      in do {
        hp \<leftarrow> modify a (\<lambda>x. x\<lparr>hashv := hv\<rparr>) hp;
        r \<leftarrow> add_to_bkt cfg (bkt_index hv (num_buckets t)) a t hp;
        (case r of Fatal \<Rightarrow> Some Fatal
         | Done (t, hp) \<Rightarrow> do {
             bl \<leftarrow> bloom_add hv (bloom t);
             Some (Done \<lparr>hash_head = hd_el, tbl = Some (t\<lparr>bloom := bl\<rparr>), heap = hp\<rparr>) }) })"

definition hash_add :: "ut_config \<Rightarrow> nat \<Rightarrow> u8 list \<Rightarrow> uthash \<Rightarrow> uthash outcome option" where
  "hash_add cfg a k s = do {
     hp \<leftarrow> modify a (\<lambda>x. x\<lparr>el_next := None, hkey := k, keylen := of_nat (length k)\<rparr>) (heap s);
     (case hash_head s of
        None \<Rightarrow> do {
          hp \<leftarrow> modify a (\<lambda>x. x\<lparr>el_prev := None\<rparr>) hp;
          (case hash_make_table cfg a of Fatal \<Rightarrow> Some Fatal
           | Done t \<Rightarrow> add_hashed cfg a k (Some a) t hp) }
      | Some hd_el \<Rightarrow> do {
          t \<leftarrow> tbl s;
          tl_el \<leftarrow> tbl_tail t;
          hp \<leftarrow> modify tl_el (\<lambda>x. x\<lparr>el_next := Some a\<rparr>) hp;
          hp \<leftarrow> modify a (\<lambda>x. x\<lparr>el_prev := Some tl_el\<rparr>) hp;
          add_hashed cfg a k (Some hd_el) (t\<lparr>tbl_tail := Some a\<rparr>) hp }) }"

section \<open>HASH_DELETE\<close>

text \<open>The table is freed with its last element.  When the deleted element is the tail, its
  predecessor is the new tail; a tail without one would be a stray pointer.\<close>

definition hash_delete :: "nat \<Rightarrow> uthash \<Rightarrow> uthash option" where
  "hash_delete a s = do {
     hd_el \<leftarrow> hash_head s;
     t \<leftarrow> tbl s;
     h \<leftarrow> heap s a;
     (if el_prev h = None \<and> el_next h = None then Some (s\<lparr>hash_head := None, tbl := None\<rparr>)
      else do {
        tl_el \<leftarrow> (if tbl_tail t = Some a then (case el_prev h of None \<Rightarrow> None | Some p \<Rightarrow> Some (Some p))
               else Some (tbl_tail t));
        hp \<leftarrow> opt_modify (el_prev h) (\<lambda>x. x\<lparr>el_next := el_next h\<rparr>) (heap s);
        (let hd_el = (if el_prev h = None then el_next h else Some hd_el)
         in do {
           h \<leftarrow> hp a;
           hp \<leftarrow> opt_modify (el_next h) (\<lambda>x. x\<lparr>el_prev := el_prev h\<rparr>) hp;
           h \<leftarrow> hp a;
           (bs, hp) \<leftarrow> del_in_bkt (bkt_index (hashv h) (num_buckets t)) a (buckets t) hp;
           Some \<lparr>hash_head = hd_el,
                 tbl = Some (t\<lparr>tbl_tail := tl_el, buckets := bs, num_items := num_items t - 1\<rparr>),
                 heap = hp\<rparr> }) }) }"

section \<open>HASH_REPLACE, HASH_CLEAR, HASH_COUNT, HASH_ITER\<close>

definition hash_replace :: "ut_config \<Rightarrow> nat \<Rightarrow> u8 list \<Rightarrow> uthash \<Rightarrow> (nat option \<times> uthash) outcome option" where
  "hash_replace cfg a k s = do {
     replaced \<leftarrow> hash_find cfg k s;
     s \<leftarrow> (case replaced of None \<Rightarrow> Some s | Some b \<Rightarrow> hash_delete b s);
     r \<leftarrow> hash_add cfg a k s;
     Some (case r of Fatal \<Rightarrow> Fatal | Done s \<Rightarrow> Done (replaced, s)) }"

definition hash_clear :: "uthash \<Rightarrow> uthash option" where
  "hash_clear s = (case hash_head s of None \<Rightarrow> Some s
     | Some a \<Rightarrow> do { t \<leftarrow> tbl s; Some (s\<lparr>hash_head := None, tbl := None\<rparr>) })"

definition hash_count :: "uthash \<Rightarrow> u32 option" where
  "hash_count s = (case hash_head s of None \<Rightarrow> Some 0 | Some a \<Rightarrow> do { t \<leftarrow> tbl s; Some (num_items t) })"

text \<open>\<open>tmp->hh.next\<close>, or NULL when \<open>tmp\<close> is NULL.\<close>

definition iter_next :: "nat option \<Rightarrow> uthash \<Rightarrow> nat option option" where
  "iter_next p s = (case p of None \<Rightarrow> Some None | Some a \<Rightarrow> do { h \<leftarrow> heap s a; Some (el_next h) })"

partial_function (option) iter_from ::
  "(nat \<Rightarrow> uthash \<Rightarrow> uthash option) \<Rightarrow> nat option \<Rightarrow> nat option \<Rightarrow> uthash \<Rightarrow> uthash option" where
  "iter_from body el tmp s = (case el of None \<Rightarrow> Some s
     | Some a \<Rightarrow> do {
         s \<leftarrow> body a s;
         nxt \<leftarrow> iter_next tmp s;
         iter_from body tmp nxt s })"

declare iter_from.simps [code]

definition hash_iter :: "(nat \<Rightarrow> uthash \<Rightarrow> uthash option) \<Rightarrow> uthash \<Rightarrow> uthash option" where
  "hash_iter body s = do { tmp \<leftarrow> iter_next (hash_head s) s; iter_from body (hash_head s) tmp s }"

section \<open>HASH_FSCK\<close>

text \<open>The consistency check that \<open>HASH_DEBUG\<close> compiles into every change: False is \<open>HASH_OOPS\<close>.
  A walk checks the back pointers of a list and counts its elements; it is used for the chain of
  a bucket and for the insertion order.\<close>

partial_function (option) fsck_walk ::
  "(handle \<Rightarrow> nat option) \<Rightarrow> (handle \<Rightarrow> nat option) \<Rightarrow> heap \<Rightarrow> nat option \<Rightarrow> nat option \<Rightarrow> u32 \<Rightarrow> u32 option option" where
  "fsck_walk prv nxt hp p thh n = (case thh of None \<Rightarrow> Some (Some n)
     | Some a \<Rightarrow> do {
         h \<leftarrow> hp a;
         if prv h \<noteq> p then Some None
         else fsck_walk prv nxt hp (Some a) (nxt h) (n + 1) })"

declare fsck_walk.simps [code]

fun fsck_buckets :: "heap \<Rightarrow> bucket list \<Rightarrow> nat list \<Rightarrow> u32 \<Rightarrow> u32 option option" where
  "fsck_buckets hp bs [] n = Some (Some n)"
| "fsck_buckets hp bs (i # is) n = do {
     b \<leftarrow> arr_get bs (int i);
     r \<leftarrow> fsck_walk hh_prev hh_next hp None (bkt_head b) 0;
     (case r of None \<Rightarrow> Some None
      | Some c \<Rightarrow> if bkt_count b \<noteq> c then Some None else fsck_buckets hp bs is (n + c)) }"

definition hash_fsck :: "uthash \<Rightarrow> bool option" where
  "hash_fsck s = (case hash_head s of None \<Rightarrow> Some True
     | Some a \<Rightarrow> do {
         t \<leftarrow> tbl s;
         r \<leftarrow> fsck_buckets (heap s) (buckets t) [0..<unat (num_buckets t)] 0;
         (if r \<noteq> Some (num_items t) then Some False
          else do {
            r \<leftarrow> fsck_walk el_prev el_next (heap s) None (Some a) 0;
            Some (r = Some (num_items t)) }) })"

end
