(* ===== verification/Uthash_Invariant.thy ===== *)
theory Uthash_Invariant
  imports Uthash
begin

text \<open>
  What holds of a hash table between its operations, and that each operation keeps it.  The
  elements are seen as three maps: the links of the insertion order, the links of the buckets,
  and the key data, so that a pointer assignment changes one map at one place.
\<close>

section \<open>Views of the elements\<close>

definition app_links :: "heap \<Rightarrow> links" where
  "app_links hp a = map_option (\<lambda>h. (el_next h, el_prev h)) (hp a)"

definition bkt_links :: "heap \<Rightarrow> links" where
  "bkt_links hp a = map_option (\<lambda>h. (hh_next h, hh_prev h)) (hp a)"

definition key_data :: "heap \<Rightarrow> nat \<rightharpoonup> u8 list \<times> u32 \<times> u32" where
  "key_data hp a = map_option (\<lambda>h. (hkey h, keylen h, hashv h)) (hp a)"

lemma views_None [simp]:
  "app_links hp a = None \<longleftrightarrow> hp a = None" "bkt_links hp a = None \<longleftrightarrow> hp a = None"
  "key_data hp a = None \<longleftrightarrow> hp a = None"
  by (simp_all add: app_links_def bkt_links_def key_data_def)

lemma views_upd [simp]:
  "app_links (hp(a \<mapsto> h)) = (app_links hp)(a \<mapsto> (el_next h, el_prev h))"
  "bkt_links (hp(a \<mapsto> h)) = (bkt_links hp)(a \<mapsto> (hh_next h, hh_prev h))"
  "key_data (hp(a \<mapsto> h)) = (key_data hp)(a \<mapsto> (hkey h, keylen h, hashv h))"
  by (simp_all add: fun_eq_iff app_links_def bkt_links_def key_data_def)

lemma views_at:
  "hp a = Some h \<Longrightarrow> app_links hp a = Some (el_next h, el_prev h)"
  "hp a = Some h \<Longrightarrow> bkt_links hp a = Some (hh_next h, hh_prev h)"
  "hp a = Some h \<Longrightarrow> key_data hp a = Some (hkey h, keylen h, hashv h)"
  by (simp_all add: app_links_def bkt_links_def key_data_def)

lemma views_idem:
  "hp a = Some h \<Longrightarrow> (app_links hp)(a \<mapsto> (el_next h, el_prev h)) = app_links hp"
  "hp a = Some h \<Longrightarrow> (bkt_links hp)(a \<mapsto> (hh_next h, hh_prev h)) = bkt_links hp"
  "hp a = Some h \<Longrightarrow> (key_data hp)(a \<mapsto> (hkey h, keylen h, hashv h)) = key_data hp"
  by (simp_all add: views_at fun_upd_idem)

text \<open>Each guarded assignment to a link is the operation of the same name on its view.\<close>

lemma el_next_view:
  assumes "opt_next p n (app_links hp) = Some l"
  obtains hp' where "opt_modify p (\<lambda>x. x\<lparr>el_next := n\<rparr>) hp = Some hp'" "app_links hp' = l"
    "bkt_links hp' = bkt_links hp" "key_data hp' = key_data hp"
proof (cases p)
  case (Some a)
  with assms obtain h where h: "hp a = Some h"
    by (cases "hp a") (auto simp: opt_next_def set_next_def app_links_def)
  with Some assms show thesis
    by (intro that [of "hp(a \<mapsto> h\<lparr>el_next := n\<rparr>)"])
      (auto simp: opt_modify_def modify_def opt_next_def set_next_def views_at views_idem)
qed (use assms that in \<open>simp add: opt_modify_def opt_next_def\<close>)

lemma el_prev_view:
  assumes "opt_prev p n (app_links hp) = Some l"
  obtains hp' where "opt_modify p (\<lambda>x. x\<lparr>el_prev := n\<rparr>) hp = Some hp'" "app_links hp' = l"
    "bkt_links hp' = bkt_links hp" "key_data hp' = key_data hp"
proof (cases p)
  case (Some a)
  with assms obtain h where h: "hp a = Some h"
    by (cases "hp a") (auto simp: opt_prev_def set_prev_def app_links_def)
  with Some assms show thesis
    by (intro that [of "hp(a \<mapsto> h\<lparr>el_prev := n\<rparr>)"])
      (auto simp: opt_modify_def modify_def opt_prev_def set_prev_def views_at views_idem)
qed (use assms that in \<open>simp add: opt_modify_def opt_prev_def\<close>)

lemma hh_next_view:
  assumes "opt_next p n (bkt_links hp) = Some l"
  obtains hp' where "opt_modify p (\<lambda>x. x\<lparr>hh_next := n\<rparr>) hp = Some hp'" "bkt_links hp' = l"
    "app_links hp' = app_links hp" "key_data hp' = key_data hp"
proof (cases p)
  case (Some a)
  with assms obtain h where h: "hp a = Some h"
    by (cases "hp a") (auto simp: opt_next_def set_next_def bkt_links_def)
  with Some assms show thesis
    by (intro that [of "hp(a \<mapsto> h\<lparr>hh_next := n\<rparr>)"])
      (auto simp: opt_modify_def modify_def opt_next_def set_next_def views_at views_idem)
qed (use assms that in \<open>simp add: opt_modify_def opt_next_def\<close>)

lemma hh_prev_view:
  assumes "opt_prev p n (bkt_links hp) = Some l"
  obtains hp' where "opt_modify p (\<lambda>x. x\<lparr>hh_prev := n\<rparr>) hp = Some hp'" "bkt_links hp' = l"
    "app_links hp' = app_links hp" "key_data hp' = key_data hp"
proof (cases p)
  case (Some a)
  with assms obtain h where h: "hp a = Some h"
    by (cases "hp a") (auto simp: opt_prev_def set_prev_def bkt_links_def)
  with Some assms show thesis
    by (intro that [of "hp(a \<mapsto> h\<lparr>hh_prev := n\<rparr>)"])
      (auto simp: opt_modify_def modify_def opt_prev_def set_prev_def views_at views_idem)
qed (use assms that in \<open>simp add: opt_modify_def opt_prev_def\<close>)

lemma push_bkt_view:
  assumes "push_front a h (bkt_links hp) = Some l" "a \<in> dom hp"
  obtains hp' where "push_bkt a h hp = Some hp'" "bkt_links hp' = l"
    "app_links hp' = app_links hp" "key_data hp' = key_data hp"
proof -
  from assms(2) obtain x where x: "hp a = Some x" by blast
  let ?hp = "hp(a \<mapsto> x\<lparr>hh_next := h, hh_prev := None\<rparr>)"
  have "opt_prev h (Some a) (bkt_links ?hp) = Some l" using assms(1) by (simp add: push_front_def)
  then obtain hp' where "opt_modify h (\<lambda>x. x\<lparr>hh_prev := Some a\<rparr>) ?hp = Some hp'" "bkt_links hp' = l"
    "app_links hp' = app_links ?hp" "key_data hp' = key_data ?hp" by (rule hh_prev_view)
  then show thesis using x by (intro that [of hp']) (simp_all add: push_bkt_def modify_def views_idem)
qed

lemma dom_views: "key_data hp' = key_data hp \<Longrightarrow> dom hp' = dom hp"
proof -
  assume "key_data hp' = key_data hp"
  then have "\<And>a. key_data hp' a = None \<longleftrightarrow> key_data hp a = None" by simp
  then show ?thesis by (auto simp: dom_def)
qed

section \<open>The chains\<close>

text \<open>Bucket \<open>i\<close> holds the chain \<open>cs i\<close>, which has the elements of \<open>M\<close> whose slot is \<open>i\<close>.\<close>

definition chains_ok ::
  "links \<Rightarrow> (nat \<Rightarrow> nat) \<Rightarrow> nat set \<Rightarrow> nat \<Rightarrow> (nat \<Rightarrow> nat list) \<Rightarrow> bucket list \<Rightarrow> bool" where
  "chains_ok l slot M n cs bs \<longleftrightarrow> length bs = n \<and>
     (\<forall>i < n. bkt_head (bs ! i) = first (cs i) None \<and> bkt_count (bs ! i) = of_nat (length (cs i)) \<and>
        dll l (cs i) \<and> distinct (cs i) \<and> set (cs i) = {a \<in> M. slot a = i})"

lemma chains_okD:
  assumes "chains_ok l slot M n cs bs" "i < n"
  shows "bkt_head (bs ! i) = first (cs i) None" "bkt_count (bs ! i) = of_nat (length (cs i))"
    "dll l (cs i)" "distinct (cs i)" "set (cs i) = {a \<in> M. slot a = i}" "length bs = n"
  using assms by (simp_all add: chains_ok_def)

lemma chains_cong:
  assumes "chains_ok l slot M n cs bs" "\<And>a. a \<in> M \<Longrightarrow> l' a = l a" "\<And>a. a \<in> M \<Longrightarrow> slot' a = slot a"
  shows "chains_ok l' slot' M n cs bs"
proof -
  have "dll l' (cs i)" "set (cs i) = {a \<in> M. slot' a = i}" if "i < n" for i
  proof -
    have "l' a = l a" if "a \<in> set (cs i)" for a
      using that chains_okD(5) [OF assms(1) \<open>i < n\<close>] assms(2) by auto
    from seg_cong [OF this] show "dll l' (cs i)" using chains_okD(3) [OF assms(1) that] by simp
    show "set (cs i) = {a \<in> M. slot' a = i}" using chains_okD(5) [OF assms(1) that] assms(3) by auto
  qed
  with assms(1) show ?thesis by (simp add: chains_ok_def)
qed

text \<open>One chain is replaced, together with links at its old and new elements only.\<close>

lemma chains_update:
  assumes "chains_ok l slot M n cs bs" "i < n"
    and "dll l' c" "distinct c" "set c = {a \<in> M'. slot a = i}"
    and "\<And>a. a \<in> M \<Longrightarrow> slot a \<noteq> i \<Longrightarrow> l' a = l a" "\<And>j. j \<noteq> i \<Longrightarrow> {a \<in> M'. slot a = j} = {a \<in> M. slot a = j}"
    and "bkt_head b = first c None" "bkt_count b = of_nat (length c)"
  shows "chains_ok l' slot M' n (cs(i := c)) (bs[i := b])"
proof -
  have "dll l' (cs j)" if "j < n" "j \<noteq> i" for j
  proof -
    have "l' a = l a" if "a \<in> set (cs j)" for a
      using that chains_okD(5) [OF assms(1) \<open>j < n\<close>] \<open>j \<noteq> i\<close> assms(6) by auto
    from seg_cong [OF this] show ?thesis using chains_okD(3) [OF assms(1) that(1)] by simp
  qed
  then show ?thesis using assms chains_okD [OF assms(1)] by (auto simp: chains_ok_def nth_list_update)
qed

lemma chains_push:
  assumes "chains_ok l slot M n cs bs" "a \<notin> M" "slot a < n"
    and "bkt_head b = Some a" "bkt_count b = bkt_count (bs ! slot a) + 1"
  obtains l' where "push_front a (bkt_head (bs ! slot a)) l = Some l'"
    "chains_ok l' slot (insert a M) n (cs(slot a := a # cs (slot a))) (bs[slot a := b])"
    "\<And>x. x \<notin> insert a M \<Longrightarrow> l' x = l x"
proof -
  note c = chains_okD [OF assms(1,3)]
  have a: "a \<notin> set (cs (slot a))" using c(5) assms(2) by simp
  obtain l' where l': "push_front a (first (cs (slot a)) None) l = Some l'" "dll l' (a # cs (slot a))"
    "\<And>x. x \<noteq> a \<Longrightarrow> x \<notin> set (cs (slot a)) \<Longrightarrow> l' x = l x" using c(3,4) a by (rule push_front_dll) blast
  have "chains_ok l' slot (insert a M) n (cs(slot a := a # cs (slot a))) (bs[slot a := b])"
    using assms(1,3) l'(2)
  proof (rule chains_update)
    show "l' x = l x" if "x \<in> M" "slot x \<noteq> slot a" for x
      using that assms(2) c(5) by (intro l'(3)) auto
  qed (use c a assms(2,4,5) in auto)
  with l' c(1,5) show thesis by (intro that [of l']) auto
qed

lemma chains_unlink:
  assumes "chains_ok l slot M n cs bs" "a \<in> M" "slot a < n"
    and "bkt_head b = first (remove1 a (cs (slot a))) None" "bkt_count b = bkt_count (bs ! slot a) - 1"
  obtains l' where "unlink a l = Some l'"
    "chains_ok l' slot (M - {a}) n (cs(slot a := remove1 a (cs (slot a)))) (bs[slot a := b])"
    "\<And>x. x \<notin> M \<Longrightarrow> l' x = l x"
proof -
  note c = chains_okD [OF assms(1,3)]
  have "a \<in> set (cs (slot a))" using c(5) assms(2) by simp
  then obtain us vs where u: "cs (slot a) = us @ a # vs" by (meson split_list)
  with c(4) have r: "remove1 a (cs (slot a)) = us @ vs" by (simp add: remove1_append)
  obtain l' where l': "unlink a l = Some l'" "dll l' (us @ vs)" "\<And>x. x \<notin> set us \<union> set vs \<Longrightarrow> l' x = l x"
    using c(3,4) unfolding u by (rule unlink_dll) simp
  have "chains_ok l' slot (M - {a}) n (cs(slot a := us @ vs)) (bs[slot a := b])"
    using assms(1,3) l'(2)
  proof (rule chains_update)
    have s: "set us \<union> set vs \<union> {a} = {x \<in> M. slot x = slot a}" using c(5) u by auto
    show "distinct (us @ vs)" using c(4) u by simp
    show "set (us @ vs) = {x \<in> M - {a}. slot x = slot a}" using c(4) u s by auto
    show "l' x = l x" if "x \<in> M" "slot x \<noteq> slot a" for x using l'(3) s that by auto
    show "bkt_count b = word_of_nat (length (us @ vs))" using assms(5) c(2) u by simp
  qed (use assms(4) r in auto)
  moreover have "l' x = l x" if "x \<notin> M" for x using l'(3) c(5) u that by auto
  ultimately show thesis using that l'(1) r by simp
qed

section \<open>Hash values and slots\<close>

definition key_at :: "heap \<Rightarrow> nat \<Rightarrow> u8 list" where
  "key_at hp a = fst (the (key_data hp a))"

definition hash_at :: "heap \<Rightarrow> nat \<Rightarrow> u32" where
  "hash_at hp a = snd (snd (the (key_data hp a)))"

definition slot_in :: "heap \<Rightarrow> nat \<Rightarrow> nat \<Rightarrow> nat" where
  "slot_in hp k a = unat (hash_at hp a) mod 2 ^ k"

lemma at_handle: "hp a = Some h \<Longrightarrow> hash_at hp a = hashv h" "hp a = Some h \<Longrightarrow> key_at hp a = hkey h"
  by (simp_all add: hash_at_def key_at_def views_at)

lemma slot_in_less [simp]: "slot_in hp k a < 2 ^ k"
  by (simp add: slot_in_def)

lemma slot_in_bkt: "hp a = Some h \<Longrightarrow> bkt_index (hashv h) (of_nat (2 ^ k)) = slot_in hp k a"
  by (simp only: bkt_index_def slot_in_def at_handle hash_to_bkt_mod)

lemma at_cong:
  "key_data hp' a = key_data hp a \<Longrightarrow> hash_at hp' a = hash_at hp a"
  "key_data hp' a = key_data hp a \<Longrightarrow> key_at hp' a = key_at hp a"
  "key_data hp' a = key_data hp a \<Longrightarrow> slot_in hp' k a = slot_in hp k a"
  by (simp_all add: hash_at_def key_at_def slot_in_def)

lemma slot_in_cong: "key_data hp' = key_data hp \<Longrightarrow> slot_in hp' = slot_in hp"
  by (simp add: fun_eq_iff slot_in_def hash_at_def)

section \<open>Rehashing\<close>

lemma rehash_one_ok:
  assumes "chains_ok (bkt_links hp) (slot_in hp k) M (2 ^ k) cs bs" "a \<notin> M" "a \<in> dom hp" "ideal \<noteq> 0"
  obtains hp' bs' nn cs' where "rehash_one (of_nat (2 ^ k)) ideal a (hp, bs, nonideal) = Some (hp', bs', nn)"
    "chains_ok (bkt_links hp') (slot_in hp' k) (insert a M) (2 ^ k) cs' bs'"
    "app_links hp' = app_links hp" "key_data hp' = key_data hp"
    "\<And>x. x \<notin> insert a M \<Longrightarrow> bkt_links hp' x = bkt_links hp x"
proof -
  from assms(3) obtain h where h: "hp a = Some h" by blast
  let ?i = "slot_in hp k a"
  have i: "bkt_index (hashv h) (of_nat (2 ^ k)) = ?i" using h by (rule slot_in_bkt)
  note c = chains_okD [OF assms(1) slot_in_less [of hp k a]]
  let ?b1 = "(bs ! ?i)\<lparr>bkt_count := bkt_count (bs ! ?i) + 1\<rparr>"
  let ?big = "bkt_count ?b1 > ideal"
  let ?b2 = "if ?big then ?b1\<lparr>expand_mult := bkt_count ?b1 div ideal\<rparr> else ?b1"
  let ?b = "?b2\<lparr>bkt_head := Some a\<rparr>"
  have b: "bkt_head ?b = Some a" "bkt_count ?b = bkt_count (bs ! ?i) + 1" by simp_all
  obtain l where l: "push_front a (bkt_head (bs ! ?i)) (bkt_links hp) = Some l"
    "chains_ok l (slot_in hp k) (insert a M) (2 ^ k) (cs(?i := a # cs ?i)) (bs[?i := ?b])"
    "\<And>x. x \<notin> insert a M \<Longrightarrow> l x = bkt_links hp x"
    using assms(1,2) slot_in_less b by (rule chains_push) blast
  obtain hp' where hp': "push_bkt a (bkt_head (bs ! ?i)) hp = Some hp'" "bkt_links hp' = l"
    "app_links hp' = app_links hp" "key_data hp' = key_data hp"
    using l(1) assms(3) by (rule push_bkt_view)
  have "?i < length bs" using c(6) by simp
  then have "rehash_one (of_nat (2 ^ k)) ideal a (hp, bs, nonideal) =
      Some (hp', bs[?i := ?b], if ?big then nonideal + 1 else nonideal)"
    using h assms(4) hp'(1) unfolding rehash_one_def prod.case Let_def
    by (simp add: i del: of_nat_power)
  moreover have "chains_ok (bkt_links hp') (slot_in hp' k) (insert a M) (2 ^ k) (cs(?i := a # cs ?i)) (bs[?i := ?b])"
    using l(2) hp'(2) slot_in_cong [OF hp'(4)] by simp
  moreover have "\<And>x. x \<notin> insert a M \<Longrightarrow> bkt_links hp' x = bkt_links hp x" using l(3) hp'(2) by simp
  ultimately show thesis using hp'(3,4) that by blast
qed

lemma rehash_chain_ok:
  assumes "ideal \<noteq> 0"
  shows "chains_ok (bkt_links hp) (slot_in hp k) M (2 ^ k) cs bs \<Longrightarrow> seg (bkt_links hp) p xs None \<Longrightarrow>
    distinct xs \<Longrightarrow> set xs \<inter> M = {} \<Longrightarrow>
    \<exists>hp' bs' nn cs'. rehash_chain (of_nat (2 ^ k)) ideal (first xs None) (hp, bs, nonideal) = Some (hp', bs', nn) \<and>
      chains_ok (bkt_links hp') (slot_in hp' k) (set xs \<union> M) (2 ^ k) cs' bs' \<and>
      app_links hp' = app_links hp \<and> key_data hp' = key_data hp \<and>
      (\<forall>x. x \<notin> set xs \<union> M \<longrightarrow> bkt_links hp' x = bkt_links hp x)"
proof (induction xs arbitrary: hp M cs bs p nonideal)
  case Nil
  then show ?case by (auto simp: rehash_chain.simps)
next
  case (Cons a xs)
  have a: "a \<notin> M" "a \<in> dom hp" using Cons.prems(2,4) by (auto simp: bkt_links_def)
  then obtain h where h: "hp a = Some h" "hh_next h = first xs None"
    using Cons.prems(2) by (auto simp: bkt_links_def)
  obtain hp1 bs1 n1 cs1 where one:
    "rehash_one (of_nat (2 ^ k)) ideal a (hp, bs, nonideal) = Some (hp1, bs1, n1)"
    "chains_ok (bkt_links hp1) (slot_in hp1 k) (insert a M) (2 ^ k) cs1 bs1"
    "app_links hp1 = app_links hp" "key_data hp1 = key_data hp"
    "\<And>x. x \<notin> insert a M \<Longrightarrow> bkt_links hp1 x = bkt_links hp x"
    using Cons.prems(1) a assms by (rule rehash_one_ok) blast
  have d: "set xs \<inter> insert a M = {}" using Cons.prems(3,4) by auto
  have "bkt_links hp x = bkt_links hp1 x" if "x \<in> set xs" for x
    by (rule one(5) [symmetric]) (use that d in auto)
  from seg_cong [OF this] have "seg (bkt_links hp1) (Some a) xs None" using Cons.prems(2) by simp
  from Cons.IH [OF one(2) this _ d, of n1] Cons.prems(3) obtain hp' bs' nn cs' where IH:
    "rehash_chain (of_nat (2 ^ k)) ideal (first xs None) (hp1, bs1, n1) = Some (hp', bs', nn)"
    "chains_ok (bkt_links hp') (slot_in hp' k) (set xs \<union> insert a M) (2 ^ k) cs' bs'"
    "app_links hp' = app_links hp1" "key_data hp' = key_data hp1"
    "\<And>x. x \<notin> set xs \<union> insert a M \<Longrightarrow> bkt_links hp' x = bkt_links hp1 x" by auto
  have "rehash_chain (of_nat (2 ^ k)) ideal (Some a) (hp, bs, nonideal) = Some (hp', bs', nn)"
    by (subst rehash_chain.simps) (simp add: h one(1) IH(1) del: of_nat_power)
  moreover have "set (a # xs) \<union> M = set xs \<union> insert a M" by auto
  ultimately show ?case using IH one(3-5) by auto
qed

lemma rehash_all_ok:
  assumes "ideal \<noteq> 0" "chains_ok l slot X n ocs old"
  shows "chains_ok (bkt_links hp) (slot_in hp k) M (2 ^ k) cs bs \<Longrightarrow> distinct idxs \<Longrightarrow> set idxs \<subseteq> {..<n} \<Longrightarrow>
    \<forall>i \<in> set idxs. dll (bkt_links hp) (ocs i) \<and> set (ocs i) \<inter> M = {} \<Longrightarrow>
    \<exists>hp' bs' nn cs'. rehash_all old (of_nat (2 ^ k)) ideal idxs (hp, bs, nonideal) = Some (hp', bs', nn) \<and>
      chains_ok (bkt_links hp') (slot_in hp' k) ((\<Union>i \<in> set idxs. set (ocs i)) \<union> M) (2 ^ k) cs' bs' \<and>
      app_links hp' = app_links hp \<and> key_data hp' = key_data hp"
proof (induction idxs arbitrary: hp M cs bs nonideal)
  case Nil
  then show ?case by auto
next
  case (Cons i idxs)
  have i: "i < n" using Cons.prems(3) by simp
  note o = chains_okD [OF assms(2) i]
  obtain hp1 bs1 n1 cs1 where one:
    "rehash_chain (of_nat (2 ^ k)) ideal (first (ocs i) None) (hp, bs, nonideal) = Some (hp1, bs1, n1)"
    "chains_ok (bkt_links hp1) (slot_in hp1 k) (set (ocs i) \<union> M) (2 ^ k) cs1 bs1"
    "app_links hp1 = app_links hp" "key_data hp1 = key_data hp"
    "\<And>x. x \<notin> set (ocs i) \<union> M \<Longrightarrow> bkt_links hp1 x = bkt_links hp x"
    using rehash_chain_ok [OF assms(1) Cons.prems(1), of None "ocs i" nonideal] Cons.prems(4) o(4) by auto
  have rest: "dll (bkt_links hp1) (ocs j) \<and> set (ocs j) \<inter> (set (ocs i) \<union> M) = {}" if "j \<in> set idxs" for j
  proof -
    have "j < n" "j \<noteq> i" using that Cons.prems(2,3) by auto
    then have d: "set (ocs j) \<inter> (set (ocs i) \<union> M) = {}"
      using o(5) chains_okD(5) [OF assms(2) \<open>j < n\<close>] Cons.prems(4) that by fastforce
    then have "bkt_links hp1 x = bkt_links hp x" if "x \<in> set (ocs j)" for x using one(5) that by auto
    from seg_cong [OF this] d Cons.prems(4) that show ?thesis by simp
  qed
  from Cons.IH [OF one(2), of n1] Cons.prems(2,3) rest obtain hp' bs' nn cs' where IH:
    "rehash_all old (of_nat (2 ^ k)) ideal idxs (hp1, bs1, n1) = Some (hp', bs', nn)"
    "chains_ok (bkt_links hp') (slot_in hp' k) ((\<Union>i \<in> set idxs. set (ocs i)) \<union> (set (ocs i) \<union> M)) (2 ^ k) cs' bs'"
    "app_links hp' = app_links hp1" "key_data hp' = key_data hp1" by auto
  have "rehash_all old (of_nat (2 ^ k)) ideal (i # idxs) (hp, bs, nonideal) = Some (hp', bs', nn)"
    using i o(1,6) one(1) IH(1) by (simp del: of_nat_power)
  moreover have "(\<Union>j \<in> set (i # idxs). set (ocs j)) \<union> M = (\<Union>j \<in> set idxs. set (ocs j)) \<union> (set (ocs i) \<union> M)"
    by auto
  ultimately show ?case using IH one(3,4) by auto
qed

section \<open>Expansion\<close>

text \<open>No allocation of 16 GB succeeds, so the number of buckets stays below \<open>2 ^ 30\<close> and does not
  wrap.\<close>

definition memory_limited :: "ut_config \<Rightarrow> bool" where
  "memory_limited cfg \<longleftrightarrow> (\<forall>n. malloc_ok cfg n \<longrightarrow> n < 2 ^ 34)"

lemma chains_empty: "chains_ok l slot {} n (\<lambda>_. []) (replicate n empty_bucket)"
  by (simp add: chains_ok_def empty_bucket_def)

lemma chains_union:
  assumes "chains_ok l slot M n cs bs" "\<And>a. a \<in> M \<Longrightarrow> slot a < n"
  shows "(\<Union>i \<in> {..<n}. set (cs i)) = M"
  using chains_okD(5) [OF assms(1)] assms(2) by fastforce

lemma unat_pow2: "k < 32 \<Longrightarrow> unat (of_nat (2 ^ k) :: u32) = 2 ^ k"
  using power_strict_increasing [of k 32 "2 :: nat"] by (intro unat_of_nat_small) simp

lemma unat_small: "k < 30 \<Longrightarrow> unat (of_nat k :: u32) = k"
  by (rule unat_of_nat_small) simp

lemma drop_Suc_less: "unat (drop_bit (Suc k) (x :: u32)) < 2 ^ 31"
proof -
  have "unat (drop_bit (Suc k) x) = unat x div 2 ^ Suc k"
    by (simp add: unsigned_drop_bit_eq take_bit_nat_eq_self unsigned_less [of x, simplified] del: power_Suc)
      (simp only: drop_bit_eq_div)
  also have "\<dots> \<le> unat x div 2" by (rule div_le_mono2) simp_all
  also have "\<dots> < 2 ^ 31" using unsigned_less [of x, where 'a = nat] by simp
  finally show ?thesis .
qed

lemma small_plus_1: "unat (x :: u32) < 2 ^ 31 \<Longrightarrow> x + 1 \<noteq> 0"
proof
  assume d: "unat x < 2 ^ 31" and "x + 1 = 0"
  then have "unat (x + 1) = 0" by (simp only: unat_0)
  moreover have "unat (x + 1) = (unat x + 1) mod 2 ^ 32"
    by (simp only: unat_word_ariths unat_1 len_num1 len_bit0 mult_1_right) simp
  ultimately show False using d by simp
qed

lemma take_drop_zero: "x \<noteq> 0 \<Longrightarrow> take_bit n x = 0 \<Longrightarrow> drop_bit n (x :: u32) \<noteq> 0"
  using bits_ident [of n x] by auto

lemma ideal_maxlen_pos:
  assumes "num_items t \<noteq> 0" "num_buckets t = of_nat (2 ^ k)" "log2_num_buckets t = of_nat k" "k < 30"
  shows "ideal_maxlen t \<noteq> 0"
proof -
  let ?x = "num_items t"
  have "log2_num_buckets t + 1 = of_nat (Suc k)" using assms(3) by (simp add: add.commute)
  then have l: "unat (log2_num_buckets t + 1) = Suc k"
    using unat_of_nat_small [of "Suc k", where 'a = 32] assms(4) by (simp del: of_nat_Suc)
  have "num_buckets t * 2 - 1 = of_nat (2 ^ Suc k) - 1" using assms(2) by (simp add: mult.commute)
  then have m: "?x AND (num_buckets t * 2 - 1) = take_bit (Suc k) ?x"
    by (simp only: take_bit_eq_mask mask_eq_exp_minus_1 of_nat_power of_nat_numeral)
  show ?thesis
  proof (cases "take_bit (Suc k) ?x = 0")
    case True
    then have "ideal_maxlen t = drop_bit (Suc k) ?x" unfolding ideal_maxlen_def l m by (simp only: simp_thms if_False add_0_right)
    with take_drop_zero [OF assms(1) True] show ?thesis by (simp only: simp_thms)
  next
    case False
    then have "ideal_maxlen t = drop_bit (Suc k) ?x + 1" unfolding ideal_maxlen_def l m by (simp only: simp_thms if_True)
    with small_plus_1 [OF drop_Suc_less, of k ?x] show ?thesis by (simp only: simp_thms)
  qed
qed

text \<open>The bucket array of \<open>2 ^ k\<close> chains, for the elements \<open>M\<close>.\<close>

definition bkts_ok :: "heap \<Rightarrow> nat set \<Rightarrow> nat \<Rightarrow> ut_table \<Rightarrow> bool" where
  "bkts_ok hp M k t \<longleftrightarrow> k < 30 \<and> num_buckets t = of_nat (2 ^ k) \<and> log2_num_buckets t = of_nat k \<and>
     (\<exists>cs. chains_ok (bkt_links hp) (slot_in hp k) M (2 ^ k) cs (buckets t))"

text \<open>An operation on the buckets ends the process, or leaves a table for the elements \<open>M\<close> and
  nothing else changed.\<close>

definition rebuilt :: "ut_table \<Rightarrow> heap \<Rightarrow> nat set \<Rightarrow> (ut_table \<times> heap) outcome option \<Rightarrow> bool" where
  "rebuilt t hp M r \<longleftrightarrow> r = Some Fatal \<or> (\<exists>t' hp' k. r = Some (Done (t', hp')) \<and> bkts_ok hp' M k t' \<and>
     num_items t' = num_items t \<and> tbl_tail t' = tbl_tail t \<and> bloom t' = bloom t \<and>
     app_links hp' = app_links hp \<and> key_data hp' = key_data hp)"

lemma hash_expand_ok:
  assumes "memory_limited cfg" "num_items t \<noteq> 0" "bkts_ok hp M k t"
  shows "rebuilt t hp M (hash_expand cfg t hp)"
proof (cases "malloc_ok cfg (unat (2 * num_buckets t) * sizeof_bucket)")
  case False
  then show ?thesis by (simp add: rebuilt_def hash_expand_def Let_def)
next
  case True
  from assms(3) obtain cs where t: "k < 30" "num_buckets t = of_nat (2 ^ k)" "log2_num_buckets t = of_nat k"
    and ch: "chains_ok (bkt_links hp) (slot_in hp k) M (2 ^ k) cs (buckets t)" by (auto simp: bkts_ok_def)
  have nb: "2 * num_buckets t = of_nat (2 ^ Suc k)" using t(2) by simp
  then have u: "unat (2 * num_buckets t) = 2 ^ Suc k" using unat_pow2 [of "Suc k"] t(1) by simp
  have "(2 :: nat) ^ (k + 5) < 2 ^ 34"
  proof -
    have "2 ^ Suc k * 16 < (2 :: nat) ^ 34"
      using True assms(1) unfolding memory_limited_def u sizeof_bucket_def by blast
    then show ?thesis by (simp add: power_add mult.commute)
  qed
  then have k: "Suc k < 30" using power_less_imp_less_exp [of "2 :: nat" "k + 5" 34] by simp
  note ideal = ideal_maxlen_pos [OF assms(2) t(2,3,1)]
  have un: "(\<Union>i \<in> {..<2 ^ k}. set (cs i)) = M" using ch by (rule chains_union) simp
  have "\<forall>i \<in> set [0..<2 ^ k]. dll (bkt_links hp) (cs i) \<and> set (cs i) \<inter> {} = {}"
    using chains_okD(3) [OF ch] by simp
  then obtain hp' bs' nn cs' where r:
    "rehash_all (buckets t) (of_nat (2 ^ Suc k)) (ideal_maxlen t) [0..<2 ^ k]
       (hp, replicate (2 ^ Suc k) empty_bucket, 0) = Some (hp', bs', nn)"
    "chains_ok (bkt_links hp') (slot_in hp' (Suc k)) ((\<Union>i \<in> set [0..<2 ^ k]. set (cs i)) \<union> {}) (2 ^ Suc k) cs' bs'"
    "app_links hp' = app_links hp" "key_data hp' = key_data hp"
    using rehash_all_ok [OF ideal ch chains_empty, where idxs = "[0..<2 ^ k]" and k = "Suc k"
        and hp = hp and nonideal = 0] by (auto simp: lessThan_atLeast0)
  have un': "unat (num_buckets t) = 2 ^ k" using t unat_pow2 [of k] by simp
  have lg: "log2_num_buckets t + 1 = of_nat (Suc k)" using t(3) by (simp add: add.commute)
  have M: "(\<Union>i \<in> set [0..<2 ^ k]. set (cs i)) \<union> {} = M" using un by (simp add: lessThan_atLeast0)
  show ?thesis
    using True r(1,3,4) r(2)[unfolded M] k lg
      unat_pow2 [of "Suc k"]
    unfolding hash_expand_def Let_def u un' nb rebuilt_def bkts_ok_def
    by (auto simp del: of_nat_power power_Suc of_nat_Suc)
      (rule exI [of _ "Suc k"], auto simp del: of_nat_power power_Suc of_nat_Suc)
qed

end
