(* ===== verification/Uthash_Correct.thy ===== *)
theory Uthash_Correct
  imports Uthash_Invariant
begin

text \<open>
  The operations of the hash table keep its invariant and implement a list of keyed elements in
  insertion order: \<open>HASH_ADD\<close> appends, \<open>HASH_DELETE\<close> removes, \<open>HASH_FIND\<close> looks up, for every hash
  function and with or without the Bloom filter.  The contract is the locale \<open>keyed_list\<close>,
  which the caches built on the table rely on.
\<close>

section \<open>The Bloom filter\<close>

definition bloom_ok :: "heap \<Rightarrow> nat set \<Rightarrow> (nat \<times> u8 list) option \<Rightarrow> bool" where
  "bloom_ok hp M bl \<longleftrightarrow> (case bl of None \<Rightarrow> True
     | Some (n, bv) \<Rightarrow> length bv = bloom_bytelen n \<and>
         (\<forall>a \<in> M. bloom_bittest bv (bloom_idx n (hash_at hp a)) = Some True))"

lemma bloom_idx_less: "bloom_idx n hv div 8 < bloom_bytelen n"
proof -
  have "bloom_idx n hv < 2 ^ n" by (simp only: bloom_idx_def unat_and_size_mask) simp
  then show ?thesis
    by (cases "(2 :: nat) ^ n mod 8 = 0") (auto simp: bloom_bytelen_def less_mult_imp_div_less div_less_iff_less_mult mod_eq_0_iff_dvd)
qed

lemma bittest_bit: "i < length bv \<Longrightarrow> j < 8 \<Longrightarrow> bloom_bittest bv (i * 8 + j) = Some (bit (bv ! i) j)"
  by (simp add: bloom_bittest_def bit_iff_and_push_bit_not_eq_0)

lemma bittest_div: "i div 8 < length bv \<Longrightarrow> bloom_bittest bv i = Some (bit (bv ! (i div 8)) (i mod 8))"
  by (simp add: bloom_bittest_def bit_iff_and_push_bit_not_eq_0)

lemma bitset_ok:
  assumes "i div 8 < length bv"
  obtains bv' where "bloom_bitset bv i = Some bv'" "length bv' = length bv"
    "bloom_bittest bv' i = Some True"
    "\<And>j. bloom_bittest bv j = Some True \<Longrightarrow> bloom_bittest bv' j = Some True"
proof -
  let ?bv = "bv[i div 8 := bv ! (i div 8) OR push_bit (i mod 8) 1]"
  have "bit (?bv ! (i div 8)) (i mod 8)" using assms by (simp add: bit_or_iff bit_exp_iff)
  moreover have "bloom_bittest ?bv j = Some True" if "bloom_bittest bv j = Some True" for j
  proof -
    have "j div 8 < length bv" using that
      by (auto simp: bloom_bittest_def arr_get_def bind_eq_Some_conv split: if_splits)
    with that assms show ?thesis by (auto simp: bittest_div nth_list_update bit_or_iff)
  qed
  ultimately show thesis using assms
    by (intro that [of ?bv]) (simp_all add: bloom_bitset_def bittest_div)
qed

lemma bloom_add_ok:
  assumes "bloom_ok hp M bl" "hash_at hp a = hv"
  obtains bl' where "bloom_add hv bl = Some bl'" "bloom_ok hp (insert a M) bl'"
proof (cases bl)
  case None
  then show thesis by (intro that [of None]) (simp_all add: bloom_add_def bloom_ok_def)
next
  case (Some nbv)
  then obtain n bv where bl: "bl = Some (n, bv)" by (cases nbv) auto
  with assms(1) have l: "length bv = bloom_bytelen n"
    "\<And>x. x \<in> M \<Longrightarrow> bloom_bittest bv (bloom_idx n (hash_at hp x)) = Some True" by (auto simp: bloom_ok_def)
  obtain bv' where "bloom_bitset bv (bloom_idx n hv) = Some bv'" "length bv' = length bv"
    "bloom_bittest bv' (bloom_idx n hv) = Some True"
    "\<And>j. bloom_bittest bv j = Some True \<Longrightarrow> bloom_bittest bv' j = Some True"
    using bloom_idx_less [of n hv] l(1) by (auto intro: bitset_ok [of "bloom_idx n hv" bv])
  with bl l assms(2) show thesis
    by (intro that [of "Some (n, bv')"]) (auto simp: bloom_add_def bloom_ok_def)
qed

lemma bloom_test_ok:
  assumes "bloom_ok hp M bl"
  obtains b where "bloom_test hv bl = Some b" "\<And>a. a \<in> M \<Longrightarrow> hash_at hp a = hv \<Longrightarrow> b"
proof (cases bl)
  case None
  then show thesis by (intro that [of True]) (simp_all add: bloom_test_def)
next
  case (Some nbv)
  then obtain n bv where bl: "bl = Some (n, bv)" by (cases nbv) auto
  with assms have "bloom_idx n hv div 8 < length bv" using bloom_idx_less [of n hv] by (simp add: bloom_ok_def)
  then have "bloom_test hv bl = Some (bit (bv ! (bloom_idx n hv div 8)) (bloom_idx n hv mod 8))"
    by (simp add: bl bloom_test_def bittest_div)
  then show thesis
  proof (rule that)
    show "bit (bv ! (bloom_idx n hv div 8)) (bloom_idx n hv mod 8)" if "a \<in> M" "hash_at hp a = hv" for a
      using that assms \<open>bloom_test hv bl = _\<close> by (auto simp: bl bloom_test_def bloom_ok_def)
  qed
qed

lemma bloom_ok_cong:
  assumes "bloom_ok hp M bl" "N \<subseteq> M" "\<And>a. a \<in> N \<Longrightarrow> hash_at hp' a = hash_at hp a"
  shows "bloom_ok hp' N bl"
  using assms by (auto simp: bloom_ok_def split: option.splits)

section \<open>The invariant\<close>

definition key_ok :: "ut_config \<Rightarrow> heap \<Rightarrow> nat \<Rightarrow> bool" where
  "key_ok cfg hp a \<longleftrightarrow> (case key_data hp a of None \<Rightarrow> False
     | Some (k, l, v) \<Rightarrow> unat l = length k \<and> v = hash_fcn cfg k)"

definition table_ok :: "heap \<Rightarrow> nat list \<Rightarrow> ut_table \<Rightarrow> bool" where
  "table_ok hp xs t \<longleftrightarrow> num_items t = of_nat (length xs) \<and> tbl_tail t = last_of xs None \<and>
     bloom_ok hp (set xs) (bloom t) \<and>
     (\<exists>k. bkts_ok hp (set xs) k t)"

text \<open>The table holds the elements \<open>xs\<close>, in the order they were added.\<close>

definition hash_ok :: "ut_config \<Rightarrow> nat list \<Rightarrow> uthash \<Rightarrow> bool" where
  "hash_ok cfg xs s \<longleftrightarrow> distinct xs \<and> length xs < 2 ^ 32 \<and> hash_head s = first xs None \<and>
     dll (app_links (heap s)) xs \<and> (\<forall>a \<in> set xs. key_ok cfg (heap s) a) \<and>
     (if xs = [] then tbl s = None else \<exists>t. tbl s = Some t \<and> table_ok (heap s) xs t)"

lemma key_okD:
  assumes "key_ok cfg hp a"
  obtains h where "hp a = Some h" "unat (keylen h) = length (hkey h)" "hashv h = hash_fcn cfg (hkey h)"
    "key_at hp a = hkey h"
  using assms by (cases "hp a") (auto simp: key_ok_def key_data_def key_at_def)

lemma hash_at_key: "key_ok cfg hp a \<Longrightarrow> hash_at hp a = hash_fcn cfg (key_at hp a)"
  by (auto simp: key_ok_def hash_at_def key_at_def split: option.splits)

lemma hash_ok_empty: "hash_head s = None \<Longrightarrow> tbl s = None \<Longrightarrow> hash_ok cfg [] s"
  by (simp add: hash_ok_def)

section \<open>HASH_FIND\<close>

lemma find_in_bkt_ok:
  "seg (bkt_links hp) p xs None \<Longrightarrow> \<forall>a \<in> set xs. key_ok cfg hp a \<Longrightarrow>
   find_in_bkt hp k (first xs None) = Some (List.find (\<lambda>a. key_at hp a = k) xs)"
proof (induction xs arbitrary: p)
  case Nil
  then show ?case by (simp add: find_in_bkt.simps)
next
  case (Cons a xs)
  from Cons.prems(2) obtain h where h: "hp a = Some h" "unat (keylen h) = length (hkey h)" "key_at hp a = hkey h"
    by (auto elim: key_okD)
  have n: "hh_next h = first xs None" using Cons.prems(1) h(1) by (auto simp: bkt_links_def)
  have "find_in_bkt hp k (first xs None) = Some (List.find (\<lambda>a. key_at hp a = k) xs)"
    using Cons by auto
  then show ?case by (subst find_in_bkt.simps) (auto simp: h n)
qed

lemma hash_find_ok:
  assumes "hash_ok cfg xs s"
  obtains r where "hash_find cfg k s = Some r"
    "r = None \<Longrightarrow> \<forall>a \<in> set xs. key_at (heap s) a \<noteq> k"
    "\<And>a. r = Some a \<Longrightarrow> a \<in> set xs \<and> key_at (heap s) a = k"
proof (cases "xs = []")
  case True
  with assms show thesis by (intro that [of None]) (simp_all add: hash_ok_def hash_find_def)
next
  case False
  let ?hp = "heap s"
  from assms False obtain a ys where xs: "xs = a # ys" and hd_el: "hash_head s = Some a"
    by (cases xs) (auto simp: hash_ok_def)
  from assms False obtain t where t: "tbl s = Some t" "table_ok ?hp xs t" by (auto simp: hash_ok_def)
  then obtain j cs where tk: "num_buckets t = of_nat (2 ^ j)" "bloom_ok ?hp (set xs) (bloom t)"
    "chains_ok (bkt_links ?hp) (slot_in ?hp j) (set xs) (2 ^ j) cs (buckets t)" by (auto simp: table_ok_def bkts_ok_def)
  let ?hv = "hash_fcn cfg k"
  let ?i = "bkt_index ?hv (num_buckets t)"
  have i: "?i = unat ?hv mod 2 ^ j" by (simp only: bkt_index_def tk(1) hash_to_bkt_mod)
  then have less: "?i < 2 ^ j" by simp
  note c = chains_okD [OF tk(3) less]
  obtain b where b: "bloom_test ?hv (bloom t) = Some b" "\<And>a. a \<in> set xs \<Longrightarrow> hash_at ?hp a = ?hv \<Longrightarrow> b"
    using tk(2) by (rule bloom_test_ok) blast
  have keys: "\<forall>a \<in> set (cs ?i). key_ok cfg ?hp a" "\<forall>a \<in> set xs. key_ok cfg ?hp a"
    using c(5) assms by (auto simp: hash_ok_def)
  have "slot_in ?hp j a = ?i" "hash_at ?hp a = ?hv" if "a \<in> set xs" "key_at ?hp a = k" for a
    using that keys(2) hash_at_key [of cfg ?hp a] i by (auto simp: slot_in_def)
  then have there: "b \<and> a \<in> set (cs ?i)" if "a \<in> set xs" "key_at ?hp a = k" for a
    using that b(2) c(5) by auto
  have "hash_find cfg k s = Some (if b then List.find (\<lambda>a. key_at ?hp a = k) (cs ?i) else None)"
    using find_in_bkt_ok [OF c(3) keys(1), of k] less b(1) c(1,6)
    by (simp add: hash_find_def hd_el t(1) Let_def)
  then show thesis
  proof (rule that)
    show "\<forall>a \<in> set xs. key_at ?hp a \<noteq> k" if "(if b then List.find (\<lambda>a. key_at ?hp a = k) (cs ?i) else None) = None"
      using that there by (auto simp: find_None_iff split: if_splits)
    show "a \<in> set xs \<and> key_at ?hp a = k"
      if "(if b then List.find (\<lambda>a. key_at ?hp a = k) (cs ?i) else None) = Some a" for a
      using that c(5) by (auto simp: find_Some_iff split: if_splits)
  qed
qed

section \<open>HASH_ADD\<close>

lemma modify_ok: "hp a = Some h \<Longrightarrow> modify a f hp = Some (hp(a \<mapsto> f h))"
  by (simp add: modify_def)

lemma add_to_bkt_ok:
  assumes "memory_limited cfg" "num_items t \<noteq> 0" "bkts_ok hp M k t" "a \<notin> M" "a \<in> dom hp"
  shows "rebuilt t hp (insert a M) (add_to_bkt cfg (slot_in hp k a) a t hp)"
proof -
  from assms(3) obtain cs where t: "k < 30" "num_buckets t = of_nat (2 ^ k)" "log2_num_buckets t = of_nat k"
    and ch: "chains_ok (bkt_links hp) (slot_in hp k) M (2 ^ k) cs (buckets t)" by (auto simp: bkts_ok_def)
  let ?i = "slot_in hp k a"
  note c = chains_okD [OF ch slot_in_less [of hp k a]]
  let ?b = "(buckets t ! ?i)\<lparr>bkt_count := bkt_count (buckets t ! ?i) + 1, bkt_head := Some a\<rparr>"
  have b: "bkt_head ?b = Some a" "bkt_count ?b = bkt_count (buckets t ! ?i) + 1" by simp_all
  obtain l where l: "push_front a (bkt_head (buckets t ! ?i)) (bkt_links hp) = Some l"
    "chains_ok l (slot_in hp k) (insert a M) (2 ^ k) (cs(?i := a # cs ?i)) ((buckets t)[?i := ?b])"
    using ch assms(4) slot_in_less b by (rule chains_push) blast
  obtain hp1 where hp1: "push_bkt a (bkt_head (buckets t ! ?i)) hp = Some hp1" "bkt_links hp1 = l"
    "app_links hp1 = app_links hp" "key_data hp1 = key_data hp"
    using l(1) assms(5) by (rule push_bkt_view)
  let ?t = "t\<lparr>buckets := (buckets t)[?i := ?b]\<rparr>"
  have ok: "bkts_ok hp1 (insert a M) k ?t" "num_items ?t \<noteq> 0"
    using l(2) hp1(2) slot_in_cong [OF hp1(4)] t assms(2) by (auto simp: bkts_ok_def)
  have "rebuilt ?t hp1 (insert a M) (hash_expand cfg ?t hp1)" using assms(1) ok(2,1) by (rule hash_expand_ok)
  moreover have "rebuilt ?t hp1 (insert a M) (Some (Done (?t, hp1)))" using ok by (auto simp: rebuilt_def)
  moreover have "add_to_bkt cfg ?i a t hp \<in> {hash_expand cfg ?t hp1, Some (Done (?t, hp1))}"
    using c(6) hp1(1) by (simp add: add_to_bkt_def Let_def)
  ultimately have "rebuilt ?t hp1 (insert a M) (add_to_bkt cfg ?i a t hp)" by auto
  then show ?thesis using hp1(3,4) by (simp add: rebuilt_def)
qed

lemma add_hashed_ok:
  assumes "memory_limited cfg" "a \<notin> set xs" "hp a = Some h" "length xs + 1 < 2 ^ 32"
    "num_items t = of_nat (length xs)" "tbl_tail t = Some a" "bloom_ok hp (set xs) (bloom t)"
    "bkts_ok hp (set xs) k t"
  shows "add_hashed cfg a ky hd_el t hp = Some Fatal \<or>
    (\<exists>t' hp'. add_hashed cfg a ky hd_el t hp = Some (Done \<lparr>hash_head = hd_el, tbl = Some t', heap = hp'\<rparr>) \<and>
       table_ok hp' (xs @ [a]) t' \<and> app_links hp' = app_links hp \<and>
       key_data hp' = (key_data hp)(a \<mapsto> (hkey h, keylen h, hash_fcn cfg ky)))"
proof -
  let ?hv = "hash_fcn cfg ky"
  let ?hp = "hp(a \<mapsto> h\<lparr>hashv := ?hv\<rparr>)"
  let ?t = "t\<lparr>num_items := num_items t + 1\<rparr>"
  let ?new = "insert a (set xs)"
  have v: "app_links ?hp = app_links hp" "bkt_links ?hp = bkt_links hp" using assms(3) by (simp_all add: views_idem)
  have same: "key_data ?hp x = key_data hp x" if "x \<in> set xs" for x using that assms(2) by auto
  have n: "num_items ?t = of_nat (length xs + 1)" using assms(5) by (simp add: add.commute)
  then have "unat (num_items ?t) = length xs + 1"
    using unat_of_nat_small [of "length xs + 1", where 'a = 32] assms(4) by (simp only: len_num1 len_bit0) simp
  then have n0: "num_items ?t \<noteq> 0" by (metis add_is_0 one_neq_zero unat_0)
  from assms(8) obtain cs where k: "k < 30" "num_buckets t = of_nat (2 ^ k)" "log2_num_buckets t = of_nat k"
    and ch: "chains_ok (bkt_links hp) (slot_in hp k) (set xs) (2 ^ k) cs (buckets t)" by (auto simp: bkts_ok_def)
  have "chains_ok (bkt_links ?hp) (slot_in ?hp k) (set xs) (2 ^ k) cs (buckets t)"
    using ch by (rule chains_cong) (simp only: v(2), rule at_cong(3), rule same)
  with k have ok: "bkts_ok ?hp (set xs) k ?t" unfolding bkts_ok_def by (auto simp del: of_nat_power)
  have i: "bkt_index ?hv (num_buckets ?t) = slot_in ?hp k a"
    using slot_in_bkt [of ?hp a "h\<lparr>hashv := ?hv\<rparr>" k] k(2) by simp
  have bl1: "bloom_ok ?hp (set xs) (bloom ?t)"
    using bloom_ok_cong [OF assms(7) subset_refl at_cong(1) [OF same]] by simp
  have bl: "bloom_ok ?hp (set xs) (bloom ?t)" "hash_at ?hp a = ?hv"
    using bl1 by (simp_all add: hash_at_def)
  have "rebuilt ?t ?hp ?new (add_to_bkt cfg (slot_in ?hp k a) a ?t ?hp)"
    using assms(1) n0 ok assms(2) by (rule add_to_bkt_ok) simp
  then consider "add_to_bkt cfg (slot_in ?hp k a) a ?t ?hp = Some Fatal"
    | t' hp' j where "add_to_bkt cfg (slot_in ?hp k a) a ?t ?hp = Some (Done (t', hp'))" "bkts_ok hp' ?new j t'"
       "num_items t' = num_items ?t" "tbl_tail t' = tbl_tail ?t" "bloom t' = bloom ?t"
       "app_links hp' = app_links ?hp" "key_data hp' = key_data ?hp" unfolding rebuilt_def by blast
  then show ?thesis
  proof cases
    case 1
    then show ?thesis using i assms(3) by (simp add: add_hashed_def Let_def modify_ok)
  next
    case (2 t' hp' j)
    obtain bl' where b: "bloom_add ?hv (bloom ?t) = Some bl'" "bloom_ok ?hp ?new bl'"
      using bl by (rule bloom_add_ok)
    have "bloom_ok hp' ?new bl'" using b(2) by (rule bloom_ok_cong) (use 2(7) at_cong(1) in auto)
    then have "table_ok hp' (xs @ [a]) (t'\<lparr>bloom := bl'\<rparr>)"
      using 2(2-4) n assms(6) unfolding table_ok_def bkts_ok_def
      by (simp add: last_of_def del: of_nat_power of_nat_add of_nat_Suc) blast
    moreover have "add_hashed cfg a ky hd_el t hp = Some (Done \<lparr>hash_head = hd_el, tbl = Some (t'\<lparr>bloom := bl'\<rparr>), heap = hp'\<rparr>)"
      using i assms(3) 2(1,5) b(1) by (simp add: add_hashed_def Let_def modify_ok)
    moreover have "key_data hp' = (key_data hp)(a \<mapsto> (hkey h, keylen h, ?hv))" using 2(7) by simp
    ultimately show ?thesis using 2(6) v(1) by auto
  qed
qed

lemma bkts_ok_cong:
  assumes "bkts_ok hp M k t" "\<And>a. a \<in> M \<Longrightarrow> bkt_links hp' a = bkt_links hp a"
    "\<And>a. a \<in> M \<Longrightarrow> key_data hp' a = key_data hp a"
    "buckets t' = buckets t" "num_buckets t' = num_buckets t" "log2_num_buckets t' = log2_num_buckets t"
  shows "bkts_ok hp' M k t'"
proof -
  from assms(1) obtain cs where k: "k < 30" "num_buckets t = of_nat (2 ^ k)" "log2_num_buckets t = of_nat k"
    and ch: "chains_ok (bkt_links hp) (slot_in hp k) M (2 ^ k) cs (buckets t)" by (auto simp: bkts_ok_def)
  have "chains_ok (bkt_links hp') (slot_in hp' k) M (2 ^ k) cs (buckets t)"
    using ch by (rule chains_cong) (rule assms(2), assumption, rule at_cong(3), rule assms(3))
  with k assms(4-6) show ?thesis by (auto simp: bkts_ok_def simp del: of_nat_power)
qed

lemma key_ok_cong: "key_data hp' a = key_data hp a \<Longrightarrow> key_ok cfg hp' a = key_ok cfg hp a"
  by (simp add: key_ok_def)

lemma make_table_ok:
  assumes "hash_make_table cfg a = Done t"
  shows "num_items t = 0" "tbl_tail t = Some a" "bloom_ok hp {} (bloom t)" "bkts_ok hp {} 5 t"
proof -
  have "chains_ok (bkt_links hp) (slot_in hp 5) {} (2 ^ 5) (\<lambda>_. []) (replicate 32 empty_bucket)"
    using chains_empty [of "bkt_links hp" "slot_in hp 5" 32] by simp
  with assms show "bkts_ok hp {} 5 t"
    by (auto simp: hash_make_table_def bkts_ok_def split: if_splits)
qed (use assms in \<open>auto simp: hash_make_table_def bloom_ok_def split: if_splits option.splits\<close>)

text \<open>The last part of an insertion, after the order of insertion has been extended.\<close>

lemma add_hashed_invariant:
  assumes "memory_limited cfg" "distinct (xs @ [a])" "hp a = Some h" "length xs + 1 < 2 ^ 32" "length ky < 2 ^ 32"
    "num_items t = of_nat (length xs)" "tbl_tail t = Some a" "bloom_ok hp (set xs) (bloom t)"
    "bkts_ok hp (set xs) k t" "dll (app_links hp) (xs @ [a])" "\<forall>x \<in> set xs. key_ok cfg hp x"
    "hkey h = ky" "keylen h = of_nat (length ky)" "hd_el = first (xs @ [a]) None"
  shows "add_hashed cfg a ky hd_el t hp = Some Fatal \<or>
    (\<exists>s'. add_hashed cfg a ky hd_el t hp = Some (Done s') \<and> hash_ok cfg (xs @ [a]) s' \<and>
       key_at (heap s') a = ky \<and> (\<forall>x. x \<noteq> a \<longrightarrow> key_data (heap s') x = key_data hp x))"
proof -
  have a: "a \<notin> set xs" using assms(2) by simp
  from add_hashed_ok [OF assms(1) a assms(3,4,6-9), of ky hd_el] show ?thesis
  proof
    assume "\<exists>t' hp'. add_hashed cfg a ky hd_el t hp = Some (Done \<lparr>hash_head = hd_el, tbl = Some t', heap = hp'\<rparr>) \<and>
       table_ok hp' (xs @ [a]) t' \<and> app_links hp' = app_links hp \<and>
       key_data hp' = (key_data hp)(a \<mapsto> (hkey h, keylen h, hash_fcn cfg ky))"
    then obtain t' hp' where
      r: "add_hashed cfg a ky hd_el t hp = Some (Done \<lparr>hash_head = hd_el, tbl = Some t', heap = hp'\<rparr>)"
        "table_ok hp' (xs @ [a]) t'" "app_links hp' = app_links hp"
        "key_data hp' = (key_data hp)(a \<mapsto> (hkey h, keylen h, hash_fcn cfg ky))" by blast
    have l: "unat (of_nat (length ky) :: u32) = length ky" using assms(5) by (intro unat_of_nat_small) simp
    have "key_ok cfg hp' x" if "x \<in> set xs" for x
    proof -
      have "key_data hp' x = key_data hp x" using r(4) a that by auto
      then show ?thesis using key_ok_cong that assms(11) by blast
    qed
    moreover have "key_ok cfg hp' a" "key_at hp' a = ky"
      using r(4) assms(12,13) l by (simp_all add: key_ok_def key_at_def)
    ultimately have "hash_ok cfg (xs @ [a]) \<lparr>hash_head = hd_el, tbl = Some t', heap = hp'\<rparr>" "key_at hp' a = ky"
      using r(2,3) assms(2,4,10,14) by (auto simp: hash_ok_def)
    with r(1,4) show ?thesis by auto
  qed simp
qed

lemma hash_add_first:
  assumes "memory_limited cfg" "hash_head s = None" "a \<in> dom (heap s)" "length ky < 2 ^ 32"
  shows "hash_add cfg a ky s = Some Fatal \<or>
    (\<exists>s'. hash_add cfg a ky s = Some (Done s') \<and> hash_ok cfg [a] s' \<and>
       key_at (heap s') a = ky \<and> (\<forall>x. x \<noteq> a \<longrightarrow> key_data (heap s') x = key_data (heap s) x))"
proof -
  from assms(3) obtain h where h: "heap s a = Some h" by blast
  let ?h1 = "h\<lparr>el_next := None, hkey := ky, keylen := of_nat (length ky)\<rparr>"
  show ?thesis
  proof (cases "hash_make_table cfg a")
    case Fatal
    then show ?thesis using h assms(2) by (simp add: hash_add_def modify_ok)
  next
    case (Done t)
    let ?h2 = "?h1\<lparr>el_prev := None\<rparr>"
    let ?hp2 = "(heap s)(a \<mapsto> ?h1, a \<mapsto> ?h2)"
    have eq: "hash_add cfg a ky s = add_hashed cfg a ky (Some a) t ?hp2"
      using h assms(2) Done by (simp add: hash_add_def modify_ok)
    note t = make_table_ok [OF Done]
    have at: "?hp2 a = Some ?h2" by simp
    have "add_hashed cfg a ky (Some a) t ?hp2 = Some Fatal \<or>
      (\<exists>s'. add_hashed cfg a ky (Some a) t ?hp2 = Some (Done s') \<and> hash_ok cfg ([] @ [a]) s' \<and>
         key_at (heap s') a = ky \<and> (\<forall>x. x \<noteq> a \<longrightarrow> key_data (heap s') x = key_data ?hp2 x))"
      by (rule add_hashed_invariant [where xs = "[]" and k = 5 and h = ?h2])
        (use t assms(1,4) in simp_all)
    then show ?thesis unfolding eq by auto
  qed
qed

lemma hash_add_next:
  assumes "memory_limited cfg" "hash_ok cfg xs s" "a \<notin> set xs" "a \<in> dom (heap s)"
    "length xs + 1 < 2 ^ 32" "length ky < 2 ^ 32" and snoc: "xs = us @ [u]"
  shows "hash_add cfg a ky s = Some Fatal \<or>
    (\<exists>s'. hash_add cfg a ky s = Some (Done s') \<and> hash_ok cfg (xs @ [a]) s' \<and>
       key_at (heap s') a = ky \<and> (\<forall>x. x \<noteq> a \<longrightarrow> key_data (heap s') x = key_data (heap s) x))"
proof -
  from assms(4) obtain h where h: "heap s a = Some h" by blast
  have d: "distinct (xs @ [a])" using assms(2,3) by (simp add: hash_ok_def)
  have "first xs None \<noteq> None" using snoc by (simp add: first_None)
  then obtain b where b: "first xs None = Some b" by blast
  with assms(2) have hd_el: "hash_head s = Some b" "Some b = first xs None" by (simp_all add: hash_ok_def)
  from assms(2) snoc obtain t where t: "tbl s = Some t" "table_ok (heap s) xs t" by (auto simp: hash_ok_def)
  have dl: "dll (app_links (heap s)) (us @ [u])" using assms(2) snoc by (simp add: hash_ok_def)
  have u: "u \<noteq> a" "tbl_tail t = Some u" using snoc assms(3) t(2) by (auto simp: table_ok_def)
  obtain hu where hu: "heap s u = Some hu" "el_prev hu = last_of us None"
    using seg_at [OF dl] by (auto simp: app_links_def)
  let ?h1 = "h\<lparr>el_next := None, hkey := ky, keylen := of_nat (length ky)\<rparr>"
  let ?h3 = "?h1\<lparr>el_prev := Some u\<rparr>"
  let ?hp3 = "(heap s)(a \<mapsto> ?h1, u \<mapsto> hu\<lparr>el_next := Some a\<rparr>, a \<mapsto> ?h3)"
  let ?t = "t\<lparr>tbl_tail := Some a\<rparr>"
  have eq: "hash_add cfg a ky s = add_hashed cfg a ky (Some b) ?t ?hp3"
    using h hu u hd_el(1) t(1) by (simp add: hash_add_def modify_ok)
  have bkt: "bkt_links ?hp3 x = bkt_links (heap s) x" and key: "x \<noteq> a \<Longrightarrow> key_data ?hp3 x = key_data (heap s) x" for x
    using h hu u by (auto simp: views_at)
  have ne: "x \<noteq> a" if "x \<in> set xs" for x using that assms(3) by auto
  from t(2) obtain k where k: "bkts_ok (heap s) (set xs) k t" "bloom_ok (heap s) (set xs) (bloom t)"
    "num_items t = of_nat (length xs)" by (auto simp: table_ok_def)
  have ok: "bkts_ok ?hp3 (set xs) k ?t"
    using k(1) by (rule bkts_ok_cong) (rule bkt, rule key, rule ne, assumption, simp_all)
  have bl: "bloom_ok ?hp3 (set xs) (bloom ?t)"
    using bloom_ok_cong [OF k(2) subset_refl at_cong(1) [OF key [OF ne]]] by simp
  have "app_links ?hp3 = (app_links (heap s))(u \<mapsto> (Some a, last_of us None), a \<mapsto> (None, Some u))"
    using u(1) hu(2) by (simp add: fun_eq_iff)
  then have dll3: "dll (app_links ?hp3) (xs @ [a])"
    using append_dll [OF dl, of a] d by (simp add: snoc)
  have keys: "\<forall>x \<in> set xs. key_ok cfg ?hp3 x"
    using assms(2) key_ok_cong [OF key [OF ne]] by (simp add: hash_ok_def)
  have at: "?hp3 a = Some ?h3" by simp
  have "add_hashed cfg a ky (Some b) ?t ?hp3 = Some Fatal \<or>
      (\<exists>s'. add_hashed cfg a ky (Some b) ?t ?hp3 = Some (Done s') \<and> hash_ok cfg (xs @ [a]) s' \<and>
         key_at (heap s') a = ky \<and> (\<forall>x. x \<noteq> a \<longrightarrow> key_data (heap s') x = key_data ?hp3 x))"
    by (rule add_hashed_invariant [OF assms(1) d at assms(5,6) _ _ bl ok dll3 keys])
      (use k(3) hd_el(2) snoc in \<open>simp_all add: first_append\<close>)
  then show ?thesis unfolding eq using key by auto
qed

lemma hash_add_ok:
  assumes "memory_limited cfg" "hash_ok cfg xs s" "a \<notin> set xs" "a \<in> dom (heap s)"
    "length xs + 1 < 2 ^ 32" "length ky < 2 ^ 32"
  shows "hash_add cfg a ky s = Some Fatal \<or>
    (\<exists>s'. hash_add cfg a ky s = Some (Done s') \<and> hash_ok cfg (xs @ [a]) s' \<and>
       key_at (heap s') a = ky \<and> (\<forall>x. x \<noteq> a \<longrightarrow> key_data (heap s') x = key_data (heap s) x))"
proof (cases xs rule: rev_cases)
  case Nil
  with assms(2) have "hash_head s = None" by (simp add: hash_ok_def)
  with hash_add_first [OF assms(1) _ assms(4,6)] Nil show ?thesis by simp
qed (rule hash_add_next [OF assms])

section \<open>HASH_DELETE\<close>

lemma unlink_app_view:
  assumes "hp a = Some h" "unlink a (app_links hp) = Some l"
  obtains hp1 h1 hp2 where "opt_modify (el_prev h) (\<lambda>x. x\<lparr>el_next := el_next h\<rparr>) hp = Some hp1" "hp1 a = Some h1"
    "opt_modify (el_next h1) (\<lambda>x. x\<lparr>el_prev := el_prev h1\<rparr>) hp1 = Some hp2"
    "app_links hp2 = l" "bkt_links hp2 = bkt_links hp" "key_data hp2 = key_data hp"
proof -
  from assms obtain l1 n p where l: "opt_next (el_prev h) (el_next h) (app_links hp) = Some l1" "l1 a = Some (n, p)"
    "opt_prev n p l1 = Some l" by (auto simp: unlink_def views_at bind_eq_Some_conv)
  obtain hp1 where hp1: "opt_modify (el_prev h) (\<lambda>x. x\<lparr>el_next := el_next h\<rparr>) hp = Some hp1" "app_links hp1 = l1"
    "bkt_links hp1 = bkt_links hp" "key_data hp1 = key_data hp" using l(1) by (rule el_next_view)
  with l(2) obtain h1 where h1: "hp1 a = Some h1" "el_next h1 = n" "el_prev h1 = p" by (auto simp: app_links_def)
  obtain hp2 where "opt_modify n (\<lambda>x. x\<lparr>el_prev := p\<rparr>) hp1 = Some hp2" "app_links hp2 = l"
    "bkt_links hp2 = bkt_links hp1" "key_data hp2 = key_data hp1" using l(3) unfolding hp1(2)[symmetric] by (rule el_prev_view)
  with hp1 h1 show thesis by (intro that [of hp1 h1 hp2]) simp_all
qed

lemma unlink_bkt_view:
  assumes "hp a = Some h" "unlink a (bkt_links hp) = Some l"
  obtains hp1 h1 hp2 where "opt_modify (hh_prev h) (\<lambda>x. x\<lparr>hh_next := hh_next h\<rparr>) hp = Some hp1" "hp1 a = Some h1"
    "opt_modify (hh_next h1) (\<lambda>x. x\<lparr>hh_prev := hh_prev h1\<rparr>) hp1 = Some hp2"
    "bkt_links hp2 = l" "app_links hp2 = app_links hp" "key_data hp2 = key_data hp"
proof -
  from assms obtain l1 n p where l: "opt_next (hh_prev h) (hh_next h) (bkt_links hp) = Some l1" "l1 a = Some (n, p)"
    "opt_prev n p l1 = Some l" by (auto simp: unlink_def views_at bind_eq_Some_conv)
  obtain hp1 where hp1: "opt_modify (hh_prev h) (\<lambda>x. x\<lparr>hh_next := hh_next h\<rparr>) hp = Some hp1" "bkt_links hp1 = l1"
    "app_links hp1 = app_links hp" "key_data hp1 = key_data hp" using l(1) by (rule hh_next_view)
  with l(2) obtain h1 where h1: "hp1 a = Some h1" "hh_next h1 = n" "hh_prev h1 = p" by (auto simp: bkt_links_def)
  obtain hp2 where "opt_modify n (\<lambda>x. x\<lparr>hh_prev := p\<rparr>) hp1 = Some hp2" "bkt_links hp2 = l"
    "app_links hp2 = app_links hp1" "key_data hp2 = key_data hp1" using l(3) unfolding hp1(2)[symmetric] by (rule hh_prev_view)
  with hp1 h1 show thesis by (intro that [of hp1 h1 hp2]) simp_all
qed

lemma del_in_bkt_ok:
  assumes "bkts_ok hp M k t" "a \<in> M" "a \<in> dom hp"
  obtains bs hp' where "del_in_bkt (slot_in hp k a) a (buckets t) hp = Some (bs, hp')"
    "bkts_ok hp' (M - {a}) k (t\<lparr>buckets := bs\<rparr>)" "app_links hp' = app_links hp" "key_data hp' = key_data hp"
proof -
  from assms(1) obtain cs where t: "k < 30" "num_buckets t = of_nat (2 ^ k)" "log2_num_buckets t = of_nat k"
    and ch: "chains_ok (bkt_links hp) (slot_in hp k) M (2 ^ k) cs (buckets t)" by (auto simp: bkts_ok_def)
  let ?i = "slot_in hp k a"
  note c = chains_okD [OF ch slot_in_less [of hp k a]]
  from assms(3) obtain h where h: "hp a = Some h" by blast
  have "a \<in> set (cs ?i)" using c(5) assms(2) by simp
  then obtain us vs where u: "cs ?i = us @ a # vs" by (meson split_list)
  with c(4) have r: "remove1 a (cs ?i) = us @ vs" "a \<notin> set us" by (simp_all add: remove1_append)
  have nx: "hh_next h = first vs None"
    using seg_at [OF c(3)[unfolded u]] h by (simp add: bkt_links_def)
  let ?b1 = "(buckets t ! ?i)\<lparr>bkt_count := bkt_count (buckets t ! ?i) - 1\<rparr>"
  let ?b = "if bkt_head ?b1 = Some a then ?b1\<lparr>bkt_head := hh_next h\<rparr> else ?b1"
  have b: "bkt_head ?b = first (remove1 a (cs ?i)) None" "bkt_count ?b = bkt_count (buckets t ! ?i) - 1"
    using c(1) r nx u by (cases us, auto)
  obtain l where l: "unlink a (bkt_links hp) = Some l"
    "chains_ok l (slot_in hp k) (M - {a}) (2 ^ k) (cs(?i := remove1 a (cs ?i))) ((buckets t)[?i := ?b])"
    using ch assms(2) slot_in_less b by (rule chains_unlink) blast
  obtain hp1 h1 hp2 where v: "opt_modify (hh_prev h) (\<lambda>x. x\<lparr>hh_next := hh_next h\<rparr>) hp = Some hp1" "hp1 a = Some h1"
    "opt_modify (hh_next h1) (\<lambda>x. x\<lparr>hh_prev := hh_prev h1\<rparr>) hp1 = Some hp2"
    "bkt_links hp2 = l" "app_links hp2 = app_links hp" "key_data hp2 = key_data hp"
    using h l(1) by (rule unlink_bkt_view)
  have "del_in_bkt ?i a (buckets t) hp = Some ((buckets t)[?i := ?b], hp2)"
    using c(6) h v(1-3) by (simp add: del_in_bkt_def Let_def)
  moreover have "bkts_ok hp2 (M - {a}) k (t\<lparr>buckets := (buckets t)[?i := ?b]\<rparr>)"
    using l(2) v(4) slot_in_cong [OF v(6)] t unfolding bkts_ok_def by (auto simp del: of_nat_power)
  ultimately show thesis using v(5,6) by (rule that)
qed

lemma hash_delete_ok:
  assumes "hash_ok cfg xs s" "a \<in> set xs"
  shows "\<exists>s'. hash_delete a s = Some s' \<and> hash_ok cfg (remove1 a xs) s' \<and> key_data (heap s') = key_data (heap s)"
proof -
  from assms(2) obtain us vs where u: "xs = us @ a # vs" by (meson split_list)
  from assms(1) have d: "distinct xs" and dl: "dll (app_links (heap s)) xs" and hd0: "hash_head s = first xs None"
    and keys: "\<forall>x \<in> set xs. key_ok cfg (heap s) x" by (auto simp: hash_ok_def)
  from d u have r: "remove1 a xs = us @ vs" by (simp add: remove1_append)
  obtain h where h: "heap s a = Some h" "el_next h = first vs None" "el_prev h = last_of us None"
    using seg_at [OF dl[unfolded u]] by (auto simp: app_links_def)
  obtain b where b: "hash_head s = Some b" using hd0 u by (cases us) auto
  obtain t where t: "tbl s = Some t" "table_ok (heap s) xs t" using assms u by (auto simp: hash_ok_def)
  show ?thesis
  proof (cases "us = [] \<and> vs = []")
    case True
    with h b t(1) r show ?thesis by (simp add: hash_delete_def hash_ok_empty)
  next
    case False
    then have ne: "\<not> (el_prev h = None \<and> el_next h = None)" using h by (simp add: first_None last_of_None)
    from t(2) obtain k where k: "bkts_ok (heap s) (set xs) k t" "bloom_ok (heap s) (set xs) (bloom t)"
      "num_items t = of_nat (length xs)" "tbl_tail t = last_of xs None" by (auto simp: table_ok_def)
    obtain l where l: "unlink a (app_links (heap s)) = Some l" "dll l (us @ vs)"
      using dl d unfolding u by (rule unlink_dll) blast
    obtain hp1 h1 hp2 where v: "opt_modify (el_prev h) (\<lambda>x. x\<lparr>el_next := el_next h\<rparr>) (heap s) = Some hp1" "hp1 a = Some h1"
      "opt_modify (el_next h1) (\<lambda>x. x\<lparr>el_prev := el_prev h1\<rparr>) hp1 = Some hp2"
      "app_links hp2 = l" "bkt_links hp2 = bkt_links (heap s)" "key_data hp2 = key_data (heap s)"
      using h(1) l(1) by (rule unlink_app_view)
    from v(6) have "a \<in> dom hp2" using dom_views [OF v(6)] h(1) by auto
    then obtain h2 where h2: "hp2 a = Some h2" by blast
    have ok2: "bkts_ok hp2 (set xs) k t" using k(1) by (rule bkts_ok_cong) (simp_all add: v(5,6))
    then have nb: "num_buckets t = of_nat (2 ^ k)" by (simp add: bkts_ok_def)
    obtain bs hp3 where del: "del_in_bkt (slot_in hp2 k a) a (buckets t) hp2 = Some (bs, hp3)"
      "bkts_ok hp3 (set xs - {a}) k (t\<lparr>buckets := bs\<rparr>)" "app_links hp3 = app_links hp2" "key_data hp3 = key_data hp2"
      using ok2 assms(2) \<open>a \<in> dom hp2\<close> by (rule del_in_bkt_ok)
    have i: "bkt_index (hashv h2) (num_buckets t) = slot_in hp2 k a" unfolding nb using h2 by (rule slot_in_bkt)
    have kd: "key_data hp3 = key_data (heap s)" using del(4) v(6) by simp
    define tl' where "tl' = (if vs = [] then last_of us None else tbl_tail t)"
    define hd' where "hd' = (if us = [] then first vs None else Some b)"
    let ?s = "\<lparr>hash_head = hd', tbl = Some (t\<lparr>tbl_tail := tl', buckets := bs, num_items := num_items t - 1\<rparr>), heap = hp3\<rparr>"
    have tl_a: "tbl_tail t = Some a \<longleftrightarrow> vs = []"
      using k(4) u d by (cases vs rule: rev_cases) (auto simp: last_of_def)
    have tl_eq: "(if tbl_tail t = Some a then (case el_prev h of None \<Rightarrow> None | Some p \<Rightarrow> Some (Some p)) else Some (tbl_tail t)) = Some tl'"
      using tl_a False h(3) by (auto simp: tl'_def last_of_def)
    have hd_eq: "(if el_prev h = None then el_next h else Some b) = hd'"
      using h(2,3) by (auto simp: hd'_def last_of_None)
    have del_s: "hash_delete a s = Some ?s"
      by (simp only: hash_delete_def b t(1) h(1) Option.bind.simps if_not_P [OF ne] tl_eq hd_eq v(1-3) h2 i del(1)
          Let_def prod.case)
    have "table_ok hp3 (us @ vs) (t\<lparr>tbl_tail := tl', buckets := bs, num_items := num_items t - 1\<rparr>)"
    proof -
      have s: "set xs - {a} = set (us @ vs)" using u d by auto
      have "bkts_ok hp3 (set (us @ vs)) k (t\<lparr>tbl_tail := tl', buckets := bs, num_items := num_items t - 1\<rparr>)"
        using del(2) unfolding s by (rule bkts_ok_cong) simp_all
      moreover have "bloom_ok hp3 (set (us @ vs)) (bloom t)"
        by (rule bloom_ok_cong [OF k(2) _ at_cong(1)]) (auto simp: u kd)
      moreover have "tl' = last_of (us @ vs) None" using k(4) u by (simp add: tl'_def last_of_def)
      moreover have "num_items t - 1 = of_nat (length (us @ vs))" using k(3) u by simp
      ultimately show ?thesis unfolding table_ok_def by auto
    qed
    moreover have "\<forall>x \<in> set (us @ vs). key_ok cfg hp3 x"
      using keys u by (simp add: key_ok_def kd)
    moreover have "hd' = first (us @ vs) None" using hd0 u b by (cases us) (auto simp: hd'_def)
    ultimately have "hash_ok cfg (us @ vs) ?s" using assms(1) u d l(2) v(4) del(3) False by (auto simp: hash_ok_def)
    with del_s r kd show ?thesis by auto
  qed
qed

section \<open>HASH_COUNT and the traversal\<close>

lemma hash_count_ok:
  assumes "hash_ok cfg xs s"
  shows "hash_count s = Some (of_nat (length xs))"
  using assms by (cases xs) (auto simp: hash_ok_def hash_count_def table_ok_def)

lemma hash_ok_first:
  assumes "hash_ok cfg (a # xs) s"
  obtains h where "hash_head s = Some a" "heap s a = Some h" "el_next h = first xs None"
  using assms by (auto simp: hash_ok_def app_links_def)

lemma hash_clear_ok: "hash_ok cfg xs s \<Longrightarrow> \<exists>s'. hash_clear s = Some s' \<and> hash_ok cfg [] s' \<and> heap s' = heap s"
  by (cases xs) (auto simp: hash_ok_def hash_clear_def)

end
