(* ===== verification/Uthash_Map.thy ===== *)
theory Uthash_Map
  imports Uthash_Correct
begin

text \<open>
  The contract of the hash table as its clients see it: a list of keyed elements in insertion
  order.  The locale \<open>keyed_list\<close> states it, the lemmas a cache needs are proved in it once, and
  it is interpreted on the pointer model of \<open>uthash.h\<close>.  The theory ends with the traversal
  that deletes every element, sequences of operations, and the table's own consistency check.
\<close>

section \<open>The contract\<close>

type_synonym keyed = "(u8 list \<times> nat) list"

locale keyed_list =
  fixes find_elem :: "u8 list \<Rightarrow> 's \<Rightarrow> nat option option"
    and add_elem :: "nat \<Rightarrow> u8 list \<Rightarrow> 's \<Rightarrow> 's outcome option"
    and delete_elem :: "nat \<Rightarrow> 's \<Rightarrow> 's option"
    and count_elems :: "'s \<Rightarrow> u32 option"
    and rel :: "nat set \<Rightarrow> 's \<Rightarrow> keyed \<Rightarrow> bool"
  assumes rel_wf: "rel D s es \<Longrightarrow> distinct (map snd es) \<and> snd ` set es \<subseteq> D \<and> length es < 2 ^ 32"
    and find_ok: "rel D s es \<Longrightarrow> \<exists>r. find_elem k s = Some r \<and>
      (case r of None \<Rightarrow> k \<notin> fst ` set es | Some a \<Rightarrow> (k, a) \<in> set es)"
    and add_ok: "rel D s es \<Longrightarrow> a \<in> D \<Longrightarrow> a \<notin> snd ` set es \<Longrightarrow> length es + 1 < 2 ^ 32 \<Longrightarrow> length k < 2 ^ 32 \<Longrightarrow>
      add_elem a k s = Some Fatal \<or> (\<exists>s'. add_elem a k s = Some (Done s') \<and> rel D s' (es @ [(k, a)]))"
    and delete_ok: "rel D s es \<Longrightarrow> (k, a) \<in> set es \<Longrightarrow>
      \<exists>s'. delete_elem a s = Some s' \<and> rel D s' (remove1 (k, a) es)"
    and count_ok: "rel D s es \<Longrightarrow> count_elems s = Some (of_nat (length es))"

context keyed_list
begin

text \<open>With distinct keys the table is the map of its entries.\<close>

lemma find_map_of:
  assumes "rel D s es" "distinct (map fst es)"
  shows "find_elem k s = Some (map_of es k)"
proof -
  obtain r where r: "find_elem k s = Some r"
    "case r of None \<Rightarrow> k \<notin> fst ` set es | Some a \<Rightarrow> (k, a) \<in> set es" using find_ok [OF assms(1)] by blast
  have "r = map_of es k"
  proof (cases r)
    case None
    with r(2) have "map_of es k = None" by (simp add: map_of_eq_None_iff)
    with None show ?thesis by simp
  next
    case (Some a)
    with r(2) assms(2) show ?thesis by simp
  qed
  with r(1) show ?thesis by simp
qed

text \<open>Deleting an element and adding it again moves it to the end.\<close>

lemma touch:
  assumes "rel D s es" "(k, a) \<in> set es" "length k < 2 ^ 32"
  obtains s1 where "delete_elem a s = Some s1" "rel D s1 (remove1 (k, a) es)"
    "add_elem a k s1 = Some Fatal \<or>
      (\<exists>s2. add_elem a k s1 = Some (Done s2) \<and> rel D s2 (remove1 (k, a) es @ [(k, a)]))"
proof -
  from delete_ok [OF assms(1,2)] obtain s1 where s1: "delete_elem a s = Some s1" "rel D s1 (remove1 (k, a) es)"
    by blast
  note wf = rel_wf [OF assms(1)]
  have "0 < length es" using assms(2) by (cases es) auto
  then have "length (remove1 (k, a) es) + 1 < 2 ^ 32" using wf assms(2) by (simp add: length_remove1)
  moreover have "a \<notin> snd ` set (remove1 (k, a) es)"
  proof
    assume "a \<in> snd ` set (remove1 (k, a) es)"
    then obtain k' where "(k', a) \<in> set (remove1 (k, a) es)" by auto
    moreover from this have "(k', a) \<in> set es" by (meson notin_set_remove1)
    moreover have "inj_on snd (set es)" using wf by (simp add: distinct_map)
    ultimately have "(k', a) = (k, a)" using assms(2) inj_onD [of snd "set es" "(k', a)" "(k, a)"] by simp
    with \<open>(k', a) \<in> set (remove1 (k, a) es)\<close> wf show False by (simp add: distinct_map)
  qed
  moreover have "a \<in> D" using wf assms(2) by force
  ultimately show thesis using add_ok [OF s1(2)] assms(3) s1 that by blast
qed

end

section \<open>The table fulfils it\<close>

definition hash_rel :: "ut_config \<Rightarrow> nat set \<Rightarrow> uthash \<Rightarrow> keyed \<Rightarrow> bool" where
  "hash_rel cfg D s es \<longleftrightarrow> hash_ok cfg (map snd es) s \<and> dom (heap s) = D \<and>
     (\<forall>(k, a) \<in> set es. key_at (heap s) a = k)"

lemma hash_rel_keys: "hash_rel cfg D s es \<Longrightarrow> (k, a) \<in> set es \<Longrightarrow> key_at (heap s) a = k"
  by (auto simp: hash_rel_def)

lemma hash_rel_dom: "hash_rel cfg D s es \<Longrightarrow> snd ` set es \<subseteq> D"
  by (auto simp: hash_rel_def hash_ok_def elim!: key_okD dest!: bspec)

lemma hash_rel_find:
  assumes "hash_rel cfg D s es"
  shows "\<exists>r. hash_find cfg k s = Some r \<and> (case r of None \<Rightarrow> k \<notin> fst ` set es | Some a \<Rightarrow> (k, a) \<in> set es)"
proof -
  from assms have ok: "hash_ok cfg (map snd es) s" by (simp add: hash_rel_def)
  obtain r where r: "hash_find cfg k s = Some r"
    "r = None \<Longrightarrow> \<forall>a \<in> set (map snd es). key_at (heap s) a \<noteq> k"
    "\<And>a. r = Some a \<Longrightarrow> a \<in> set (map snd es) \<and> key_at (heap s) a = k" using ok by (rule hash_find_ok) blast
  show ?thesis
  proof (cases r)
    case None
    with r(1,2) hash_rel_keys [OF assms] show ?thesis by force
  next
    case (Some a)
    with r(3) obtain k' where "(k', a) \<in> set es" "key_at (heap s) a = k" by auto
    with r(1) Some hash_rel_keys [OF assms] show ?thesis by auto
  qed
qed

lemma hash_rel_add:
  assumes "memory_limited cfg" "hash_rel cfg D s es" "a \<in> D" "a \<notin> snd ` set es" "length es + 1 < 2 ^ 32"
    "length k < 2 ^ 32"
  shows "hash_add cfg a k s = Some Fatal \<or> (\<exists>s'. hash_add cfg a k s = Some (Done s') \<and> hash_rel cfg D s' (es @ [(k, a)]))"
proof -
  have ok: "hash_ok cfg (map snd es) s" "a \<in> dom (heap s)" using assms(2,3) by (auto simp: hash_rel_def)
  have "a \<notin> set (map snd es)" "length (map snd es) + 1 < 2 ^ 32" using assms(4,5) by simp_all
  from hash_add_ok [OF assms(1) ok(1) this(1) ok(2) this(2) assms(6)] show ?thesis
  proof
    assume "\<exists>s'. hash_add cfg a k s = Some (Done s') \<and> hash_ok cfg (map snd es @ [a]) s' \<and>
       key_at (heap s') a = k \<and> (\<forall>x. x \<noteq> a \<longrightarrow> key_data (heap s') x = key_data (heap s) x)"
    then obtain s' where s': "hash_add cfg a k s = Some (Done s')" "hash_ok cfg (map snd es @ [a]) s'"
       "key_at (heap s') a = k" "\<And>x. x \<noteq> a \<Longrightarrow> key_data (heap s') x = key_data (heap s) x" by blast
    have "key_at (heap s') x = ky" if "(ky, x) \<in> set es" for ky x
    proof -
      have "x \<noteq> a" using that assms(4) by force
      then show ?thesis using at_cong(2) [OF s'(4)] hash_rel_keys [OF assms(2) that] by simp
    qed
    moreover have "dom (heap s') = D"
    proof -
      have "x \<in> dom (heap s') \<longleftrightarrow> x \<in> dom (heap s)" for x
      proof (cases "x = a")
        case True
        have "key_ok cfg (heap s') a" using s'(2) by (simp add: hash_ok_def)
        then show ?thesis using True ok(2) by (auto elim: key_okD)
      next
        case False
        from s'(4) [OF this] have "key_data (heap s') x = None \<longleftrightarrow> key_data (heap s) x = None" by simp
        then show ?thesis by (auto simp: domIff)
      qed
      then show ?thesis using assms(2) by (auto simp: hash_rel_def)
    qed
    ultimately show ?thesis using s'(1-3) by (auto simp: hash_rel_def)
  qed simp
qed

lemma map_snd_remove1:
  "distinct (map snd es) \<Longrightarrow> (k, a) \<in> set es \<Longrightarrow> map snd (remove1 (k, a) es) = remove1 a (map snd es)"
  by (induction es) force+

lemma hash_rel_delete:
  assumes "hash_rel cfg D s es" "(k, a) \<in> set es"
  shows "\<exists>s'. hash_delete a s = Some s' \<and> hash_rel cfg D s' (remove1 (k, a) es)"
proof -
  have ok: "hash_ok cfg (map snd es) s" using assms(1) by (simp add: hash_rel_def)
  have "a \<in> set (map snd es)" using assms(2) by force
  from hash_delete_ok [OF ok this] obtain s' where s': "hash_delete a s = Some s'"
    "hash_ok cfg (remove1 a (map snd es)) s'" "key_data (heap s') = key_data (heap s)" by blast
  have "distinct (map snd es)" using ok by (simp add: hash_ok_def)
  then have m: "map snd (remove1 (k, a) es) = remove1 a (map snd es)" using assms(2) by (rule map_snd_remove1)
  have "key_at (heap s') x = ky" if "(ky, x) \<in> set (remove1 (k, a) es)" for ky x
  proof -
    have "(ky, x) \<in> set es" using that by (meson notin_set_remove1)
    moreover have "key_data (heap s') x = key_data (heap s) x" by (simp only: s'(3))
    ultimately show ?thesis using hash_rel_keys [OF assms(1)] at_cong(2) by metis
  qed
  moreover have "dom (heap s') = D" using assms(1) dom_views [OF s'(3)] by (simp add: hash_rel_def)
  ultimately have "hash_rel cfg D s' (remove1 (k, a) es)"
    using s'(2) unfolding hash_rel_def m by blast
  with s'(1) show ?thesis by blast
qed

lemma hash_rel_wf: "hash_rel cfg D s es \<Longrightarrow> distinct (map snd es) \<and> snd ` set es \<subseteq> D \<and> length es < 2 ^ 32"
  using hash_rel_dom [of cfg D s es] by (simp add: hash_rel_def hash_ok_def)

lemma hash_rel_count: "hash_rel cfg D s es \<Longrightarrow> hash_count s = Some (of_nat (length es))"
  using hash_count_ok [of cfg "map snd es" s] by (simp add: hash_rel_def)

text \<open>Allocations of 16 GB fail; then the model of the header fulfils the contract, whatever the
  hash function and the Bloom filter.\<close>

definition limited_config :: "ut_config \<Rightarrow> ut_config" where
  "limited_config cfg = cfg\<lparr>malloc_ok := (\<lambda>n. malloc_ok cfg n \<and> n < 2 ^ 34)\<rparr>"

lemma memory_limited_config [simp]: "memory_limited (limited_config cfg)"
  by (simp add: memory_limited_def limited_config_def)

lemma limited_config_id: "memory_limited cfg \<Longrightarrow> limited_config cfg = cfg"
  by (cases cfg) (auto simp: memory_limited_def limited_config_def fun_eq_iff)

interpretation ut: keyed_list "hash_find (limited_config cfg)" "hash_add (limited_config cfg)" hash_delete hash_count
    "hash_rel (limited_config cfg)" for cfg
proof (unfold_locales, goal_cases)
  case 1 then show ?case by (rule hash_rel_wf)
next
  case 2 then show ?case by (rule hash_rel_find)
next
  case 3 then show ?case by (intro hash_rel_add) simp_all
next
  case 4 then show ?case by (rule hash_rel_delete)
next
  case 5 then show ?case by (rule hash_rel_count)
qed

section \<open>Elements outside the table\<close>

lemma hash_ok_frame:
  assumes "hash_ok cfg xs s" "\<And>a. a \<in> set xs \<Longrightarrow> hp a = heap s a"
  shows "hash_ok cfg xs (s\<lparr>heap := hp\<rparr>)"
proof -
  have v: "app_links hp a = app_links (heap s) a" "bkt_links hp a = bkt_links (heap s) a"
    "key_data hp a = key_data (heap s) a" if "a \<in> set xs" for a
    using assms(2) [OF that] by (simp_all add: app_links_def bkt_links_def key_data_def)
  have "dll (app_links hp) xs" using seg_cong [OF v(1)] assms(1) by (simp add: hash_ok_def)
  moreover have "\<forall>a \<in> set xs. key_ok cfg hp a" using key_ok_cong [OF v(3)] assms(1) by (simp add: hash_ok_def)
  moreover have "table_ok hp xs t" if "table_ok (heap s) xs t" for t
  proof -
    from that obtain k where k: "bkts_ok (heap s) (set xs) k t" by (auto simp: table_ok_def)
    have "bkts_ok hp (set xs) k t" using k by (rule bkts_ok_cong) (simp_all add: v)
    moreover have "bloom_ok hp (set xs) (bloom t)"
      using bloom_ok_cong [OF _ subset_refl at_cong(1) [OF v(3)]] that by (simp add: table_ok_def)
    ultimately show ?thesis using that by (auto simp: table_ok_def)
  qed
  ultimately show ?thesis using assms(1) by (auto simp: hash_ok_def)
qed

lemma hash_rel_frame:
  assumes "hash_rel cfg D s es" "\<And>a. a \<in> snd ` set es \<Longrightarrow> hp a = heap s a" "dom hp = D'"
  shows "hash_rel cfg D' (s\<lparr>heap := hp\<rparr>) es"
proof -
  have "hash_ok cfg (map snd es) (s\<lparr>heap := hp\<rparr>)"
    by (rule hash_ok_frame) (use assms(1,2) in \<open>simp_all add: hash_rel_def\<close>)
  moreover have "key_at hp x = k" if "(k, x) \<in> set es" for k x
  proof -
    have "x \<in> snd ` set es" using that by force
    then have "key_data hp x = key_data (heap s) x" using assms(2) by (simp add: key_data_def)
    with at_cong(2) [OF this] hash_rel_keys [OF assms(1) that] show ?thesis by simp
  qed
  ultimately show ?thesis using assms(3) unfolding hash_rel_def by auto
qed

lemma hash_rel_alloc:
  assumes "hash_rel cfg D s es" "a \<notin> D"
  shows "hash_rel cfg (insert a D) (s\<lparr>heap := (heap s)(a \<mapsto> h)\<rparr>) es"
proof (rule hash_rel_frame [OF assms(1)])
  show "((heap s)(a \<mapsto> h)) x = heap s x" if "x \<in> snd ` set es" for x
    using that hash_rel_dom [OF assms(1)] assms(2) by auto
  show "dom ((heap s)(a \<mapsto> h)) = insert a D" using assms(1) by (simp add: hash_rel_def)
qed

lemma hash_rel_free:
  assumes "hash_rel cfg D s es" "a \<notin> snd ` set es"
  shows "hash_rel cfg (D - {a}) (s\<lparr>heap := (heap s)(a := None)\<rparr>) es"
proof (rule hash_rel_frame [OF assms(1)])
  show "((heap s)(a := None)) x = heap s x" if "x \<in> snd ` set es" for x
    using that assms(2) by auto
  show "dom ((heap s)(a := None)) = D - {a}" using assms(1) by (simp add: hash_rel_def)
qed

section \<open>Deleting everything in a traversal\<close>

lemma iter_next_first: "hash_ok cfg xs s \<Longrightarrow> iter_next (first xs None) s = Some (first (tl xs) None)"
  by (cases xs) (auto simp: iter_next_def elim: hash_ok_first)

lemma iter_from_deletes:
  assumes body: "\<And>a ys s. a \<in> A \<Longrightarrow> hash_ok cfg (a # ys) s \<Longrightarrow> \<exists>s'. body a s = Some s' \<and> hash_ok cfg ys s'"
  shows "set xs \<subseteq> A \<Longrightarrow> hash_ok cfg xs s \<Longrightarrow>
    \<exists>s'. iter_from body (first xs None) (first (tl xs) None) s = Some s' \<and> hash_ok cfg [] s'"
proof (induction xs arbitrary: s)
  case Nil
  then show ?case by (subst iter_from.simps) simp
next
  case (Cons a ys)
  have "a \<in> A" using Cons.prems(1) by simp
  from body [OF this Cons.prems(2)] obtain s1 where s1: "body a s = Some s1" "hash_ok cfg ys s1" by blast
  have "set ys \<subseteq> A" using Cons.prems(1) by simp
  from Cons.IH [OF this s1(2)] iter_next_first [OF s1(2)] s1(1) show ?case by (subst iter_from.simps) simp
qed

lemma hash_iter_deletes:
  assumes "\<And>a ys s. a \<in> set xs \<Longrightarrow> hash_ok cfg (a # ys) s \<Longrightarrow> \<exists>s'. body a s = Some s' \<and> hash_ok cfg ys s'"
    "hash_ok cfg xs s"
  shows "\<exists>s'. hash_iter body s = Some s' \<and> hash_ok cfg [] s'"
proof -
  have "hash_head s = first xs None" using assms(2) by (simp add: hash_ok_def)
  then show ?thesis
    using iter_from_deletes [OF assms(1) subset_refl assms(2)] iter_next_first [OF assms(2)] by (simp add: hash_iter_def)
qed

lemma hash_iter_delete:
  assumes "hash_ok cfg xs s"
  shows "\<exists>s'. hash_iter hash_delete s = Some s' \<and> hash_ok cfg [] s'"
  using hash_iter_deletes [OF _ assms, of hash_delete] hash_delete_ok by (metis list.set_intros(1) remove1.simps(2))

section \<open>The consistency check\<close>

lemma fsck_walk_ok:
  assumes "\<And>a. l a = map_option (\<lambda>h. (nxt h, prv h)) (hp a)"
  shows "seg l p xs None \<Longrightarrow> fsck_walk prv nxt hp p (first xs None) n = Some (Some (n + of_nat (length xs)))"
proof (induction xs arbitrary: p n)
  case Nil
  then show ?case by (simp add: fsck_walk.simps)
next
  case (Cons a xs)
  then obtain h where "hp a = Some h" "nxt h = first xs None" "prv h = p" using assms [of a] by auto
  with Cons show ?case by (subst fsck_walk.simps) (simp add: algebra_simps)
qed

lemma fsck_buckets_ok:
  assumes "chains_ok (bkt_links hp) slot M n cs bs"
  shows "set is \<subseteq> {..<n} \<Longrightarrow> fsck_buckets hp bs is c = Some (Some (c + of_nat (sum_list (map (\<lambda>i. length (cs i)) is))))"
proof (induction "is" arbitrary: c)
  case (Cons i "is")
  then have i: "i < n" by simp
  note o = chains_okD [OF assms i]
  have "fsck_walk hh_prev hh_next hp None (first (cs i) None) 0 = Some (Some (of_nat (length (cs i))))"
    using fsck_walk_ok [OF bkt_links_def o(3), of 0] by simp
  with Cons o(1,2,6) i show ?case by (simp add: algebra_simps)
qed simp

lemma chains_total:
  assumes "chains_ok l slot M n cs bs" "\<And>a. a \<in> M \<Longrightarrow> slot a < n" "finite M"
  shows "sum_list (map (\<lambda>i. length (cs i)) [0..<n]) = card M"
proof -
  have "sum_list (map (\<lambda>i. length (cs i)) [0..<n]) = (\<Sum>i \<in> {..<n}. length (cs i))"
    by (simp add: sum_list_distinct_conv_sum_set lessThan_atLeast0)
  also have "\<dots> = (\<Sum>i \<in> {..<n}. card {a \<in> M. slot a = i})"
    using chains_okD(4,5) [OF assms(1)] by (intro sum.cong) (auto simp: distinct_card [symmetric])
  also have "\<dots> = card (\<Union>i \<in> {..<n}. {a \<in> M. slot a = i})"
    using assms(3) by (intro card_UN_disjoint [symmetric]) auto
  also have "(\<Union>i \<in> {..<n}. {a \<in> M. slot a = i}) = M" using assms(2) by auto
  finally show ?thesis .
qed

lemma fsck_accepts:
  assumes "hash_ok cfg xs s"
  shows "hash_fsck s = Some True"
proof (cases xs)
  case Nil
  with assms show ?thesis by (simp add: hash_ok_def hash_fsck_def)
next
  case (Cons a ys)
  with assms obtain t where t: "tbl s = Some t" "table_ok (heap s) xs t" "hash_head s = Some a"
    and d: "distinct xs" "dll (app_links (heap s)) xs" by (auto simp: hash_ok_def)
  from t(2) obtain k cs where k: "num_items t = of_nat (length xs)" "k < 30" "num_buckets t = of_nat (2 ^ k)"
    "chains_ok (bkt_links (heap s)) (slot_in (heap s) k) (set xs) (2 ^ k) cs (buckets t)"
    by (auto simp: table_ok_def bkts_ok_def)
  have "sum_list (map (\<lambda>i. length (cs i)) [0..<2 ^ k]) = card (set xs)"
    using k(4) by (rule chains_total) simp_all
  then have "fsck_buckets (heap s) (buckets t) [0..<2 ^ k] 0 = Some (Some (num_items t))"
    using fsck_buckets_ok [OF k(4), of "[0..<2 ^ k]" 0] d(1) k(1) by (auto simp: distinct_card lessThan_atLeast0)
  moreover have "unat (num_buckets t) = 2 ^ k" using k(2,3) unat_pow2 [of k] by simp
  moreover have "fsck_walk el_prev el_next (heap s) None (Some a) 0 = Some (Some (num_items t))"
    using fsck_walk_ok [OF app_links_def d(2), of 0] k(1) Cons by simp
  ultimately show ?thesis using t by (simp add: hash_fsck_def)
qed

section \<open>Sequences of operations\<close>

datatype hash_op = Find "u8 list" | Add nat "u8 list" | Delete nat | Replace nat "u8 list" | Clear | Count

datatype hash_answer = Found "nat option" | Counted u32

fun ut_op :: "ut_config \<Rightarrow> hash_op \<Rightarrow> uthash \<Rightarrow> (hash_answer list \<times> uthash) outcome option" where
  "ut_op cfg (Find k) s = do { r \<leftarrow> hash_find cfg k s; Some (Done ([Found r], s)) }"
| "ut_op cfg (Add a k) s = do { r \<leftarrow> hash_add cfg a k s; Some (case r of Fatal \<Rightarrow> Fatal | Done s \<Rightarrow> Done ([], s)) }"
| "ut_op cfg (Delete a) s = do { s \<leftarrow> hash_delete a s; Some (Done ([], s)) }"
| "ut_op cfg (Replace a k) s = do { r \<leftarrow> hash_replace cfg a k s;
     Some (case r of Fatal \<Rightarrow> Fatal | Done (replaced, s) \<Rightarrow> Done ([Found replaced], s)) }"
| "ut_op cfg Clear s = do { s \<leftarrow> hash_clear s; Some (Done ([], s)) }"
| "ut_op cfg Count s = do { n \<leftarrow> hash_count s; Some (Done ([Counted n], s)) }"

fun ut_run :: "ut_config \<Rightarrow> hash_op list \<Rightarrow> uthash \<Rightarrow> (hash_answer list \<times> uthash) outcome option" where
  "ut_run cfg [] s = Some (Done ([], s))"
| "ut_run cfg (op # ops) s = do {
     r \<leftarrow> ut_op cfg op s;
     (case r of Fatal \<Rightarrow> Some Fatal
      | Done (xs, s) \<Rightarrow> do {
          r \<leftarrow> ut_run cfg ops s;
          Some (case r of Fatal \<Rightarrow> Fatal | Done (ys, s) \<Rightarrow> Done (xs @ ys, s)) }) }"

text \<open>The same on the abstract list of keyed elements.\<close>

fun spec_op :: "hash_op \<Rightarrow> keyed \<Rightarrow> hash_answer list \<times> keyed" where
  "spec_op (Find k) es = ([Found (map_of es k)], es)"
| "spec_op (Add a k) es = ([], es @ [(k, a)])"
| "spec_op (Delete a) es = ([], filter (\<lambda>e. snd e \<noteq> a) es)"
| "spec_op (Replace a k) es = ([Found (map_of es k)], filter (\<lambda>e. fst e \<noteq> k) es @ [(k, a)])"
| "spec_op Clear es = ([], [])"
| "spec_op Count es = ([Counted (of_nat (length es))], es)"

fun spec_ops :: "hash_op list \<Rightarrow> keyed \<Rightarrow> hash_answer list \<times> keyed" where
  "spec_ops [] es = ([], es)"
| "spec_ops (op # ops) es =
     (let (xs, es) = spec_op op es; (ys, es) = spec_ops ops es in (xs @ ys, es))"

text \<open>What a client must respect: an added element is allocated and in no table, its key is new
  (\<open>Replace\<close> excepted), a deleted element is in the table.\<close>

fun op_allowed :: "nat set \<Rightarrow> hash_op \<Rightarrow> keyed \<Rightarrow> bool" where
  "op_allowed D (Add a k) es \<longleftrightarrow> a \<in> D \<and> a \<notin> snd ` set es \<and> k \<notin> fst ` set es \<and> length k < 2 ^ 32 \<and> length es + 1 < 2 ^ 32"
| "op_allowed D (Replace a k) es \<longleftrightarrow> a \<in> D \<and> a \<notin> snd ` set es \<and> length k < 2 ^ 32 \<and> length es + 1 < 2 ^ 32"
| "op_allowed D (Delete a) es \<longleftrightarrow> a \<in> snd ` set es"
| "op_allowed D (Find k) es \<longleftrightarrow> True"
| "op_allowed D Clear es \<longleftrightarrow> True"
| "op_allowed D Count es \<longleftrightarrow> True"

fun ops_allowed :: "nat set \<Rightarrow> hash_op list \<Rightarrow> keyed \<Rightarrow> bool" where
  "ops_allowed D [] es \<longleftrightarrow> True"
| "ops_allowed D (op # ops) es \<longleftrightarrow> op_allowed D op es \<and> ops_allowed D ops (snd (spec_op op es))"

lemma remove1_filter_snd:
  "distinct (map snd es) \<Longrightarrow> (k, a) \<in> set es \<Longrightarrow> remove1 (k, a) es = filter (\<lambda>e. snd e \<noteq> a) es"
proof (induction es)
  case (Cons e es)
  show ?case
  proof (cases "e = (k, a)")
    case True
    then have "\<forall>e' \<in> set es. snd e' \<noteq> a" using Cons.prems(1) by force
    with True show ?thesis by (simp add: filter_id_conv)
  next
    case False
    with Cons.prems have "(k, a) \<in> set es" by auto
    then have "a \<in> snd ` set es" by force
    then have "snd e \<noteq> a" using Cons.prems(1) by auto
    with False Cons \<open>(k, a) \<in> set es\<close> show ?thesis by simp
  qed
qed simp

lemma remove1_filter_fst:
  "distinct (map fst es) \<Longrightarrow> (k, a) \<in> set es \<Longrightarrow> remove1 (k, a) es = filter (\<lambda>e. fst e \<noteq> k) es"
proof (induction es)
  case (Cons e es)
  show ?case
  proof (cases "e = (k, a)")
    case True
    then have "\<forall>e' \<in> set es. fst e' \<noteq> k" using Cons.prems(1) by force
    with True show ?thesis by (simp add: filter_id_conv)
  next
    case False
    with Cons.prems have "(k, a) \<in> set es" by auto
    then have "k \<in> fst ` set es" by force
    then have "fst e \<noteq> k" using Cons.prems(1) by auto
    with False Cons \<open>(k, a) \<in> set es\<close> show ?thesis by simp
  qed
qed simp

lemma hash_rel_map_of:
  "memory_limited cfg \<Longrightarrow> hash_rel cfg D s es \<Longrightarrow> distinct (map fst es) \<Longrightarrow> hash_find cfg k s = Some (map_of es k)"
  using ut.find_map_of [of cfg D s es k] by (simp add: limited_config_id)

lemma hash_rel_delete_filter:
  assumes "hash_rel cfg D s es" "a \<in> snd ` set es"
  obtains s' where "hash_delete a s = Some s'" "hash_rel cfg D s' (filter (\<lambda>e. snd e \<noteq> a) es)"
proof -
  from assms(2) obtain k where k: "(k, a) \<in> set es" by auto
  have "distinct (map snd es)" using hash_rel_wf [OF assms(1)] by blast
  from remove1_filter_snd [OF this k] hash_rel_delete [OF assms(1) k] that show thesis by auto
qed

lemma hash_rel_replace:
  assumes "memory_limited cfg" "hash_rel cfg D s es" "distinct (map fst es)"
    "a \<in> D" "a \<notin> snd ` set es" "length k < 2 ^ 32" "length es + 1 < 2 ^ 32"
  shows "hash_replace cfg a k s = Some Fatal \<or> (\<exists>s'. hash_replace cfg a k s = Some (Done (map_of es k, s')) \<and>
    hash_rel cfg D s' (filter (\<lambda>e. fst e \<noteq> k) es @ [(k, a)]))"
proof -
  let ?es = "filter (\<lambda>e. fst e \<noteq> k) es"
  obtain s1 where s1: "(case map_of es k of None \<Rightarrow> Some s | Some b \<Rightarrow> hash_delete b s) = Some s1" "hash_rel cfg D s1 ?es"
  proof (cases "map_of es k")
    case None
    then have "\<forall>e \<in> set es. fst e \<noteq> k" by (auto simp: map_of_eq_None_iff)
    then have "?es = es" by (simp add: filter_id_conv)
    with None assms(2) that show thesis by simp
  next
    case (Some b)
    then have kb: "(k, b) \<in> set es" by (rule map_of_SomeD)
    from hash_rel_delete [OF assms(2) kb] remove1_filter_fst [OF assms(3) kb] Some that show thesis by auto
  qed
  have "length ?es + 1 < 2 ^ 32" using assms(7) length_filter_le [of "\<lambda>e. fst e \<noteq> k" es] by linarith
  moreover have "a \<notin> snd ` set ?es" using assms(5) by auto
  moreover have "hash_replace cfg a k s = do { r \<leftarrow> hash_add cfg a k s1;
      Some (case r of Fatal \<Rightarrow> Fatal | Done s \<Rightarrow> Done (map_of es k, s)) }"
    using hash_rel_map_of [OF assms(1-3)] s1(1) by (simp add: hash_replace_def)
  ultimately show ?thesis using hash_rel_add [OF assms(1) s1(2) assms(4) _ _ assms(6)] by auto
qed

lemma hash_rel_clear:
  assumes "hash_rel cfg D s es"
  obtains s' where "hash_clear s = Some s'" "hash_rel cfg D s' []"
  using hash_clear_ok [of cfg "map snd es" s] assms that by (auto simp: hash_rel_def)

text \<open>One operation: either the process ends, or the answer is the list's and so is the table.\<close>

lemma ut_op_ok:
  assumes "memory_limited cfg" "hash_rel cfg D s es" "distinct (map fst es)" "op_allowed D op es"
  shows "ut_op cfg op s = Some Fatal \<or> (\<exists>s'. ut_op cfg op s = Some (Done (fst (spec_op op es), s')) \<and>
     hash_rel cfg D s' (snd (spec_op op es)))"
proof (cases op)
  case (Find k)
  with hash_rel_map_of [OF assms(1-3)] assms(2) show ?thesis by simp
next
  case (Add a k)
  with assms(4) have new: "a \<in> D" "a \<notin> snd ` set es" "length es + 1 < 2 ^ 32" "length k < 2 ^ 32" by simp_all
  from hash_rel_add [OF assms(1,2) new] show ?thesis unfolding Add by auto
next
  case (Delete a)
  with assms(4) have "a \<in> snd ` set es" by simp
  from hash_rel_delete_filter [OF assms(2) this] obtain s' where
    "hash_delete a s = Some s'" "hash_rel cfg D s' (filter (\<lambda>e. snd e \<noteq> a) es)" by blast
  then show ?thesis unfolding Delete by simp
next
  case (Replace a k)
  with assms(4) have new: "a \<in> D" "a \<notin> snd ` set es" "length k < 2 ^ 32" "length es + 1 < 2 ^ 32" by simp_all
  from hash_rel_replace [OF assms(1-3) new] show ?thesis unfolding Replace by auto
next
  case Clear
  obtain s' where "hash_clear s = Some s'" "hash_rel cfg D s' []" using assms(2) by (rule hash_rel_clear)
  with Clear show ?thesis by simp
next
  case Count
  with assms(2) hash_rel_count [OF assms(2)] show ?thesis by simp
qed

lemma spec_op_distinct:
  "distinct (map fst es) \<Longrightarrow> op_allowed D op es \<Longrightarrow> distinct (map fst (snd (spec_op op es)))"
  by (cases op) (auto simp: distinct_map_filter)

lemma ut_ops_ok:
  assumes "memory_limited cfg"
  shows "hash_rel cfg D s es \<Longrightarrow> distinct (map fst es) \<Longrightarrow> ops_allowed D ops es \<Longrightarrow>
    ut_run cfg ops s = Some Fatal \<or> (\<exists>s'. ut_run cfg ops s = Some (Done (fst (spec_ops ops es), s')) \<and>
      hash_rel cfg D s' (snd (spec_ops ops es)))"
proof (induction ops arbitrary: s es)
  case (Cons op ops)
  have allowed: "op_allowed D op es" "ops_allowed D ops (snd (spec_op op es))" using Cons.prems(3) by simp_all
  from ut_op_ok [OF assms Cons.prems(1,2) allowed(1)] show ?case
  proof
    assume "\<exists>s'. ut_op cfg op s = Some (Done (fst (spec_op op es), s')) \<and>
       hash_rel cfg D s' (snd (spec_op op es))"
    then obtain s1 where s1: "ut_op cfg op s = Some (Done (fst (spec_op op es), s1))"
       "hash_rel cfg D s1 (snd (spec_op op es))" by blast
    from Cons.IH [OF s1(2) spec_op_distinct [OF Cons.prems(2) allowed(1)] allowed(2)] s1(1) show ?thesis by (auto simp: Let_def split_beta)
  qed simp
qed simp

section \<open>Properties\<close>

definition sample_config :: ut_config where
  "sample_config = \<lparr>hash_fcn = hash_ber, hash_bloom = Some 6, malloc_ok = (\<lambda>n. n \<le> 1024)\<rparr>"

definition blank_handle :: handle where
  "blank_handle = \<lparr>el_prev = None, el_next = None, hh_prev = None, hh_next = None, hkey = [], keylen = 0, hashv = 0\<rparr>"

definition sample_heap :: heap where
  "sample_heap = [1 \<mapsto> blank_handle, 2 \<mapsto> blank_handle, 3 \<mapsto> blank_handle]"

text \<open>The keys 7 and 39 share a bucket.\<close>

definition sample_ops :: "hash_op list" where
  "sample_ops = [Add 1 [7], Add 2 [39], Find [7], Find [8], Count, Delete 1, Find [7], Replace 3 [39], Find [39], Count]"

definition empty_table :: "heap \<Rightarrow> uthash" where
  "empty_table hp = \<lparr>hash_head = None, tbl = None, heap = hp\<rparr>"

lemma sample_run_not_fatal:
  "case ut_run sample_config sample_ops (empty_table sample_heap) of Some Fatal \<Rightarrow> False | _ \<Rightarrow> True"
  by code_simp

lemma sample_limited: "memory_limited sample_config"
  by (simp add: memory_limited_def sample_config_def)

lemma sample_dom: "dom sample_heap = {1, 2, 3}"
  by (auto simp: sample_heap_def)

lemma sample_allowed: "ops_allowed (dom sample_heap) sample_ops []"
  by (simp add: sample_dom sample_ops_def)

lemma sample_spec: "spec_ops sample_ops [] =
    ([Found (Some 1), Found None, Counted 2, Found None, Found (Some 2), Found (Some 3), Counted 1], [([39], 3)])"
  by (simp add: sample_ops_def)

lemma empty_rel: "hash_rel cfg (dom hp) (empty_table hp) []"
  by (simp add: hash_rel_def hash_ok_empty empty_table_def)

text \<open>C33: the pointer-level hash table implements the list of its keyed elements, with every hash
  function, with or without the Bloom filter, and through every expansion: from the empty
  table, any sequence of operations a client may issue is defined (no stray pointer, no index
  outside the buckets, no endless chain), and either ends the process because an allocation
  failed, or answers every lookup, replacement and count as the list does; the elements are
  then linked in insertion order, each in the bucket of its hash value.\<close>

theorem uthash_refines_list:
  assumes "memory_limited cfg" "ops_allowed (dom hp) ops []"
  shows "ut_run cfg ops (empty_table hp) = Some Fatal \<or>
    (\<exists>s'. ut_run cfg ops (empty_table hp) = Some (Done (fst (spec_ops ops []), s')) \<and>
       hash_ok cfg (map snd (snd (spec_ops ops []))) s')"
  using ut_ops_ok [OF assms(1) empty_rel _ assms(2)] by (auto simp: hash_rel_def)

theorem uthash_refines_list_witness:
  "\<exists>s'. ut_run sample_config sample_ops (empty_table sample_heap) =
     Some (Done ([Found (Some 1), Found None, Counted 2, Found None, Found (Some 2), Found (Some 3), Counted 1], s')) \<and>
     hash_ok sample_config [3] s'"
  using uthash_refines_list [OF sample_limited sample_allowed] sample_run_not_fatal sample_spec by auto

text \<open>The table's own consistency check never fires: after any sequence of operations a client
  may issue, \<open>HASH_FSCK\<close> finds every back pointer, every bucket count and both item counts as it
  expects them.\<close>

lemma fsck_never_fires:
  assumes "memory_limited cfg" "ops_allowed (dom hp) ops []"
    and "ut_run cfg ops (empty_table hp) = Some (Done (answers, s))"
  shows "hash_fsck s = Some True"
  using ut_ops_ok [OF assms(1) empty_rel _ assms(2)] assms(3) fsck_accepts by (auto simp: hash_rel_def)

lemma fsck_never_fires_example:
  "\<exists>answers s. ut_run sample_config sample_ops (empty_table sample_heap) = Some (Done (answers, s)) \<and>
     length answers = 7 \<and> hash_fsck s = Some True"
proof -
  obtain s where s: "ut_run sample_config sample_ops (empty_table sample_heap) =
     Some (Done ([Found (Some 1), Found None, Counted 2, Found None, Found (Some 2), Found (Some 3), Counted 1], s))"
    using ut_ops_ok [OF sample_limited empty_rel _ sample_allowed] sample_run_not_fatal sample_spec by auto
  from fsck_never_fires [OF sample_limited sample_allowed s] s show ?thesis by auto
qed

end
