(* ===== verification/Uthash_Sort.thy ===== *)
theory Uthash_Sort
  imports Uthash_Map "HOL-Library.Sorting_Algorithms"
begin

text \<open>
  \<open>HASH_SRT\<close> of \<open>uthash.h\<close>: a merge sort of the insertion order, bottom up and in place, that
  relinks the elements and leaves the buckets alone.  The comparison function is the caller's.
  The result is the library's stable sort.
\<close>

section \<open>The code\<close>

text \<open>The variables \<open>_hs_list\<close>, \<open>_hs_tail\<close>, \<open>_hs_p\<close>, \<open>_hs_q\<close>, \<open>_hs_psize\<close> and \<open>_hs_qsize\<close>.\<close>

record sorting =
  srt_heap :: heap
  srt_list :: "nat option"
  srt_tail :: "nat option"
  srt_p :: "nat option"
  srt_q :: "nat option"
  srt_psize :: u32
  srt_qsize :: u32

text \<open>\<open>q\<close> is moved on by at most \<open>insize\<close> elements, which \<open>psize\<close> counts.\<close>

partial_function (option) srt_skip ::
  "heap \<Rightarrow> u32 \<Rightarrow> u32 \<Rightarrow> u32 \<Rightarrow> nat option \<Rightarrow> (u32 \<times> nat option) option" where
  "srt_skip hp insize i psize q =
     (if i < insize
      then do {
        a \<leftarrow> q;
        h \<leftarrow> hp a;
        (if el_next h = None then Some (psize + 1, None)
         else srt_skip hp insize (i + 1) (psize + 1) (el_next h)) }
      else Some (psize, q))"

declare srt_skip.simps [code]

text \<open>The element that comes next, from one of the two runs.\<close>

definition take_p :: "sorting \<Rightarrow> (nat option \<times> sorting) option" where
  "take_p s = do {
     nxt \<leftarrow> (case srt_p s of None \<Rightarrow> Some None | Some a \<Rightarrow> do { h \<leftarrow> srt_heap s a; Some (el_next h) });
     Some (srt_p s, s\<lparr>srt_p := nxt, srt_psize := srt_psize s - 1\<rparr>) }"

definition take_q :: "sorting \<Rightarrow> (nat option \<times> sorting) option" where
  "take_q s = do {
     a \<leftarrow> srt_q s;
     h \<leftarrow> srt_heap s a;
     Some (Some a, s\<lparr>srt_q := el_next h, srt_qsize := srt_qsize s - 1\<rparr>) }"

definition srt_choose :: "(nat \<Rightarrow> nat \<Rightarrow> int) \<Rightarrow> sorting \<Rightarrow> (nat option \<times> sorting) option" where
  "srt_choose cmpfcn s =
     (if srt_psize s = 0 then take_q s
      else if srt_qsize s = 0 \<or> srt_q s = None then take_p s
      else do { a \<leftarrow> srt_p s; b \<leftarrow> srt_q s; (if cmpfcn a b \<le> 0 then take_p s else take_q s) })"

text \<open>It is appended to the list that is built.\<close>

definition srt_append :: "nat option \<Rightarrow> sorting \<Rightarrow> sorting option" where
  "srt_append e s = do {
     s \<leftarrow> (case srt_tail s of None \<Rightarrow> Some (s\<lparr>srt_list := e\<rparr>)
          | Some t \<Rightarrow> do { hp \<leftarrow> modify t (\<lambda>x. x\<lparr>el_next := e\<rparr>) (srt_heap s); Some (s\<lparr>srt_heap := hp\<rparr>) });
     hp \<leftarrow> opt_modify e (\<lambda>x. x\<lparr>el_prev := srt_tail s\<rparr>) (srt_heap s);
     Some (s\<lparr>srt_heap := hp, srt_tail := e\<rparr>) }"

partial_function (option) srt_merge :: "(nat \<Rightarrow> nat \<Rightarrow> int) \<Rightarrow> sorting \<Rightarrow> sorting option" where
  "srt_merge cmpfcn s =
     (if srt_psize s > 0 \<or> srt_qsize s > 0 \<and> srt_q s \<noteq> None
      then do { (e, s) \<leftarrow> srt_choose cmpfcn s; s \<leftarrow> srt_append e s; srt_merge cmpfcn s }
      else Some s)"

declare srt_merge.simps [code]

text \<open>A pass merges the runs of length \<open>insize\<close> in pairs, and counts the merges.\<close>

partial_function (option) srt_pass ::
  "(nat \<Rightarrow> nat \<Rightarrow> int) \<Rightarrow> u32 \<Rightarrow> u32 \<Rightarrow> sorting \<Rightarrow> (u32 \<times> sorting) option" where
  "srt_pass cmpfcn insize nmerges s = (case srt_p s of None \<Rightarrow> Some (nmerges, s)
     | Some a \<Rightarrow> do {
         (psize, q) \<leftarrow> srt_skip (srt_heap s) insize 0 0 (Some a);
         s \<leftarrow> srt_merge cmpfcn (s\<lparr>srt_q := q, srt_psize := psize, srt_qsize := insize\<rparr>);
         srt_pass cmpfcn insize (nmerges + 1) (s\<lparr>srt_p := srt_q s\<rparr>) })"

declare srt_pass.simps [code]

partial_function (option) srt_loop :: "(nat \<Rightarrow> nat \<Rightarrow> int) \<Rightarrow> u32 \<Rightarrow> sorting \<Rightarrow> sorting option" where
  "srt_loop cmpfcn insize s = do {
     (nmerges, s) \<leftarrow> srt_pass cmpfcn insize 0 (s\<lparr>srt_p := srt_list s, srt_list := None, srt_tail := None\<rparr>);
     hp \<leftarrow> opt_modify (srt_tail s) (\<lambda>x. x\<lparr>el_next := None\<rparr>) (srt_heap s);
     (let s = s\<lparr>srt_heap := hp\<rparr>
      in if nmerges \<le> 1 then Some s else srt_loop cmpfcn (insize * 2) s) }"

declare srt_loop.simps [code]

definition hash_srt :: "(nat \<Rightarrow> nat \<Rightarrow> int) \<Rightarrow> uthash \<Rightarrow> uthash option" where
  "hash_srt cmpfcn s = (case hash_head s of None \<Rightarrow> Some s
     | Some a \<Rightarrow> do {
         t \<leftarrow> tbl s;
         r \<leftarrow> srt_loop cmpfcn 1 \<lparr>srt_heap = heap s, srt_list = Some a, srt_tail = None, srt_p = None,
                srt_q = None, srt_psize = 0, srt_qsize = 0\<rparr>;
         Some \<lparr>hash_head = srt_list r, tbl = Some (t\<lparr>tbl_tail := srt_tail r\<rparr>), heap = srt_heap r\<rparr> })"

section \<open>The lists a pass works on\<close>

text \<open>Elements that are still to be merged are reached by their \<open>next\<close> pointers only.\<close>

fun nexts :: "links \<Rightarrow> nat list \<Rightarrow> nat option \<Rightarrow> bool" where
  "nexts l [] n \<longleftrightarrow> True"
| "nexts l (a # as) n \<longleftrightarrow> map_option fst (l a) = Some (first as n) \<and> nexts l as n"

lemma seg_nexts: "seg l p xs n \<Longrightarrow> nexts l xs n"
  by (induction xs arbitrary: p) auto

lemma nexts_cong: "\<forall>a \<in> set xs. map_option fst (l' a) = map_option fst (l a) \<Longrightarrow> nexts l' xs n \<longleftrightarrow> nexts l xs n"
  by (induction xs) auto

lemma nexts_append: "nexts l (xs @ ys) n \<longleftrightarrow> nexts l xs (first ys n) \<and> nexts l ys n"
  by (induction xs) (auto simp: first_append)

lemma nexts_at:
  assumes "nexts (app_links hp) (a # as) n"
  obtains h where "hp a = Some h" "el_next h = first as n" "nexts (app_links hp) as n"
  using assms by (cases "hp a") (auto simp: app_links_def)

text \<open>The next element is linked behind the list that is built; its own \<open>next\<close> is not touched yet.\<close>

lemma append_links:
  assumes "seg l None out n" "distinct (out @ [e])" "e \<in> dom l"
  obtains l1 l2 n' where "opt_next (last_of out None) (Some e) l = Some l1" "opt_prev (Some e) (last_of out None) l1 = Some l2"
    "seg l2 None (out @ [e]) n'" "\<And>b. b \<notin> set out \<Longrightarrow> map_option fst (l2 b) = map_option fst (l b)"
proof -
  from assms(3) obtain x y where e: "l e = Some (x, y)" by auto
  show thesis
  proof (cases out rule: rev_cases)
    case Nil
    with e show thesis
      by (intro that [of l "l(e \<mapsto> (x, None))" x]) (auto simp: opt_next_def opt_prev_def set_prev_def)
  next
    case (snoc us t)
    with assms(1,2) have "l t = Some (n, last_of us None)" "t \<noteq> e" "seg l None us (Some t)" "t \<notin> set us" "e \<notin> set us"
      by (auto simp: seg_append)
    with snoc e show thesis
      by (intro that [of "l(t \<mapsto> (Some e, last_of us None))" "l(t \<mapsto> (Some e, last_of us None), e \<mapsto> (x, Some t))" x])
        (auto simp: opt_next_def opt_prev_def set_next_def set_prev_def seg_append)
  qed
qed

text \<open>The list \<open>out\<close> is built; \<open>ps\<close> is left of the first run, and \<open>qs\<close> of everything behind it.\<close>

definition same_table :: "heap \<Rightarrow> heap \<Rightarrow> bool" where
  "same_table hp hp' \<longleftrightarrow> bkt_links hp' = bkt_links hp \<and> key_data hp' = key_data hp"

lemma same_table_trans: "same_table hp hp1 \<Longrightarrow> same_table hp1 hp2 \<Longrightarrow> same_table hp hp2"
  by (simp add: same_table_def)

lemma same_table_dom: "same_table hp hp' \<Longrightarrow> dom hp' = dom hp"
  unfolding same_table_def using dom_views by blast

definition merging :: "nat list \<Rightarrow> nat list \<Rightarrow> nat \<Rightarrow> nat list \<Rightarrow> sorting \<Rightarrow> bool" where
  "merging out ps k qs s \<longleftrightarrow> distinct (out @ ps @ qs) \<and>
     (\<exists>n. seg (app_links (srt_heap s)) None out n) \<and> srt_list s = first out None \<and> srt_tail s = last_of out None \<and>
     (\<exists>n. nexts (app_links (srt_heap s)) ps n) \<and> (ps \<noteq> [] \<longrightarrow> srt_p s = first ps None) \<and>
     nexts (app_links (srt_heap s)) qs None \<and> srt_q s = first qs None \<and>
     unat (srt_psize s) = length ps \<and> unat (srt_qsize s) = k"

lemma count_down: "unat w = Suc n \<Longrightarrow> unat (w - 1 :: u32) = n"
  by (cases "w = 0") (simp_all add: unat_minus_one)

lemma take_q_ok:
  assumes "merging out ps (Suc k) (b # qs) s"
  obtains s1 where "take_q s = Some (Some b, s1)" "srt_heap s1 = srt_heap s" "srt_list s1 = srt_list s"
    "srt_tail s1 = srt_tail s" "srt_p s1 = srt_p s" "srt_psize s1 = srt_psize s" "srt_q s1 = first qs None"
    "unat (srt_qsize s1) = k"
proof -
  have m: "nexts (app_links (srt_heap s)) (b # qs) None" "srt_q s = Some b" "unat (srt_qsize s) = Suc k"
    using assms by (auto simp: merging_def simp del: nexts.simps)
  obtain h where h: "srt_heap s b = Some h" "el_next h = first qs None" using m(1) by (rule nexts_at)
  show thesis
    by (rule that [of "s\<lparr>srt_q := el_next h, srt_qsize := srt_qsize s - 1\<rparr>"])
      (simp_all add: take_q_def m(2) h count_down [OF m(3)])
qed

lemma take_p_ok:
  assumes "merging out (a # ps) k qs s"
  obtains s1 where "take_p s = Some (Some a, s1)" "srt_heap s1 = srt_heap s" "srt_list s1 = srt_list s"
    "srt_tail s1 = srt_tail s" "srt_q s1 = srt_q s" "srt_qsize s1 = srt_qsize s" "ps \<noteq> [] \<longrightarrow> srt_p s1 = first ps None"
    "unat (srt_psize s1) = length ps"
proof -
  from assms obtain n where m: "nexts (app_links (srt_heap s)) (a # ps) n" "srt_p s = Some a" "unat (srt_psize s) = Suc (length ps)"
    by (auto simp: merging_def simp del: nexts.simps)
  obtain h where h: "srt_heap s a = Some h" "el_next h = first ps n" using m(1) by (rule nexts_at)
  show thesis
    by (rule that [of "s\<lparr>srt_p := el_next h, srt_psize := srt_psize s - 1\<rparr>"])
      (use m(2) h count_down [OF m(3)] in \<open>auto simp: take_p_def first_def split: list.split\<close>)
qed

text \<open>Which element is taken is the decision of the merge of lists.\<close>

definition agrees :: "(nat \<Rightarrow> nat \<Rightarrow> int) \<Rightarrow> nat comparator \<Rightarrow> bool" where
  "agrees cmpfcn c \<longleftrightarrow> (\<forall>a b. cmpfcn a b \<le> 0 \<longleftrightarrow> compare c a b \<noteq> Greater)"

abbreviation merged :: "nat comparator \<Rightarrow> nat list \<Rightarrow> nat list \<Rightarrow> nat list" where
  "merged \<equiv> Sorting_Algorithms.merge"

lemma append_ok:
  assumes "\<exists>n. seg (app_links (srt_heap s)) None out n" "srt_list s = first out None" "srt_tail s = last_of out None"
    and "distinct (out @ [e])" "e \<in> dom (srt_heap s)"
  obtains s1 where "srt_append (Some e) s = Some s1" "\<exists>n. seg (app_links (srt_heap s1)) None (out @ [e]) n"
    "srt_list s1 = first (out @ [e]) None" "srt_tail s1 = Some e" "same_table (srt_heap s) (srt_heap s1)"
    "\<And>b. b \<notin> set out \<Longrightarrow> map_option fst (app_links (srt_heap s1) b) = map_option fst (app_links (srt_heap s) b)"
    "srt_p s1 = srt_p s" "srt_q s1 = srt_q s" "srt_psize s1 = srt_psize s" "srt_qsize s1 = srt_qsize s"
proof -
  from assms(1) obtain n where n: "seg (app_links (srt_heap s)) None out n" by blast
  have "e \<in> dom (app_links (srt_heap s))" using assms(5) by (auto simp: domIff)
  with n assms(4) obtain l1 l2 n' where l: "opt_next (last_of out None) (Some e) (app_links (srt_heap s)) = Some l1"
    "opt_prev (Some e) (last_of out None) l1 = Some l2" "seg l2 None (out @ [e]) n'"
    "\<And>b. b \<notin> set out \<Longrightarrow> map_option fst (l2 b) = map_option fst (app_links (srt_heap s) b)" by (rule append_links) blast
  obtain hp1 where hp1: "opt_modify (last_of out None) (\<lambda>x. x\<lparr>el_next := Some e\<rparr>) (srt_heap s) = Some hp1" "app_links hp1 = l1"
    "bkt_links hp1 = bkt_links (srt_heap s)" "key_data hp1 = key_data (srt_heap s)" using l(1) by (rule el_next_view)
  have "opt_prev (Some e) (last_of out None) (app_links hp1) = Some l2" using l(2) hp1(2) by simp
  then obtain hp2 where hp2: "opt_modify (Some e) (\<lambda>x. x\<lparr>el_prev := last_of out None\<rparr>) hp1 = Some hp2" "app_links hp2 = l2"
    "bkt_links hp2 = bkt_links hp1" "key_data hp2 = key_data hp1" by (rule el_prev_view)
  let ?s = "s\<lparr>srt_list := (if out = [] then Some e else srt_list s), srt_heap := hp2, srt_tail := Some e\<rparr>"
  have "srt_append (Some e) s = Some ?s"
    using hp1(1) hp2(1) assms(3) by (cases "out = []") (auto simp: srt_append_def opt_modify_def last_of_def)
  moreover have "same_table (srt_heap s) hp2" using hp1 hp2 by (simp add: same_table_def)
  moreover have "(if out = [] then Some e else srt_list s) = first (out @ [e]) None"
    using assms(2) by (cases out) simp_all
  ultimately show thesis using l(3,4) hp2(2) by (intro that [of ?s]) auto
qed

lemma nexts_upd:
  assumes "\<And>b. b \<notin> set out \<Longrightarrow> map_option fst (l' b) = map_option fst (l b)" "set xs \<inter> set out = {}"
  shows "nexts l' xs n \<longleftrightarrow> nexts l xs n"
  using assms by (intro nexts_cong) blast

lemma merging_append:
  assumes "merging out ps k qs s" "e \<in> set ps \<union> set qs" "set ps' \<subseteq> set ps" "set qs' \<subseteq> set qs" "distinct (ps' @ qs')"
    and "e \<notin> set ps' \<union> set qs'"
    and "srt_heap s1 = srt_heap s" "srt_list s1 = srt_list s" "srt_tail s1 = srt_tail s"
    and "\<exists>n. nexts (app_links (srt_heap s)) ps' n" "ps' \<noteq> [] \<longrightarrow> srt_p s1 = first ps' None"
    and "nexts (app_links (srt_heap s)) qs' None" "srt_q s1 = first qs' None"
    and "unat (srt_psize s1) = length ps'" "unat (srt_qsize s1) = k'"
  obtains s2 where "srt_append (Some e) s1 = Some s2" "merging (out @ [e]) ps' k' qs' s2" "same_table (srt_heap s) (srt_heap s2)"
proof -
  have m: "\<exists>n. seg (app_links (srt_heap s1)) None out n" "srt_list s1 = first out None" "srt_tail s1 = last_of out None"
    "distinct (out @ [e])" using assms(1,2,7-9) by (auto simp: merging_def)
  have "nexts l xs n \<Longrightarrow> a \<in> set xs \<Longrightarrow> l a \<noteq> None" for l a xs n by (induction xs) auto
  with assms(1,2,7) have "e \<in> dom (srt_heap s1)"
    unfolding merging_def by (metis Un_iff domIff views_None(1))
  with m obtain s2 where s2: "srt_append (Some e) s1 = Some s2" "\<exists>n. seg (app_links (srt_heap s2)) None (out @ [e]) n"
    "srt_list s2 = first (out @ [e]) None" "srt_tail s2 = Some e" "same_table (srt_heap s1) (srt_heap s2)"
    "\<And>b. b \<notin> set out \<Longrightarrow> map_option fst (app_links (srt_heap s2) b) = map_option fst (app_links (srt_heap s1) b)"
    "srt_p s2 = srt_p s1" "srt_q s2 = srt_q s1" "srt_psize s2 = srt_psize s1" "srt_qsize s2 = srt_qsize s1"
    by (rule append_ok) blast
  have out: "set ps' \<inter> set out = {}" "set qs' \<inter> set out = {}" "distinct ((out @ [e]) @ ps' @ qs')"
    using assms(1-6) by (auto simp: merging_def)
  have fr: "map_option fst (app_links (srt_heap s2) b) = map_option fst (app_links (srt_heap s) b)" if "b \<notin> set out" for b
    using s2(6) [OF that] assms(7) by simp
  have "nexts (app_links (srt_heap s2)) ps' n \<longleftrightarrow> nexts (app_links (srt_heap s)) ps' n"
    "nexts (app_links (srt_heap s2)) qs' n \<longleftrightarrow> nexts (app_links (srt_heap s)) qs' n" for n
    by (rule nexts_upd [OF fr]; use out in blast)+
  note same = this
  have "\<exists>n. nexts (app_links (srt_heap s2)) ps' n" using assms(10) same(1) by blast
  then have "merging (out @ [e]) ps' k' qs' s2"
    using s2(2-4,7-10) out(3) assms(11-15) same(2) unfolding merging_def by (intro conjI) simp_all
  with s2(1,5) assms(7) that show thesis by simp
qed

lemma merge_step:
  assumes "agrees cmpfcn c" "merging out ps k qs s" "ps \<noteq> [] \<or> k > 0 \<and> qs \<noteq> []"
  obtains e s1 s2 ps' k' qs' where "srt_choose cmpfcn s = Some (Some e, s1)" "srt_append (Some e) s1 = Some s2"
    "merging (out @ [e]) ps' k' qs' s2" "same_table (srt_heap s) (srt_heap s2)"
    "merged c ps (take k qs) = e # merged c ps' (take k' qs')" "drop k' qs' = drop k qs" "length ps' + k' < length ps + k"
proof -
  note m = assms(2) [unfolded merging_def]
  define left where "left \<longleftrightarrow> ps \<noteq> [] \<and> (k = 0 \<or> qs = [] \<or> compare c (hd ps) (hd qs) \<noteq> Greater)"
  show thesis
  proof (cases "left")
    case True
    then obtain a ps' where ps: "ps = a # ps'" by (cases ps) (auto simp: left_def)
    from take_p_ok [OF assms(2) [unfolded ps]] obtain s1 where s1: "take_p s = Some (Some a, s1)" "srt_heap s1 = srt_heap s"
      "srt_list s1 = srt_list s" "srt_tail s1 = srt_tail s" "srt_q s1 = srt_q s" "srt_qsize s1 = srt_qsize s"
      "ps' \<noteq> [] \<longrightarrow> srt_p s1 = first ps' None" "unat (srt_psize s1) = length ps'" by blast
    have nx: "\<exists>n. nexts (app_links (srt_heap s)) ps' n" "nexts (app_links (srt_heap s)) qs None" using m ps by auto
    obtain s2 where s2: "srt_append (Some a) s1 = Some s2" "merging (out @ [a]) ps' k qs s2" "same_table (srt_heap s) (srt_heap s2)"
      by (rule merging_append [OF assms(2), where e = a and ps' = ps' and qs' = qs and k' = k and ?s1.0 = s1])
        (use m ps s1 nx in auto)
    have "srt_choose cmpfcn s = take_p s"
      using True assms(1) m ps by (cases qs) (auto simp: srt_choose_def left_def agrees_def unat_eq_0)
    moreover have "merged c ps (take k qs) = a # merged c ps' (take k qs)"
      using True ps by (cases ps'; cases qs; cases k) (auto simp: left_def)
    ultimately show thesis using s1(1) s2 ps by (intro that) auto
  next
    case False
    with assms(3) obtain b qs' k' where q: "qs = b # qs'" "k = Suc k'" by (cases qs; cases k) (auto simp: left_def)
    from take_q_ok [OF assms(2) [unfolded q]] obtain s1 where s1: "take_q s = Some (Some b, s1)" "srt_heap s1 = srt_heap s"
      "srt_list s1 = srt_list s" "srt_tail s1 = srt_tail s" "srt_p s1 = srt_p s" "srt_psize s1 = srt_psize s"
      "srt_q s1 = first qs' None" "unat (srt_qsize s1) = k'" by blast
    have nx: "\<exists>n. nexts (app_links (srt_heap s)) ps n" "nexts (app_links (srt_heap s)) qs' None" using m q by auto
    obtain s2 where s2: "srt_append (Some b) s1 = Some s2" "merging (out @ [b]) ps k' qs' s2" "same_table (srt_heap s) (srt_heap s2)"
      by (rule merging_append [OF assms(2), where e = b and ps' = ps and qs' = qs' and k' = k' and ?s1.0 = s1])
        (use m q s1 nx in auto)
    have "srt_choose cmpfcn s = take_q s"
      using False assms(1) m q by (cases ps) (auto simp: srt_choose_def left_def agrees_def unat_eq_0)
    moreover have "merged c ps (take k qs) = b # merged c ps (take k' qs')"
      using False q by (cases ps) (auto simp: left_def)
    ultimately show thesis using s1(1) s2 q by (intro that) auto
  qed
qed

lemma srt_merge_ok:
  assumes "agrees cmpfcn c"
  shows "merging out ps k qs s \<Longrightarrow>
    \<exists>s' k'. srt_merge cmpfcn s = Some s' \<and> merging (out @ merged c ps (take k qs)) [] k' (drop k qs) s' \<and>
      same_table (srt_heap s) (srt_heap s')"
proof (induction "length ps + k" arbitrary: out ps k qs s rule: less_induct)
  case less
  note m = less.prems [unfolded merging_def]
  have go: "(srt_psize s > 0 \<or> srt_qsize s > 0 \<and> srt_q s \<noteq> None) \<longleftrightarrow> (ps \<noteq> [] \<or> k > 0 \<and> qs \<noteq> [])"
    using m by (auto simp: word_gt_0 first_None simp flip: unat_eq_0)
  show ?case
  proof (cases "ps \<noteq> [] \<or> k > 0 \<and> qs \<noteq> []")
    case True
    with assms less.prems obtain e s1 s2 ps' k' qs' where st: "srt_choose cmpfcn s = Some (Some e, s1)"
      "srt_append (Some e) s1 = Some s2" "merging (out @ [e]) ps' k' qs' s2" "same_table (srt_heap s) (srt_heap s2)"
      "merged c ps (take k qs) = e # merged c ps' (take k' qs')" "drop k' qs' = drop k qs" "length ps' + k' < length ps + k"
      by (rule merge_step)
    have "srt_merge cmpfcn s = srt_merge cmpfcn s2"
      using True go st(1,2) by (subst srt_merge.simps) simp
    with less.hyps [OF st(7,3)] st(4-6) same_table_trans show ?thesis by fastforce
  next
    case False
    with go have "\<not> (srt_psize s > 0 \<or> srt_qsize s > 0 \<and> srt_q s \<noteq> None)" by blast
    then have "srt_merge cmpfcn s = Some s" by (subst srt_merge.simps) (simp only: if_False)
    moreover have "merged c ps (take k qs) = []" "drop k qs = qs" using False by auto
    ultimately show ?thesis using less.prems False by (auto simp: same_table_def)
  qed
qed

section \<open>Passes\<close>

lemma u32_less: "unat (w :: u32) < 4294967296"
  by (rule less_le_trans [OF unsigned_less]) simp

lemma srt_skip_ok:
  "nexts (app_links hp) qs None \<Longrightarrow> unat i + r = unat insize \<Longrightarrow> r = 0 \<or> qs \<noteq> [] \<Longrightarrow>
   srt_skip hp insize i psize (first qs None) = Some (psize + of_nat (min r (length qs)), first (drop r qs) None)"
proof (induction r arbitrary: i psize qs)
  case 0
  then have "\<not> i < insize" by (simp add: word_less_nat_alt)
  then show ?case by (subst srt_skip.simps) simp
next
  case (Suc r)
  then obtain a qs' where qs: "qs = a # qs'" by (cases qs) auto
  from Suc.prems(1) obtain h where h: "hp a = Some h" "el_next h = first qs' None" "nexts (app_links hp) qs' None"
    unfolding qs by (rule nexts_at)
  have lt: "i < insize" using Suc.prems(2) by (simp add: word_less_nat_alt)
  then have i: "unat (i + 1) = unat i + 1" using Suc.prems(2) u32_less [of insize] by (simp add: unat_word_ariths)
  show ?case
  proof (cases "qs' = []")
    case True
    with lt h qs show ?thesis by (subst srt_skip.simps) simp
  next
    case False
    have "srt_skip hp insize i psize (first qs None) = srt_skip hp insize (i + 1) (psize + 1) (first qs' None)"
      using lt h qs False by (subst srt_skip.simps) (simp add: first_None)
    also have "\<dots> = Some (psize + 1 + of_nat (min r (length qs')), first (drop r qs') None)"
      using Suc.prems(2) i False by (intro Suc.IH [OF h(3)]) simp_all
    finally show ?thesis using qs by (simp add: add.assoc)
  qed
qed

text \<open>What a pass makes of a list.\<close>

function merge_pass :: "nat comparator \<Rightarrow> nat \<Rightarrow> nat list \<Rightarrow> nat list" where
  "merge_pass c n xs =
     (if n = 0 \<or> xs = [] then []
      else merged c (take n xs) (take n (drop n xs)) @ merge_pass c n (drop (2 * n) xs))"
  by pat_completeness auto
termination by (relation "measure (\<lambda>(c, n, xs). length xs)") auto

declare merge_pass.simps [simp del]

lemma merge_pass_simps [simp]: "merge_pass c n [] = []"
  by (simp add: merge_pass.simps)

function pass_count :: "nat \<Rightarrow> 'a list \<Rightarrow> nat" where
  "pass_count n xs = (if n = 0 \<or> xs = [] then 0 else Suc (pass_count n (drop (2 * n) xs)))"
  by pat_completeness auto
termination by (relation "measure (\<lambda>(n, xs). length xs)") auto

declare pass_count.simps [simp del]

lemma pass_count_le: "pass_count n xs \<le> length xs"
proof (induction n xs rule: pass_count.induct)
  case (1 n xs)
  show ?case
  proof (cases "n = 0 \<or> xs = []")
    case False
    then have "0 < length xs" "0 < n" "pass_count n xs = Suc (pass_count n (drop (2 * n) xs))"
      by (simp_all add: pass_count.simps [of n xs])
    moreover have "pass_count n (drop (2 * n) xs) \<le> length xs - 2 * n" using 1 False by simp
    ultimately show ?thesis by linarith
  qed (simp add: pass_count.simps [of n xs])
qed

lemma pass_count_1: "0 < n \<Longrightarrow> pass_count n xs \<le> 1 \<longleftrightarrow> length xs \<le> 2 * n"
  by (subst pass_count.simps, subst pass_count.simps) auto

definition passing :: "nat list \<Rightarrow> nat list \<Rightarrow> sorting \<Rightarrow> bool" where
  "passing out qs s \<longleftrightarrow> distinct (out @ qs) \<and>
     (\<exists>n. seg (app_links (srt_heap s)) None out n) \<and> srt_list s = first out None \<and> srt_tail s = last_of out None \<and>
     nexts (app_links (srt_heap s)) qs None \<and> srt_p s = first qs None"

lemma srt_pass_ok:
  assumes "agrees cmpfcn c" "0 < unat insize"
  shows "passing out qs s \<Longrightarrow>
    \<exists>s'. srt_pass cmpfcn insize nm s = Some (nm + of_nat (pass_count (unat insize) qs), s') \<and>
      passing (out @ merge_pass c (unat insize) qs) [] s' \<and> same_table (srt_heap s) (srt_heap s')"
proof (induction "length qs" arbitrary: out qs s nm rule: less_induct)
  case less
  note p = less.prems [unfolded passing_def]
  let ?n = "unat insize"
  show ?case
  proof (cases qs)
    case Nil
    with less.prems show ?thesis
      by (subst srt_pass.simps) (simp add: passing_def same_table_def pass_count.simps)
  next
    case (Cons a qs')
    let ?psize = "of_nat (min ?n (length qs)) :: u32"
    let ?s = "s\<lparr>srt_q := first (drop ?n qs) None, srt_psize := ?psize, srt_qsize := insize\<rparr>"
    have skip: "srt_skip (srt_heap s) insize 0 0 (first qs None) = Some (0 + ?psize, first (drop ?n qs) None)"
      using p Cons by (intro srt_skip_ok) simp_all
    have sz: "unat ?psize = length (take ?n qs)"
      using u32_less [of insize] by (simp add: min.commute unat_of_nat min_def)
    have nx: "nexts (app_links (srt_heap s)) (take ?n qs) (first (drop ?n qs) None)"
        "nexts (app_links (srt_heap s)) (drop ?n qs) None"
      using p nexts_append [of _ "take ?n qs" "drop ?n qs"] by simp_all
    have "first (take ?n qs) None = first qs None" using assms(2) Cons by (cases ?n) simp_all
    with p sz nx have "merging out (take ?n qs) ?n (drop ?n qs) ?s"
      unfolding merging_def by (auto simp: distinct_append [symmetric] simp del: distinct_append)
    then obtain s1 k where s1: "srt_merge cmpfcn ?s = Some s1"
      "merging (out @ merged c (take ?n qs) (take ?n (drop ?n qs))) [] k (drop ?n (drop ?n qs)) s1"
      "same_table (srt_heap ?s) (srt_heap s1)" using srt_merge_ok [OF assms(1)] by blast
    let ?out = "out @ merged c (take ?n qs) (take ?n (drop ?n qs))" and ?qs = "drop (2 * ?n) qs"
    have p1: "passing ?out ?qs (s1\<lparr>srt_p := srt_q s1\<rparr>)"
      using s1(2) by (simp add: merging_def passing_def mult_2)
    have "length ?qs < length qs" using Cons assms(2) by simp
    from less.hyps [OF this p1, of "nm + 1"] obtain s2 where
      s2: "srt_pass cmpfcn insize (nm + 1) (s1\<lparr>srt_p := srt_q s1\<rparr>) = Some (nm + 1 + of_nat (pass_count ?n ?qs), s2)"
      "passing (?out @ merge_pass c ?n ?qs) [] s2" "same_table (srt_heap s1) (srt_heap s2)" by auto
    have pc: "pass_count ?n qs = Suc (pass_count ?n ?qs)" using Cons assms(2) by (subst pass_count.simps) simp
    have "srt_pass cmpfcn insize nm s = Some (nm + of_nat (pass_count ?n qs), s2)"
      using p Cons skip s1(1) s2(1) pc by (subst srt_pass.simps) (simp add: add.assoc)
    moreover have "merge_pass c ?n qs = merged c (take ?n qs) (take ?n (drop ?n qs)) @ merge_pass c ?n ?qs"
      using Cons assms(2) by (subst merge_pass.simps) simp
    ultimately show ?thesis using s2(2,3) s1(3) same_table_trans by (auto simp: same_table_def)
  qed
qed

section \<open>The result is the stable sort\<close>

text \<open>Every run of length \<open>n\<close> is sorted.\<close>

function runs :: "nat comparator \<Rightarrow> nat \<Rightarrow> nat list \<Rightarrow> bool" where
  "runs c n xs = (if n = 0 \<or> xs = [] then True
     else if Sorting_Algorithms.sorted c (take n xs) then runs c n (drop n xs) else False)"
  by pat_completeness auto
termination by (relation "measure (\<lambda>(c, n, xs). length xs)") auto

declare runs.simps [simp del]

lemma runs_Nil [simp]: "runs c n []"
  by (simp add: runs.simps)

lemma runs_unfold: "0 < n \<Longrightarrow> runs c n xs \<longleftrightarrow> Sorting_Algorithms.sorted c (take n xs) \<and> runs c n (drop n xs)"
  by (cases "xs = []") (simp_all add: runs.simps [of c n xs])

lemma runs_1: "runs c (Suc 0) xs"
proof (induction xs)
  case (Cons x xs)
  then show ?case by (subst runs_unfold) simp_all
qed simp

lemma length_merged [simp]: "length (merged c xs ys) = length xs + length ys"
  using mset_merge [of c xs ys] by (metis size_mset size_union)

lemma merge_pass_unfold:
  "0 < n \<Longrightarrow> merge_pass c n xs = merged c (take n xs) (take n (drop n xs)) @ merge_pass c n (drop (2 * n) xs)"
  by (cases "xs = []") (simp_all add: merge_pass.simps [of c n xs])

lemma runs_double:
  assumes "0 < n" "runs c n xs"
  shows "Sorting_Algorithms.sorted c (merged c (take n xs) (take n (drop n xs)))" "runs c n (drop (2 * n) xs)"
  using assms runs_unfold [OF assms(1), of c xs] runs_unfold [OF assms(1), of c "drop n xs"]
  by (simp_all add: sorted_merge mult_2)

lemma merge_pass_runs:
  assumes "0 < n"
  shows "runs c n xs \<Longrightarrow> runs c (2 * n) (merge_pass c n xs)"
proof (induction "length xs" arbitrary: xs rule: less_induct)
  case less
  show ?case
  proof (cases "xs = []")
    case False
    note d = runs_double [OF assms less.prems]
    let ?m = "merged c (take n xs) (take n (drop n xs))" and ?r = "merge_pass c n (drop (2 * n) xs)"
    have r: "runs c (2 * n) ?r" using less.hyps [OF _ d(2)] False assms by simp
    have "take (2 * n) (?m @ ?r) = ?m \<and> drop (2 * n) (?m @ ?r) = ?r"
    proof (cases "length xs \<le> 2 * n")
      case False
      then have "length ?m = 2 * n" by simp
      then show ?thesis by simp
    qed (auto simp: min_def)
    moreover have "0 < 2 * n" using assms by simp
    moreover have "merge_pass c n xs = ?m @ ?r" by (rule merge_pass_unfold [OF assms])
    ultimately show ?thesis using d(1) r runs_unfold [of "2 * n" c "?m @ ?r"] by argo
  qed simp
qed

lemma merge_pass_same:
  assumes "0 < n"
  shows "runs c n xs \<Longrightarrow> mset (merge_pass c n xs) = mset xs \<and> stable_segment c y (merge_pass c n xs) = stable_segment c y xs"
proof (induction "length xs" arbitrary: xs rule: less_induct)
  case less
  show ?case
  proof (cases "xs = []")
    case False
    let ?m = "merged c (take n xs) (take n (drop n xs))" and ?r = "drop (2 * n) xs"
    have xs: "xs = take n xs @ take n (drop n xs) @ ?r" by (simp add: mult_2 flip: drop_drop)
    have so: "Sorting_Algorithms.sorted c (take n xs)" "Sorting_Algorithms.sorted c (take n (drop n xs))"
      using less.prems runs_unfold [OF assms, of c xs] runs_unfold [OF assms, of c "drop n xs"] by simp_all
    have "mset ?m = mset (take n xs) + mset (take n (drop n xs))" by (rule mset_merge)
    moreover have "stable_segment c y ?m = stable_segment c y (take n xs) @ stable_segment c y (take n (drop n xs))"
      by (simp only: filter_merge [OF so] merge_stable_segments)
    moreover have "mset (merge_pass c n ?r) = mset ?r \<and> stable_segment c y (merge_pass c n ?r) = stable_segment c y ?r"
      using less.hyps [OF _ runs_double(2) [OF assms less.prems]] False assms by simp
    moreover have "mset xs = mset (take n xs) + mset (take n (drop n xs)) + mset ?r"
      by (subst xs) (simp only: mset_append add.assoc)
    moreover have "stable_segment c y xs = stable_segment c y (take n xs) @ stable_segment c y (take n (drop n xs)) @ stable_segment c y ?r"
      by (subst xs) (simp only: filter_append)
    moreover have "merge_pass c n xs = ?m @ merge_pass c n ?r" by (rule merge_pass_unfold [OF assms])
    ultimately show ?thesis by (simp only: mset_append filter_append append_assoc simp_thms)
  qed simp
qed

lemma sort_merge_pass:
  assumes "0 < n" "runs c n xs"
  shows "Sorting_Algorithms.sort c (merge_pass c n xs) = Sorting_Algorithms.sort c xs"
  using merge_pass_same [OF assms] by (intro sort_eqI) (simp_all add: stable_sort)

lemma sort_done:
  assumes "0 < n" "runs c n xs" "length xs \<le> 2 * n"
  shows "merge_pass c n xs = Sorting_Algorithms.sort c xs"
proof -
  have "length (merge_pass c n xs) = length xs" using merge_pass_same [OF assms(1,2)] by (metis size_mset)
  then have "Sorting_Algorithms.sorted c (merge_pass c n xs)"
    using merge_pass_runs [OF assms(1,2)] runs_unfold [of "2 * n" c "merge_pass c n xs"] assms(1,3) by simp
  then show ?thesis using merge_pass_same [OF assms(1,2)] by (intro sort_eqI [symmetric]) simp_all
qed

lemma close_links:
  assumes "seg l None out n" "distinct out"
  obtains l' where "opt_next (last_of out None) None l = Some l'" "dll l' out"
proof (cases out rule: rev_cases)
  case Nil
  then show thesis by (intro that [of l]) (simp_all add: opt_next_def)
next
  case (snoc us t)
  with assms show thesis
    by (intro that [of "l(t \<mapsto> (None, last_of us None))"]) (auto simp: opt_next_def set_next_def seg_append)
qed

lemma srt_loop_ok:
  assumes "agrees cmpfcn c" "length xs0 \<le> 2 ^ 31"
  shows "0 < unat insize \<Longrightarrow> runs c (unat insize) xs \<Longrightarrow> length xs = length xs0 \<Longrightarrow> distinct xs \<Longrightarrow>
    nexts (app_links (srt_heap s)) xs None \<Longrightarrow> srt_list s = first xs None \<Longrightarrow>
    \<exists>s'. srt_loop cmpfcn insize s = Some s' \<and> dll (app_links (srt_heap s')) (Sorting_Algorithms.sort c xs) \<and>
      srt_list s' = first (Sorting_Algorithms.sort c xs) None \<and> srt_tail s' = last_of (Sorting_Algorithms.sort c xs) None \<and>
      same_table (srt_heap s) (srt_heap s')"
proof (induction "2 * length xs0 - unat insize" arbitrary: insize xs s rule: less_induct)
  case less
  let ?n = "unat insize" let ?ys = "merge_pass c ?n xs"
  have "passing [] xs (s\<lparr>srt_p := srt_list s, srt_list := None, srt_tail := None\<rparr>)"
    using less.prems(4-6) by (simp add: passing_def)
  from srt_pass_ok [OF assms(1) less.prems(1) this, of 0] obtain s1 where
    s1: "srt_pass cmpfcn insize 0 (s\<lparr>srt_p := srt_list s, srt_list := None, srt_tail := None\<rparr>) =
      Some (of_nat (pass_count ?n xs), s1)" "passing ?ys [] s1" "same_table (srt_heap s) (srt_heap s1)" by auto
  obtain n where n: "seg (app_links (srt_heap s1)) None ?ys n" "distinct ?ys" "srt_list s1 = first ?ys None" "srt_tail s1 = last_of ?ys None"
    using s1(2) by (auto simp: passing_def)
  obtain l where l: "opt_next (last_of ?ys None) None (app_links (srt_heap s1)) = Some l" "dll l ?ys"
    using n(1,2) by (rule close_links)
  obtain hp where hp: "opt_modify (last_of ?ys None) (\<lambda>x. x\<lparr>el_next := None\<rparr>) (srt_heap s1) = Some hp" "app_links hp = l"
    "bkt_links hp = bkt_links (srt_heap s1)" "key_data hp = key_data (srt_heap s1)" using l(1) by (rule el_next_view)
  let ?s = "s1\<lparr>srt_heap := hp\<rparr>"
  have same: "same_table (srt_heap s) hp" using s1(3) hp(3,4) by (simp add: same_table_def)
  have len: "length ?ys = length xs" using merge_pass_same [OF less.prems(1,2)] by (metis size_mset)
  have "pass_count ?n xs < 2 ^ 32" using pass_count_le [of ?n xs] less.prems(3) assms(2) by simp
  then have u: "unat (of_nat (pass_count ?n xs) :: u32) = pass_count ?n xs" by (simp add: unat_of_nat)
  have "(of_nat (pass_count ?n xs) :: u32) \<le> 1 \<longleftrightarrow> pass_count ?n xs \<le> 1"
    unfolding word_le_nat_alt u by simp
  then have stop: "(of_nat (pass_count ?n xs) :: u32) \<le> 1 \<longleftrightarrow> length xs \<le> 2 * ?n"
    using pass_count_1 [OF less.prems(1)] by simp
  have run: "srt_loop cmpfcn insize s = (if length xs \<le> 2 * ?n then Some ?s else srt_loop cmpfcn (insize * 2) ?s)"
    using s1(1) n(4) hp(1) stop by (subst srt_loop.simps) simp
  show ?case
  proof (cases "length xs \<le> 2 * ?n")
    case True
    then have "?ys = Sorting_Algorithms.sort c xs" using sort_done [OF less.prems(1,2)] by simp
    with True run n(3,4) l(2) hp(2) same show ?thesis by simp
  next
    case False
    have d: "unat (insize * 2) = 2 * ?n"
      using False less.prems(3) assms(2) by (simp add: unat_word_ariths)
    have "2 * length xs0 - unat (insize * 2) < 2 * length xs0 - ?n" using d False less.prems(1,3) by simp
    moreover have "runs c (unat (insize * 2)) ?ys" using merge_pass_runs [OF less.prems(1,2)] d by simp
    moreover have "nexts (app_links (srt_heap ?s)) ?ys None" using l(2) hp(2) seg_nexts by simp
    ultimately have "\<exists>s'. srt_loop cmpfcn (insize * 2) ?s = Some s' \<and> dll (app_links (srt_heap s')) (Sorting_Algorithms.sort c ?ys) \<and>
        srt_list s' = first (Sorting_Algorithms.sort c ?ys) None \<and> srt_tail s' = last_of (Sorting_Algorithms.sort c ?ys) None \<and>
        same_table (srt_heap ?s) (srt_heap s')"
      using d less.prems(1,3) len n(2,3) by (intro less.hyps) simp_all
    with run False same sort_merge_pass [OF less.prems(1,2)] show ?thesis by (auto intro: same_table_trans)
  qed
qed

section \<open>The sorted table\<close>

text \<open>The table's invariant only knows the order through the links of the elements and the tail.\<close>

lemma hash_ok_reorder:
  assumes "hash_ok cfg xs s" "tbl s = Some t" "mset ys = mset xs" "xs \<noteq> []"
    and "dll (app_links hp) ys" "same_table (heap s) hp"
  shows "hash_ok cfg ys \<lparr>hash_head = first ys None, tbl = Some (t\<lparr>tbl_tail := last_of ys None\<rparr>), heap = hp\<rparr>"
proof -
  have xy: "set ys = set xs" "length ys = length xs" "distinct ys \<longleftrightarrow> distinct xs" "ys \<noteq> []"
    using assms(3,4) by (auto dest: mset_eq_setD mset_eq_length mset_eq_imp_distinct_iff)
  have k: "bkt_links hp = bkt_links (heap s)" "key_data hp = key_data (heap s)"
    using assms(6) by (simp_all add: same_table_def)
  have h: "hash_at hp = hash_at (heap s)" "slot_in hp = slot_in (heap s)"
    using k(2) by (simp_all add: fun_eq_iff hash_at_def slot_in_def)
  have t: "table_ok (heap s) xs t" using assms(1,2,4) by (simp add: hash_ok_def)
  then have "table_ok hp ys (t\<lparr>tbl_tail := last_of ys None\<rparr>)"
    using k h xy by (auto simp: table_ok_def bkts_ok_def bloom_ok_def split: option.splits)
  moreover have "key_ok cfg hp a \<longleftrightarrow> key_ok cfg (heap s) a" for a by (simp add: key_ok_def k(2))
  ultimately show ?thesis using assms(1,5) xy by (simp add: hash_ok_def)
qed

lemma find_same:
  assumes "find_in_bkt hp k out = Some r" "same_table hp hp'"
  shows "find_in_bkt hp' k out = Some r"
proof -
  have "same_table hp hp' \<longrightarrow> find_in_bkt hp' k out = Some r"
  proof (rule find_in_bkt.raw_induct [where P = "\<lambda>hp k out r. same_table hp hp' \<longrightarrow> find_in_bkt hp' k out = Some r", OF _ assms(1)])
    fix rec hp k out r
    assume ih: "\<And>hp k out r. rec hp k out = Some r \<Longrightarrow> same_table hp hp' \<longrightarrow> find_in_bkt hp' k out = Some r"
      and run: "(case out of None \<Rightarrow> Some None
        | Some a \<Rightarrow> do {
            h \<leftarrow> hp a;
            if unat (keylen h) = length k
            then (if length (hkey h) < length k then None
                  else if take (length k) (hkey h) = k then Some (Some a)
                  else rec hp k (hh_next h))
            else rec hp k (hh_next h) }) = Some r"
    show "same_table hp hp' \<longrightarrow> find_in_bkt hp' k out = Some r"
    proof (cases out)
      case None
      with run show ?thesis by (simp add: find_in_bkt.simps)
    next
      case (Some a)
      with run obtain h where h: "hp a = Some h" by (auto simp: bind_eq_Some_conv)
      show ?thesis
      proof
        assume same: "same_table hp hp'"
        then have "key_data hp' a = key_data hp a" "bkt_links hp' a = bkt_links hp a" by (simp_all add: same_table_def)
        with h obtain h' where h': "hp' a = Some h'" "hkey h' = hkey h" "keylen h' = keylen h" "hh_next h' = hh_next h"
          by (cases "hp' a") (auto simp: key_data_def bkt_links_def)
        show "find_in_bkt hp' k out = Some r"
          using ih run Some h h' same by (subst find_in_bkt.simps) (auto split: if_splits)
      qed
    qed
  qed
  with assms(2) show ?thesis by blast
qed

lemma hash_srt_ok:
  assumes "agrees cmpfcn c" "hash_ok cfg xs s" "length xs \<le> 2 ^ 31"
  shows "\<exists>s'. hash_srt cmpfcn s = Some s' \<and> hash_ok cfg (Sorting_Algorithms.sort c xs) s' \<and>
    (\<forall>k. hash_find cfg k s' = hash_find cfg k s)"
proof (cases xs)
  case Nil
  then have "hash_head s = None" using assms(2) by (simp add: hash_ok_def)
  with Nil assms(2) show ?thesis by (simp add: hash_srt_def)
next
  case (Cons a xs')
  let ?ys = "Sorting_Algorithms.sort c xs"
  obtain t where t: "hash_head s = Some a" "tbl s = Some t" "dll (app_links (heap s)) xs" "distinct xs"
    using assms(2) Cons by (auto simp: hash_ok_def)
  let ?s = "\<lparr>srt_heap = heap s, srt_list = Some a, srt_tail = None, srt_p = None, srt_q = None, srt_psize = 0, srt_qsize = 0\<rparr>"
  obtain r where r: "srt_loop cmpfcn 1 ?s = Some r" "dll (app_links (srt_heap r)) ?ys"
      "srt_list r = first ?ys None" "srt_tail r = last_of ?ys None" "same_table (heap s) (srt_heap r)"
    using srt_loop_ok [OF assms(1,3), of 1 xs ?s] runs_1 [of c xs] seg_nexts [OF t(3)] t(4) Cons by auto
  let ?s' = "\<lparr>hash_head = first ?ys None, tbl = Some (t\<lparr>tbl_tail := last_of ?ys None\<rparr>), heap = srt_heap r\<rparr>"
  have run: "hash_srt cmpfcn s = Some ?s'" using t(1,2) r(1,3,4) by (simp add: hash_srt_def)
  have ok: "hash_ok cfg ?ys ?s'"
    by (rule hash_ok_reorder [OF assms(2) t(2) _ _ r(2,5)]) (simp_all add: Cons)
  have "hash_find cfg k ?s' = hash_find cfg k s" for k
  proof -
    obtain x where x: "hash_find cfg k s = Some x" using assms(2) by (rule hash_find_ok)
    obtain b where "first ?ys None = Some b" using Cons by (cases ?ys) (auto simp flip: length_0_conv)
    then have "hash_find cfg k ?s' = Some x"
      using x t(1,2) find_same [where hp = "heap s" and hp' = "srt_heap r" and k = k] r(5)
      by (auto simp: hash_find_def Let_def bind_eq_Some_conv split: if_splits)
    with x show ?thesis by simp
  qed
  with run ok show ?thesis by blast
qed

text \<open>C34: the pointer-level merge sort of the table is the stable sort: with a comparison function
  that is a total preorder, \<open>HASH_SORT\<close> of a table with at most 2^31 elements returns, relinks
  the elements in the order of the library's sort with both pointers of every element right,
  moves the head and the tail, and leaves keys, buckets and counts as they are, so that every
  key is found as before.\<close>

theorem hash_sort_is_stable_sort:
  assumes "\<forall>a b. cmpfcn a b \<le> 0 \<longleftrightarrow> compare c a b \<noteq> Greater"
    and "hash_ok cfg xs s" "length xs \<le> 2 ^ 31"
  shows "\<exists>s'. hash_srt cmpfcn s = Some s' \<and> hash_ok cfg (Sorting_Algorithms.sort c xs) s' \<and>
    (\<forall>k. hash_find cfg k s' = hash_find cfg k s)"
  using hash_srt_ok assms by (simp add: agrees_def)

definition sort_ops :: "hash_op list" where
  "sort_ops = [Add 2 [7], Add 1 [39], Add 3 [71]]"

definition descending :: "nat \<Rightarrow> nat \<Rightarrow> int" where
  "descending a b = int b - int a"

lemma descending_compare: "\<forall>a b. descending a b \<le> 0 \<longleftrightarrow> compare (reversed default) a b \<noteq> Greater"
  by (auto simp: descending_def)

lemma sort_run_not_fatal:
  "case ut_run sample_config sort_ops (empty_table sample_heap) of Some Fatal \<Rightarrow> False | _ \<Rightarrow> True"
  by code_simp

lemma sort_allowed: "ops_allowed (dom sample_heap) sort_ops []"
  by (simp add: sample_dom sort_ops_def)

lemma descending_sort: "Sorting_Algorithms.sort (reversed default) [2, 1, 3 :: nat] = [3, 2, 1]"
  by (simp add: Sorting_Algorithms.sort_def)

theorem hash_sort_is_stable_sort_witness:
  "\<exists>s s'. ut_run sample_config sort_ops (empty_table sample_heap) = Some (Done ([], s)) \<and>
     hash_ok sample_config [2, 1, 3] s \<and> hash_srt descending s = Some s' \<and> hash_ok sample_config [3, 2, 1] s' \<and>
     hash_find sample_config [39] s' = hash_find sample_config [39] s"
proof -
  have "spec_ops sort_ops [] = ([], [([7], 2), ([39], 1), ([71], 3)])" by (simp add: sort_ops_def)
  then obtain s where s: "ut_run sample_config sort_ops (empty_table sample_heap) = Some (Done ([], s))"
    "hash_ok sample_config [2, 1, 3] s"
    using ut_ops_ok [OF sample_limited empty_rel _ sort_allowed] sort_run_not_fatal by (auto simp: hash_rel_def)
  with hash_sort_is_stable_sort [OF descending_compare s(2)] show ?thesis by (auto simp: descending_sort)
qed

end
