(* ===== verification/Uthash_Select.thy ===== *)
theory Uthash_Select
  imports Uthash_Map
begin

text \<open>
  \<open>HASH_SELECT\<close> and \<open>HASH_OVERHEAD\<close> of \<open>uthash.h\<close>.  The selected elements are then in two tables, each
  through a handle of its own in the element, so the handles of the two tables are two heaps over
  the same addresses.
\<close>

section \<open>HASH_SELECT\<close>

text \<open>The variables \<open>_last_elt\<close> and \<open>dst\<close>.\<close>

type_synonym selection = "nat option \<times> uthash"

text \<open>The destination's head and table, which the first element creates.\<close>

definition select_table :: "ut_config \<Rightarrow> nat \<Rightarrow> uthash \<Rightarrow> (nat \<times> ut_table) outcome option" where
  "select_table cfg a dst = (case hash_head dst of
     None \<Rightarrow> Some (case hash_make_table cfg a of Fatal \<Rightarrow> Fatal | Done t \<Rightarrow> Done (a, t))
   | Some d \<Rightarrow> do { t \<leftarrow> tbl dst; Some (Done (d, t)) })"

definition select_one :: "ut_config \<Rightarrow> handle \<Rightarrow> nat \<Rightarrow> selection \<Rightarrow> selection outcome option" where
  "select_one cfg src_hh a sel = (case sel of (last_elt, dst) \<Rightarrow> do {
     hp \<leftarrow> modify a (\<lambda>x. x\<lparr>hkey := hkey src_hh, keylen := keylen src_hh, hashv := hashv src_hh,
                          el_prev := last_elt, el_next := None\<rparr>) (heap dst);
     hp \<leftarrow> opt_modify last_elt (\<lambda>x. x\<lparr>el_next := Some a\<rparr>) hp;
     r \<leftarrow> select_table cfg a dst;
     (case r of Fatal \<Rightarrow> Some Fatal
      | Done (d, t) \<Rightarrow> do {
          r \<leftarrow> add_to_bkt cfg (bkt_index (hashv src_hh) (num_buckets t)) a t hp;
          Some (case r of Fatal \<Rightarrow> Fatal
                | Done (t, hp) \<Rightarrow> Done (Some a, \<lparr>hash_head = Some d, tbl = Some (t\<lparr>num_items := num_items t + 1\<rparr>), heap = hp\<rparr>)) }) })"

partial_function (option) select_chain ::
  "ut_config \<Rightarrow> (nat \<Rightarrow> bool) \<Rightarrow> heap \<Rightarrow> nat option \<Rightarrow> selection \<Rightarrow> selection outcome option" where
  "select_chain cfg cond src_hp src_hh sel = (case src_hh of None \<Rightarrow> Some (Done sel)
     | Some a \<Rightarrow> do {
         h \<leftarrow> src_hp a;
         r \<leftarrow> (if cond a then select_one cfg h a sel else Some (Done sel));
         (case r of Fatal \<Rightarrow> Some Fatal | Done sel \<Rightarrow> select_chain cfg cond src_hp (hh_next h) sel) })"

declare select_chain.simps [code]

fun select_buckets ::
  "ut_config \<Rightarrow> (nat \<Rightarrow> bool) \<Rightarrow> heap \<Rightarrow> bucket list \<Rightarrow> nat list \<Rightarrow> selection \<Rightarrow> selection outcome option" where
  "select_buckets cfg cond src_hp bs [] sel = Some (Done sel)"
| "select_buckets cfg cond src_hp bs (i # is) sel = do {
     b \<leftarrow> arr_get bs (int i);
     r \<leftarrow> select_chain cfg cond src_hp (bkt_head b) sel;
     (case r of Fatal \<Rightarrow> Some Fatal | Done sel \<Rightarrow> select_buckets cfg cond src_hp bs is sel) }"

definition hash_select :: "ut_config \<Rightarrow> (nat \<Rightarrow> bool) \<Rightarrow> uthash \<Rightarrow> uthash \<Rightarrow> uthash outcome option" where
  "hash_select cfg cond src dst = (case hash_head src of None \<Rightarrow> Some (Done dst)
     | Some a \<Rightarrow> do {
         t \<leftarrow> tbl src;
         r \<leftarrow> select_buckets cfg cond (heap src) (buckets t) [0..<unat (num_buckets t)] (None, dst);
         Some (case r of Fatal \<Rightarrow> Fatal | Done (last_elt, dst) \<Rightarrow> Done dst) })"

section \<open>HASH_OVERHEAD\<close>

definition sizeof_handle :: nat where "sizeof_handle = 56"

definition hash_overhead :: "ut_config \<Rightarrow> ut_table \<Rightarrow> nat" where
  "hash_overhead cfg t =
     unat (num_items t) * sizeof_handle + unat (num_buckets t) * sizeof_bucket + sizeof_table +
     (case hash_bloom cfg of None \<Rightarrow> 0 | Some nbits \<Rightarrow> 16 + bloom_bytelen nbits)"

section \<open>A selection forgets its tail and its Bloom filter\<close>

text \<open>The elements of a table in insertion order, as many as \<open>n\<close>.\<close>

fun walk :: "nat \<Rightarrow> heap \<Rightarrow> nat option \<Rightarrow> nat list" where
  "walk n hp None = []"
| "walk 0 hp (Some a) = []"
| "walk (Suc n) hp (Some a) = a # (case hp a of None \<Rightarrow> [] | Some h \<Rightarrow> walk n hp (el_next h))"

text \<open>Elements 1, 2 and 3 are in a table; 1 and 2 are selected into an empty one, to which 3 is then
  added; with what is found of the key of 2.\<close>

definition select_then_add :: "ut_config \<Rightarrow> (nat list \<times> nat list \<times> nat option) option" where
  "select_then_add cfg = do {
     r \<leftarrow> ut_run cfg [Add 1 [7], Add 2 [40], Add 3 [71]] (empty_table sample_heap);
     (case r of Fatal \<Rightarrow> None
      | Done (answers, src) \<Rightarrow> do {
          r \<leftarrow> hash_select cfg (\<lambda>a. a < 3) src (empty_table sample_heap);
          (case r of Fatal \<Rightarrow> None
           | Done dst \<Rightarrow> do {
               r \<leftarrow> hash_add cfg 3 [71] dst;
               (case r of Fatal \<Rightarrow> None
                | Done dst' \<Rightarrow> do {
                    found \<leftarrow> hash_find cfg [40] dst';
                    Some (walk 9 (heap dst) (hash_head dst), walk 9 (heap dst') (hash_head dst'), found) }) }) }) }"

definition plain_config :: ut_config where
  "plain_config = sample_config\<lparr>hash_bloom := None\<rparr>"

text \<open>\<open>tail\<close> stays at the first selected element, so the next \<open>HASH_ADD\<close> unlinks the others from the
  insertion order; and the filter does not know the selected keys, so with it they are not found.\<close>

lemma select_loses_elements:
  "map_option fst (select_then_add plain_config) = Some [1, 2]"
  "map_option snd (select_then_add plain_config) = Some ([1, 3], Some 2)"
  "map_option snd (select_then_add sample_config) = Some ([1, 3], None)"
  by code_simp+

end
