(* ===== verification/Lru.thy ===== *)
theory Lru
  imports Uthash_Map
begin

text \<open>
  The cache of \<open>lru.hpp\<close>: an array of entries and a uthash table over them, in which the
  insertion order is the order of last use.  Entry \<open>i\<close> of the array is the element with
  address \<open>i\<close>.  The key of an entry is an \<open>unsigned long\<close>, but the table is used through
  \<open>HASH_FIND_INT\<close> and \<open>HASH_ADD_INT\<close>, whose key is the first \<open>sizeof(int)\<close> bytes.
\<close>

section \<open>The class\<close>

record lru_entry =
  lru_k :: u64
  lru_v :: int

record lru =
  lru_capacity :: nat
  entries :: "lru_entry list"
  lru_table :: uthash

text \<open>The bytes \<open>HASH_FIND_INT\<close> and \<open>HASH_ADD_INT\<close> look at, on a little-endian machine.\<close>

definition int_key :: "u64 \<Rightarrow> u8 list" where
  "int_key k = map (\<lambda>i. ucast (drop_bit (8 * i) k)) [0..<4]"

text \<open>The array is allocated uninitialised.\<close>

definition lru_new :: "(nat \<Rightarrow> lru_entry) \<Rightarrow> (nat \<Rightarrow> handle) \<Rightarrow> nat \<Rightarrow> lru" where
  "lru_new junk junk_handle c =
     \<lparr>lru_capacity = c, entries = map junk [0..<c],
      lru_table = \<lparr>hash_head = None, tbl = None, heap = (\<lambda>a. if a < c then Some (junk_handle a) else None)\<rparr>\<rparr>"

definition lru_delete :: "lru \<Rightarrow> uthash option" where
  "lru_delete l = hash_iter hash_delete (lru_table l)"

text \<open>A full cache reuses the entry \<open>HASH_ITER\<close> visits first; over an empty table the loop body
  does not run, and \<open>entry\<close> stays NULL.\<close>

definition lru_insert :: "ut_config \<Rightarrow> u64 \<Rightarrow> int \<Rightarrow> lru \<Rightarrow> lru outcome option" where
  "lru_insert cfg k v l = do {
     used_size \<leftarrow> hash_count (lru_table l);
     (entry, t) \<leftarrow>
       (if unat used_size \<ge> lru_capacity l
        then (case hash_head (lru_table l) of None \<Rightarrow> None
              | Some a \<Rightarrow> do {
                  tmp_entry \<leftarrow> iter_next (Some a) (lru_table l);
                  t \<leftarrow> hash_delete a (lru_table l);
                  Some (a, t) })
        else Some (unat used_size, lru_table l));
     es \<leftarrow> arr_set (entries l) (int entry) \<lparr>lru_k = k, lru_v = v\<rparr>;
     r \<leftarrow> hash_add cfg entry (int_key k) t;
     Some (case r of Fatal \<Rightarrow> Fatal | Done t \<Rightarrow> Done (l\<lparr>entries := es, lru_table := t\<rparr>)) }"

abbreviation LRU_NOT_FOUND :: int where
  "LRU_NOT_FOUND \<equiv> - 1"

definition lru_find :: "ut_config \<Rightarrow> u64 \<Rightarrow> lru \<Rightarrow> (int \<times> lru) outcome option" where
  "lru_find cfg k l = do {
     elem \<leftarrow> hash_find cfg (int_key k) (lru_table l);
     (case elem of None \<Rightarrow> Some (Done (LRU_NOT_FOUND, l))
      | Some a \<Rightarrow> do {
          t \<leftarrow> hash_delete a (lru_table l);
          e \<leftarrow> arr_get (entries l) (int a);
          r \<leftarrow> hash_add cfg a (int_key (lru_k e)) t;
          Some (case r of Fatal \<Rightarrow> Fatal | Done t \<Rightarrow> Done (lru_v e, l\<lparr>lru_table := t\<rparr>)) }) }"

section \<open>The abstract cache\<close>

text \<open>Keys and values, least recently used first.\<close>

type_synonym cache = "(u8 list \<times> int) list"

definition cache_find :: "u8 list \<Rightarrow> cache \<Rightarrow> int \<times> cache" where
  "cache_find k es = (case map_of es k of None \<Rightarrow> (LRU_NOT_FOUND, es)
     | Some v \<Rightarrow> (v, filter (\<lambda>e. fst e \<noteq> k) es @ [(k, v)]))"

definition cache_insert :: "nat \<Rightarrow> u8 list \<Rightarrow> int \<Rightarrow> cache \<Rightarrow> cache" where
  "cache_insert c k v es = (if c \<le> length es then tl es else es) @ [(k, v)]"

definition entry_of :: "lru \<Rightarrow> u8 list \<times> nat \<Rightarrow> u8 list \<times> int" where
  "entry_of l = (\<lambda>(k, a). (k, lru_v (entries l ! a)))"

text \<open>The entries in use are the first ones of the array.\<close>

definition lru_holds :: "ut_config \<Rightarrow> nat \<Rightarrow> lru \<Rightarrow> keyed \<Rightarrow> bool" where
  "lru_holds cfg c l ks \<longleftrightarrow> hash_rel cfg {..<c} (lru_table l) ks \<and> lru_capacity l = c \<and> length (entries l) = c \<and>
     distinct (map fst ks) \<and> snd ` set ks = {..<length ks} \<and>
     (\<forall>(k, a) \<in> set ks. int_key (lru_k (entries l ! a)) = k)"

definition lru_rel :: "ut_config \<Rightarrow> nat \<Rightarrow> lru \<Rightarrow> cache \<Rightarrow> bool" where
  "lru_rel cfg c l es \<longleftrightarrow> (\<exists>ks. lru_holds cfg c l ks \<and> es = map (entry_of l) ks)"

lemma int_key_length [simp]: "length (int_key k) = 4"
  by (simp add: int_key_def)

lemma entry_of_fst [simp]: "fst (entry_of l e) = fst e"
  by (simp add: entry_of_def split_beta)

lemma entry_of_Pair [simp]: "entry_of l (k, a) = (k, lru_v (entries l ! a))"
  by (simp add: entry_of_def)

lemma map_of_entry_of: "map_of (map (entry_of l) ks) k = map_option (\<lambda>a. lru_v (entries l ! a)) (map_of ks k)"
  by (induction ks) (auto simp: entry_of_def)

lemma new_rel: "lru_rel cfg c (lru_new junk junk_handle c) []"
proof -
  have "hash_rel cfg {..<c} (lru_table (lru_new junk junk_handle c)) []"
    by (auto simp: hash_rel_def lru_new_def hash_ok_empty split: if_splits)
  then show ?thesis by (simp add: lru_rel_def lru_holds_def) (simp add: lru_new_def)
qed

lemma lru_holdsD:
  assumes "lru_holds cfg c l ks"
  shows "hash_rel cfg {..<c} (lru_table l) ks" "lru_capacity l = c" "length (entries l) = c"
    "distinct (map fst ks)" "snd ` set ks = {..<length ks}"
    "\<And>k a. (k, a) \<in> set ks \<Longrightarrow> int_key (lru_k (entries l ! a)) = k" "length ks \<le> c"
    "distinct (map snd ks)"
proof -
  show h: "hash_rel cfg {..<c} (lru_table l) ks" "lru_capacity l = c" "length (entries l) = c"
    "distinct (map fst ks)" and s: "snd ` set ks = {..<length ks}"
    "\<And>k a. (k, a) \<in> set ks \<Longrightarrow> int_key (lru_k (entries l ! a)) = k"
    using assms by (auto simp: lru_holds_def)
  show "length ks \<le> c" "distinct (map snd ks)"
    using hash_rel_wf [OF h(1)] s(1) by (auto simp: lessThan_subset_iff)
qed

lemma filter_entry_of: "filter (\<lambda>e. fst e \<noteq> k) (map (entry_of l) ks) = map (entry_of l) (filter (\<lambda>e. fst e \<noteq> k) ks)"
  by (simp add: filter_map comp_def)

lemma lru_find_ok:
  assumes "memory_limited cfg" "c < 2 ^ 32" "lru_rel cfg c l es"
  shows "lru_find cfg k l = Some Fatal \<or> (\<exists>l'. lru_find cfg k l = Some (Done (fst (cache_find (int_key k) es), l')) \<and>
    lru_rel cfg c l' (snd (cache_find (int_key k) es)))"
proof -
  from assms(3) obtain ks where ks: "lru_holds cfg c l ks" "es = map (entry_of l) ks" by (auto simp: lru_rel_def)
  note h = lru_holdsD [OF ks(1)]
  let ?k = "int_key k"
  have find: "hash_find cfg ?k (lru_table l) = Some (map_of ks ?k)" using assms(1) h(1,4) by (rule hash_rel_map_of)
  show ?thesis
  proof (cases "map_of ks ?k")
    case None
    then have "cache_find ?k es = (LRU_NOT_FOUND, es)" by (simp add: cache_find_def ks(2) map_of_entry_of)
    with None find assms(3) show ?thesis by (simp add: lru_find_def)
  next
    case (Some a)
    then have ka: "(?k, a) \<in> set ks" by (rule map_of_SomeD)
    then have "a \<in> snd ` set ks" by force
    then have a: "a < length (entries l)" "int_key (lru_k (entries l ! a)) = ?k"
      using h(3,5,7) h(6) [OF ka] by simp_all
    let ?ks = "filter (\<lambda>e. fst e \<noteq> ?k) ks"
    obtain t1 where t1: "hash_delete a (lru_table l) = Some t1" "hash_rel cfg {..<c} t1 (remove1 (?k, a) ks)"
      "hash_add cfg a ?k t1 = Some Fatal \<or>
        (\<exists>t2. hash_add cfg a ?k t1 = Some (Done t2) \<and> hash_rel cfg {..<c} t2 (remove1 (?k, a) ks @ [(?k, a)]))"
      using h(1) ka
      by (rule ut.touch [where cfg = cfg, unfolded limited_config_id [OF assms(1)]]) (simp, blast)
    have r: "remove1 (?k, a) ks = ?ks" using h(4) ka by (rule remove1_filter_fst)
    have cf: "cache_find ?k es = (lru_v (entries l ! a), map (entry_of l) (?ks @ [(?k, a)]))"
      using Some by (simp add: cache_find_def ks(2) map_of_entry_of filter_entry_of)
    have eq: "lru_find cfg k l = do { r \<leftarrow> hash_add cfg a ?k t1;
        Some (case r of Fatal \<Rightarrow> Fatal | Done t \<Rightarrow> Done (lru_v (entries l ! a), l\<lparr>lru_table := t\<rparr>)) }"
      using find Some t1(1) a by (simp add: lru_find_def)
    from t1(3) show ?thesis
    proof
      assume "hash_add cfg a ?k t1 = Some Fatal"
      then show ?thesis unfolding eq by simp
    next
      assume "\<exists>t2. hash_add cfg a ?k t1 = Some (Done t2) \<and> hash_rel cfg {..<c} t2 (remove1 (?k, a) ks @ [(?k, a)])"
      then obtain t2 where t2: "hash_add cfg a ?k t1 = Some (Done t2)" "hash_rel cfg {..<c} t2 (?ks @ [(?k, a)])"
        unfolding r by blast
      have "distinct ks" using h(4) by (simp add: distinct_map)
      then have "set ?ks = set ks - {(?k, a)}" unfolding r [symmetric] by (rule set_remove1_eq)
      then have set: "set (?ks @ [(?k, a)]) = set ks" using ka by (simp only: set_append) auto
      have "length ?ks = length ks - 1" "0 < length ks"
        using ka length_pos_if_in_set [OF ka] unfolding r [symmetric] by (simp_all add: length_remove1)
      then have len: "length (?ks @ [(?k, a)]) = length ks" by (simp only: length_append) simp
      have "distinct (map fst (?ks @ [(?k, a)]))" using h(4) by (auto simp: distinct_map_filter)
      moreover have "\<forall>(k, a) \<in> set ks. int_key (lru_k (entries l ! a)) = k" using h(6) by blast
      ultimately have "lru_holds cfg c (l\<lparr>lru_table := t2\<rparr>) (?ks @ [(?k, a)])"
        using t2(2) h(2,3,5) unfolding lru_holds_def set len by (intro conjI) simp_all
      then have "lru_rel cfg c (l\<lparr>lru_table := t2\<rparr>) (map (entry_of l) (?ks @ [(?k, a)]))"
        unfolding lru_rel_def by (intro exI conjI) (assumption, simp add: entry_of_def)
      with t2(1) show ?thesis unfolding eq cf by simp
    qed
  qed
qed

text \<open>What both branches of \<open>insert\<close> end with: the entry \<open>a\<close> is filled and added.\<close>

lemma store_ok:
  assumes "memory_limited cfg" "hash_rel cfg {..<c} t ks" "lru_capacity l = c" "length (entries l) = c"
    "distinct (map fst ks)" "insert a (snd ` set ks) = {..<length ks + 1}" "a < c" "a \<notin> snd ` set ks"
    "\<And>k a. (k, a) \<in> set ks \<Longrightarrow> int_key (lru_k (entries l ! a)) = k" "length ks + 1 < 2 ^ 32"
    "int_key k \<notin> fst ` set ks"
  shows "hash_add cfg a (int_key k) t = Some Fatal \<or>
    (\<exists>t'. hash_add cfg a (int_key k) t = Some (Done t') \<and>
       lru_rel cfg c (l\<lparr>entries := (entries l)[a := \<lparr>lru_k = k, lru_v = v\<rparr>], lru_table := t'\<rparr>)
         (map (entry_of l) ks @ [(int_key k, v)]))"
proof -
  let ?es = "(entries l)[a := \<lparr>lru_k = k, lru_v = v\<rparr>]"
  let ?ks = "ks @ [(int_key k, a)]"
  have "a \<in> {..<c}" "length (int_key k) < 2 ^ 32" using assms(7) by simp_all
  from hash_rel_add [OF assms(1,2) this(1) assms(8,10) this(2)] show ?thesis
  proof
    assume "\<exists>s'. hash_add cfg a (int_key k) t = Some (Done s') \<and> hash_rel cfg {..<c} s' ?ks"
    then obtain t' where t': "hash_add cfg a (int_key k) t = Some (Done t')" "hash_rel cfg {..<c} t' ?ks" by blast
    let ?l = "l\<lparr>entries := ?es, lru_table := t'\<rparr>"
    have other: "?es ! b = entries l ! b" if "(ky, b) \<in> set ks" for ky b
    proof -
      have "b \<in> snd ` set ks" using that by force
      with assms(8) have "b \<noteq> a" by blast
      then show ?thesis by simp
    qed
    have "int_key (lru_k (?es ! b)) = ky" if "(ky, b) \<in> set ?ks" for ky b
      using that other assms(4,7,9) by auto
    then have "lru_holds cfg c ?l ?ks"
      using t'(2) assms(3-6,11) unfolding lru_holds_def by auto
    moreover have "map (entry_of ?l) ?ks = map (entry_of l) ks @ [(int_key k, v)]"
      using other assms(4,7) by auto
    ultimately have "lru_rel cfg c ?l (map (entry_of l) ks @ [(int_key k, v)])" unfolding lru_rel_def by metis
    with t'(1) show ?thesis by blast
  qed simp
qed

lemma lru_insert_ok:
  assumes "memory_limited cfg" "0 < c" "c < 2 ^ 32" "lru_rel cfg c l es" "int_key k \<notin> fst ` set es"
  shows "lru_insert cfg k v l = Some Fatal \<or> (\<exists>l'. lru_insert cfg k v l = Some (Done l') \<and>
    lru_rel cfg c l' (cache_insert c (int_key k) v es))"
proof -
  from assms(4) obtain ks where ks: "lru_holds cfg c l ks" "es = map (entry_of l) ks" by (auto simp: lru_rel_def)
  note h = lru_holdsD [OF ks(1)]
  let ?k = "int_key k"
  let ?e = "\<lparr>lru_k = k, lru_v = v\<rparr>"
  have new: "?k \<notin> fst ` set ks" using assms(5) by (simp add: ks(2) image_image)
  have count: "hash_count (lru_table l) = Some (of_nat (length ks))" using h(1) by (rule hash_rel_count)
  have u: "unat (of_nat (length ks) :: u32) = length ks" using h(7) assms(3) by (intro unat_of_nat_small) simp
  show ?thesis
  proof (cases "length ks = c")
    case True
    with assms(2) obtain k0 a0 ks' where ks': "ks = (k0, a0) # ks'" by (cases ks) auto
    have ok: "hash_ok cfg (a0 # map snd ks') (lru_table l)" using h(1) by (simp add: hash_rel_def ks')
    then obtain x where x: "hash_head (lru_table l) = Some a0" "heap (lru_table l) a0 = Some x" by (rule hash_ok_first)
    obtain t1 where t1: "hash_delete a0 (lru_table l) = Some t1" "hash_rel cfg {..<c} t1 ks'"
      using hash_rel_delete [OF h(1), of k0 a0] ks' by auto
    have a0: "a0 < c" "a0 \<notin> snd ` set ks'" "insert a0 (snd ` set ks') = {..<length ks' + 1}"
      using h(5,7,8) True by (auto simp: ks')
    have "length ks' + 1 < 2 ^ 32" "distinct (map fst ks')" "?k \<notin> fst ` set ks'"
      using assms(3) True h(4) new by (auto simp: ks')
    note st = store_ok [OF assms(1) t1(2) h(2,3) this(2) a0(3,1,2) h(6) this(1,3), of v]
    have eq: "lru_insert cfg k v l = do { r \<leftarrow> hash_add cfg a0 ?k t1;
        Some (case r of Fatal \<Rightarrow> Fatal | Done t \<Rightarrow> Done (l\<lparr>entries := (entries l)[a0 := ?e], lru_table := t\<rparr>)) }"
      using count u True h(2,3) x t1(1) a0(1) by (simp add: lru_insert_def iter_next_def)
    have ci: "cache_insert c ?k v es = map (entry_of l) ks' @ [(?k, v)]"
      using True by (simp add: cache_insert_def ks(2) ks')
    from st show ?thesis unfolding eq ci by (auto simp: ks')
  next
    case False
    with h(7) have less: "length ks < c" by simp
    have a: "length ks \<notin> snd ` set ks" "insert (length ks) (snd ` set ks) = {..<length ks + 1}" "length ks + 1 < 2 ^ 32"
      using h(5) less assms(3) by (auto simp: h(5))
    note st = store_ok [OF assms(1) h(1,2,3,4) a(2) less a(1) h(6) a(3) new, of v]
    have eq: "lru_insert cfg k v l = do { r \<leftarrow> hash_add cfg (length ks) ?k (lru_table l);
        Some (case r of Fatal \<Rightarrow> Fatal | Done t \<Rightarrow> Done (l\<lparr>entries := (entries l)[length ks := ?e], lru_table := t\<rparr>)) }"
      using count u less h(2,3) by (simp add: lru_insert_def)
    have ci: "cache_insert c ?k v es = map (entry_of l) ks @ [(?k, v)]"
      using less by (simp add: cache_insert_def ks(2))
    from st show ?thesis unfolding eq ci by auto
  qed
qed

section \<open>Sequences of operations\<close>

datatype lru_op = Lookup u64 | Store u64 int

fun run_lru_op :: "ut_config \<Rightarrow> lru_op \<Rightarrow> lru \<Rightarrow> (int list \<times> lru) outcome option" where
  "run_lru_op cfg (Lookup k) l = do { r \<leftarrow> lru_find cfg k l;
     Some (case r of Fatal \<Rightarrow> Fatal | Done (v, l) \<Rightarrow> Done ([v], l)) }"
| "run_lru_op cfg (Store k v) l = do { r \<leftarrow> lru_insert cfg k v l;
     Some (case r of Fatal \<Rightarrow> Fatal | Done l \<Rightarrow> Done ([], l)) }"

fun run_lru :: "ut_config \<Rightarrow> lru_op list \<Rightarrow> lru \<Rightarrow> (int list \<times> lru) outcome option" where
  "run_lru cfg [] l = Some (Done ([], l))"
| "run_lru cfg (op # ops) l = do {
     r \<leftarrow> run_lru_op cfg op l;
     (case r of Fatal \<Rightarrow> Some Fatal
      | Done (xs, l) \<Rightarrow> do {
          r \<leftarrow> run_lru cfg ops l;
          Some (case r of Fatal \<Rightarrow> Fatal | Done (ys, l) \<Rightarrow> Done (xs @ ys, l)) }) }"

fun cache_op :: "nat \<Rightarrow> lru_op \<Rightarrow> cache \<Rightarrow> int list \<times> cache" where
  "cache_op c (Lookup k) es = (let (v, es) = cache_find (int_key k) es in ([v], es))"
| "cache_op c (Store k v) es = ([], cache_insert c (int_key k) v es)"

fun cache_ops :: "nat \<Rightarrow> lru_op list \<Rightarrow> cache \<Rightarrow> int list \<times> cache" where
  "cache_ops c [] es = ([], es)"
| "cache_ops c (op # ops) es = (let (xs, es) = cache_op c op es; (ys, es) = cache_ops c ops es in (xs @ ys, es))"

text \<open>Only a key that is not in the cache is stored.\<close>

fun stores_new :: "nat \<Rightarrow> lru_op list \<Rightarrow> cache \<Rightarrow> bool" where
  "stores_new c [] es \<longleftrightarrow> True"
| "stores_new c (op # ops) es \<longleftrightarrow>
     (case op of Lookup k \<Rightarrow> True | Store k v \<Rightarrow> int_key k \<notin> fst ` set es) \<and> stores_new c ops (snd (cache_op c op es))"

lemma run_lru_op_ok:
  assumes "memory_limited cfg" "0 < c" "c < 2 ^ 32" "lru_rel cfg c l es"
    "case op of Lookup k \<Rightarrow> True | Store k v \<Rightarrow> int_key k \<notin> fst ` set es"
  shows "run_lru_op cfg op l = Some Fatal \<or> (\<exists>l'. run_lru_op cfg op l = Some (Done (fst (cache_op c op es), l')) \<and>
    lru_rel cfg c l' (snd (cache_op c op es)))"
proof (cases op)
  case (Lookup k)
  from lru_find_ok [OF assms(1,3,4), of k] show ?thesis unfolding Lookup by (auto simp: split_beta)
next
  case (Store k v)
  with assms(5) have "int_key k \<notin> fst ` set es" by simp
  from lru_insert_ok [OF assms(1-4) this, of v] show ?thesis unfolding Store by auto
qed

lemma run_lru_ok:
  assumes "memory_limited cfg" "0 < c" "c < 2 ^ 32"
  shows "lru_rel cfg c l es \<Longrightarrow> stores_new c ops es \<Longrightarrow>
    run_lru cfg ops l = Some Fatal \<or> (\<exists>l'. run_lru cfg ops l = Some (Done (fst (cache_ops c ops es), l')) \<and>
      lru_rel cfg c l' (snd (cache_ops c ops es)))"
proof (induction ops arbitrary: l es)
  case (Cons op ops)
  have allowed: "case op of Lookup k \<Rightarrow> True | Store k v \<Rightarrow> int_key k \<notin> fst ` set es"
    "stores_new c ops (snd (cache_op c op es))" using Cons.prems(2) by simp_all
  from run_lru_op_ok [OF assms Cons.prems(1) allowed(1)] show ?case
  proof
    assume "\<exists>l'. run_lru_op cfg op l = Some (Done (fst (cache_op c op es), l')) \<and> lru_rel cfg c l' (snd (cache_op c op es))"
    then obtain l1 where l1: "run_lru_op cfg op l = Some (Done (fst (cache_op c op es), l1))"
      "lru_rel cfg c l1 (snd (cache_op c op es))" by blast
    from Cons.IH [OF l1(2) allowed(2)] l1(1) show ?thesis by (auto simp: split_beta)
  qed simp
qed simp

section \<open>The trace level cache\<close>

text \<open>\<open>find_trace_level_or_call_filter\<close> of \<open>trace_level_func_cache.pyx\<close>: the level of a code
  object, given what the filter says of it (None counts as \<open>NO_TRACE\<close>).  The filter is a function
  of the address of the code object: what it reads of the frame besides, or from elsewhere, must not
  change its answer, which is an integer or None, and it does not raise.\<close>

definition filter_level :: "(u64 \<Rightarrow> int option) \<Rightarrow> u64 \<Rightarrow> int" where
  "filter_level f code = (case f code of None \<Rightarrow> 0 | Some level \<Rightarrow> level)"

definition cached_level :: "ut_config \<Rightarrow> (u64 \<Rightarrow> int option) \<Rightarrow> u64 \<Rightarrow> lru \<Rightarrow> (int \<times> lru) outcome option" where
  "cached_level cfg f code l = do {
     r \<leftarrow> lru_find cfg code l;
     (case r of Fatal \<Rightarrow> Some Fatal
      | Done (level, l) \<Rightarrow>
          if level \<noteq> - 1 then Some (Done (level, l))
          else do {
            r \<leftarrow> lru_insert cfg code (filter_level f code) l;
            Some (case r of Fatal \<Rightarrow> Fatal | Done l \<Rightarrow> Done (filter_level f code, l)) }) }"

fun cached_levels :: "ut_config \<Rightarrow> (u64 \<Rightarrow> int option) \<Rightarrow> u64 list \<Rightarrow> lru \<Rightarrow> (int list \<times> lru) outcome option" where
  "cached_levels cfg f [] l = Some (Done ([], l))"
| "cached_levels cfg f (code # codes) l = do {
     r \<leftarrow> cached_level cfg f code l;
     (case r of Fatal \<Rightarrow> Some Fatal
      | Done (level, l) \<Rightarrow> do {
          r \<leftarrow> cached_levels cfg f codes l;
          Some (case r of Fatal \<Rightarrow> Fatal | Done (levels, l) \<Rightarrow> Done (level # levels, l)) }) }"

text \<open>The cache holds nothing but what the filter says.\<close>

definition agrees :: "(u64 \<Rightarrow> int option) \<Rightarrow> u64 set \<Rightarrow> cache \<Rightarrow> bool" where
  "agrees f K es \<longleftrightarrow> (\<forall>(k, v) \<in> set es. \<exists>code \<in> K. k = int_key code \<and> v = filter_level f code)"

lemma agrees_find: "agrees f K es \<Longrightarrow> agrees f K (snd (cache_find k es))"
proof (cases "map_of es k")
  case (Some v)
  then have "(k, v) \<in> set es" by (rule map_of_SomeD)
  then show "agrees f K es \<Longrightarrow> agrees f K (snd (cache_find k es))" using Some by (auto simp: agrees_def cache_find_def)
qed (simp add: cache_find_def)

lemma agrees_insert:
  "agrees f K es \<Longrightarrow> code \<in> K \<Longrightarrow> agrees f K (cache_insert c (int_key code) (filter_level f code) es)"
  by (cases es) (auto simp: agrees_def cache_insert_def)

text \<open>A lookup answers what the filter says of a code object with the same key bytes.\<close>

lemma cached_level_some:
  assumes "memory_limited cfg" "0 < c" "c < 2 ^ 32" "lru_rel cfg c l es" "agrees f K es"
    "code \<in> K" "\<forall>code \<in> K. filter_level f code \<noteq> - 1"
  shows "cached_level cfg f code l = Some Fatal \<or>
    (\<exists>code' l' es'. code' \<in> K \<and> int_key code' = int_key code \<and>
       cached_level cfg f code l = Some (Done (filter_level f code', l')) \<and> lru_rel cfg c l' es' \<and> agrees f K es')"
proof -
  let ?k = "int_key code"
  from lru_find_ok [OF assms(1,3,4), of code] show ?thesis
  proof
    assume "lru_find cfg code l = Some Fatal"
    then show ?thesis by (simp add: cached_level_def)
  next
    assume "\<exists>l'. lru_find cfg code l = Some (Done (fst (cache_find ?k es), l')) \<and> lru_rel cfg c l' (snd (cache_find ?k es))"
    then obtain l1 where l1: "lru_find cfg code l = Some (Done (fst (cache_find ?k es), l1))"
      "lru_rel cfg c l1 (snd (cache_find ?k es))" by blast
    show ?thesis
    proof (cases "map_of es ?k")
      case None
      then have cf: "cache_find ?k es = (LRU_NOT_FOUND, es)" by (simp add: cache_find_def)
      from None have new: "?k \<notin> fst ` set es" by (simp add: map_of_eq_None_iff)
      have l1': "lru_rel cfg c l1 es" using l1(2) cf by simp
      have eq: "cached_level cfg f code l = do { r \<leftarrow> lru_insert cfg code (filter_level f code) l1;
          Some (case r of Fatal \<Rightarrow> Fatal | Done l \<Rightarrow> Done (filter_level f code, l)) }"
        using l1(1) cf by (simp add: cached_level_def)
      from lru_insert_ok [OF assms(1-3) l1' new, of "filter_level f code"]
        agrees_insert [OF assms(5,6), of c] assms(6) show ?thesis unfolding eq by auto
    next
      case (Some v)
      then have "(?k, v) \<in> set es" by (rule map_of_SomeD)
      with assms(5) obtain code' where code': "code' \<in> K" "int_key code' = ?k" "v = filter_level f code'"
        by (auto simp: agrees_def)
      then have "cached_level cfg f code l = Some (Done (filter_level f code', l1))"
        using l1(1) Some assms(7) by (simp add: cached_level_def cache_find_def)
      with l1(2) agrees_find [OF assms(5)] code'(1,2) show ?thesis by blast
    qed
  qed
qed

lemma cached_level_ok:
  assumes "memory_limited cfg" "0 < c" "c < 2 ^ 32" "lru_rel cfg c l es" "agrees f K es"
    "code \<in> K" "\<forall>code \<in> K. filter_level f code \<noteq> - 1" "inj_on int_key K"
  shows "cached_level cfg f code l = Some Fatal \<or>
    (\<exists>l' es'. cached_level cfg f code l = Some (Done (filter_level f code, l')) \<and> lru_rel cfg c l' es' \<and> agrees f K es')"
  using cached_level_some [OF assms(1-7)] inj_onD [OF assms(8) _ _ assms(6)] by metis

lemma cached_levels_ok:
  assumes "memory_limited cfg" "0 < c" "c < 2 ^ 32" "\<forall>code \<in> K. filter_level f code \<noteq> - 1" "inj_on int_key K"
  shows "lru_rel cfg c l es \<Longrightarrow> agrees f K es \<Longrightarrow> set codes \<subseteq> K \<Longrightarrow>
    cached_levels cfg f codes l = Some Fatal \<or>
    (\<exists>l'. cached_levels cfg f codes l = Some (Done (map (filter_level f) codes, l')))"
proof (induction codes arbitrary: l es)
  case (Cons code codes)
  have "code \<in> K" using Cons.prems(3) by simp
  from cached_level_ok [OF assms(1-3) Cons.prems(1,2) this assms(4,5)] show ?case
  proof
    assume "\<exists>l' es'. cached_level cfg f code l = Some (Done (filter_level f code, l')) \<and> lru_rel cfg c l' es' \<and> agrees f K es'"
    then obtain l1 es1 where l1: "cached_level cfg f code l = Some (Done (filter_level f code, l1))"
      "lru_rel cfg c l1 es1" "agrees f K es1" by blast
    from Cons.IH [OF l1(2,3)] Cons.prems(3) l1(1) show ?thesis by auto
  qed simp
qed simp

lemma lru_delete_ok:
  assumes "lru_rel cfg c l es"
  shows "\<exists>t. lru_delete l = Some t \<and> hash_head t = None \<and> tbl t = None"
proof -
  from assms obtain ks where "lru_holds cfg c l ks" by (auto simp: lru_rel_def)
  then have "hash_ok cfg (map snd ks) (lru_table l)" by (simp add: lru_holds_def hash_rel_def)
  from hash_iter_delete [OF this] show ?thesis by (auto simp: lru_delete_def hash_ok_def)
qed

section \<open>Properties\<close>

definition junk_entry :: "nat \<Rightarrow> lru_entry" where
  "junk_entry i = \<lparr>lru_k = 99, lru_v = 99\<rparr>"

definition sample_lru_ops :: "lru_op list" where
  "sample_lru_ops = [Store 10 2, Store 20 3, Lookup 10, Store 30 4, Lookup 20, Lookup 30, Lookup 10]"

definition sample_lru :: "nat \<Rightarrow> lru" where
  "sample_lru c = lru_new junk_entry (\<lambda>i. blank_handle) c"

lemma sample_lru_not_fatal:
  "case run_lru sample_config sample_lru_ops (sample_lru 2) of Some Fatal \<Rightarrow> False | _ \<Rightarrow> True"
  by code_simp

lemma sample_lru_spec: "stores_new 2 sample_lru_ops [] \<and> fst (cache_ops 2 sample_lru_ops []) = [2, - 1, 4, 2]"
  by code_simp

text \<open>C35: the LRU cache behaves as its abstract list: from a new cache of capacity at least one, any
  lookups and stores of keys that are not cached are defined, and every lookup answers what the
  list says, where a lookup moves its key to the recent end and a store into a full cache drops
  the least recently used one; afterwards the destructor's traversal frees the table.  (An
  allocation that fails ends the process.)\<close>

theorem lru_refines_cache:
  assumes "memory_limited cfg" "0 < c" "c < 2 ^ 32" "stores_new c ops []"
  shows "run_lru cfg ops (lru_new junk junk_handle c) = Some Fatal \<or>
    (\<exists>l' t. run_lru cfg ops (lru_new junk junk_handle c) = Some (Done (fst (cache_ops c ops []), l')) \<and>
       lru_delete l' = Some t \<and> tbl t = None)"
  using run_lru_ok [OF assms(1-3) new_rel assms(4)] lru_delete_ok by meson

theorem lru_refines_cache_witness:
  "\<exists>l'. run_lru sample_config sample_lru_ops (sample_lru 2) = Some (Done ([2, - 1, 4, 2], l')) \<and> lru_delete l' \<noteq> None"
  using lru_refines_cache [OF sample_limited _ _ conjunct1 [OF sample_lru_spec], of junk_entry "\<lambda>i. blank_handle"]
    sample_lru_not_fatal sample_lru_spec by (auto simp: sample_lru_def)

text \<open>C36: the trace level cache gives every code object the level its filter decides, whatever the
  order of the calls and however often entries are evicted, as long as no two code objects agree
  in the low 32 bits of their addresses and the filter never answers -1.\<close>

theorem cached_levels_correct:
  assumes "memory_limited cfg" "0 < c" "c < 2 ^ 32" "inj_on int_key (set codes)"
    and "\<forall>code \<in> set codes. filter_level f code \<noteq> - 1"
  shows "cached_levels cfg f codes (lru_new junk junk_handle c) = Some Fatal \<or>
    (\<exists>l'. cached_levels cfg f codes (lru_new junk junk_handle c) = Some (Done (map (filter_level f) codes, l')))"
  using cached_levels_ok [OF assms(1-3,5,4) new_rel _ subset_refl] by (simp add: agrees_def)

definition sample_filter :: "u64 \<Rightarrow> int option" where
  "sample_filter code = (if code = 10 then Some 2 else if code = 20 then None else Some 4)"

lemma sample_levels_not_fatal:
  "case cached_levels sample_config sample_filter [10, 20, 10, 30, 20] (sample_lru 2) of Some Fatal \<Rightarrow> False | _ \<Rightarrow> True"
  by code_simp

lemma sample_keys_differ: "distinct (map int_key [10, 20, 30])"
  by code_simp

theorem cached_levels_correct_witness:
  "\<exists>l'. cached_levels sample_config sample_filter [10, 20, 10, 30, 20] (sample_lru 2) = Some (Done ([2, 0, 2, 4, 0], l'))"
proof -
  have "set [10, 20, 10, 30, 20] = set [10, 20, 30 :: u64]" by auto
  then have "inj_on int_key (set [10, 20, 10, 30, 20])" using sample_keys_differ by (simp only: distinct_map)
  moreover have "\<forall>code \<in> set [10, 20, 10, 30, 20]. filter_level sample_filter code \<noteq> - 1"
    "map (filter_level sample_filter) [10, 20, 10, 30, 20] = [2, 0, 2, 4, 0]"
    by (simp_all add: filter_level_def sample_filter_def)
  ultimately show ?thesis
    using cached_levels_correct [OF sample_limited, of 2 "[10, 20, 10, 30, 20]" sample_filter junk_entry "\<lambda>i. blank_handle"]
      sample_levels_not_fatal by (auto simp: sample_lru_def)
qed

text \<open>C37: two code objects whose addresses agree in the low 32 bits share a cache entry, because the
  table compares \<open>sizeof(int)\<close> bytes of the \<open>unsigned long\<close> key: the second is given the level
  the filter decided for the first, and the filter is not asked.\<close>

theorem lru_key_collision:
  assumes "memory_limited cfg" "0 < c" "c < 2 ^ 32" "ucast code = (ucast code' :: u32)" "filter_level f code \<noteq> - 1"
  shows "cached_levels cfg f [code, code'] (lru_new junk junk_handle c) = Some Fatal \<or>
    (\<exists>l'. cached_levels cfg f [code, code'] (lru_new junk junk_handle c) =
       Some (Done ([filter_level f code, filter_level f code], l')))"
proof -
  have byte: "(ucast (drop_bit (8 * i) (x :: u64)) :: u8) = ucast (drop_bit (8 * i) (ucast x :: u32))" if "i < 4" for i x
    using that by (intro bit_word_eqI) (auto simp: bit_simps)
  have "int_key code' = int_key code" using assms(4) by (simp add: int_key_def byte)
  then have eq: "lru_find cfg code' l = lru_find cfg code l" for l by (simp add: lru_find_def)
  let ?l = "lru_new junk junk_handle c" and ?k = "int_key code" and ?v = "filter_level f code"
  have empty: "cache_find ?k [] = (LRU_NOT_FOUND, [])" "cache_insert c ?k ?v [] = [(?k, ?v)]"
    "fst (cache_find ?k [(?k, ?v)]) = ?v" using assms(2) by (simp_all add: cache_find_def cache_insert_def)
  consider "lru_find cfg code ?l = Some Fatal"
    | l0 where "lru_find cfg code ?l = Some (Done (- 1, l0))" "lru_rel cfg c l0 []"
    using lru_find_ok [OF assms(1,3) new_rel, of code] empty(1) by auto
  then show ?thesis
  proof cases
    case 1
    then show ?thesis by (simp add: cached_level_def)
  next
    case (2 l0)
    consider "lru_insert cfg code ?v l0 = Some Fatal"
      | l1 where "lru_insert cfg code ?v l0 = Some (Done l1)" "lru_rel cfg c l1 [(?k, ?v)]"
      using lru_insert_ok [OF assms(1-3) 2(2), of code ?v] empty(2) by auto
    then show ?thesis
    proof cases
      case 1
      with 2(1) show ?thesis by (simp add: cached_level_def)
    next
      case (2 l1)
      have "lru_find cfg code' l1 = Some Fatal \<or> (\<exists>l2. lru_find cfg code' l1 = Some (Done (?v, l2)))"
        using lru_find_ok [OF assms(1,3) 2(2), of code] empty(3) unfolding eq by auto
      with 2(1) \<open>lru_find cfg code ?l = Some (Done (- 1, l0))\<close> assms(5) show ?thesis
        by (auto simp: cached_level_def)
    qed
  qed
qed

lemma collision_not_fatal:
  "case cached_levels sample_config sample_filter [10, 0x10000000A] (sample_lru 2) of Some Fatal \<Rightarrow> False | _ \<Rightarrow> True"
  by code_simp

theorem lru_key_collision_witness:
  "(\<exists>l'. cached_levels sample_config sample_filter [10, 0x10000000A] (sample_lru 2) = Some (Done ([2, 2], l'))) \<and>
   filter_level sample_filter 0x10000000A = 4"
proof -
  have "filter_level sample_filter 10 = 2" "filter_level sample_filter 0x10000000A = 4"
    by (simp_all add: filter_level_def sample_filter_def)
  then show ?thesis
    using lru_key_collision [OF sample_limited, of 2 10 "0x10000000A" sample_filter junk_entry "\<lambda>i. blank_handle"]
      collision_not_fatal by (auto simp: sample_lru_def)
qed

text \<open>A cache of capacity 0, which \<open>set_tracing\<close> passes on unchecked, dereferences NULL at the
  first store: the loop over the empty table finds no entry to reuse.\<close>

lemma lru_capacity_0_undefined: "lru_insert cfg k v (lru_new junk junk_handle 0) = None"
  by (simp add: lru_insert_def lru_new_def hash_count_def)

end
