(* ===== verification/Thread_Storage.thy ===== *)
theory Thread_Storage
  imports Lru "HOL-Library.While_Combinator"
begin

text \<open>
  \<open>thread_storage.h\<close>: what the tracer keeps per thread, and in it per greenlet, in a uthash table
  from greenlet ids to storages.  An object is its address, and the objects that exist are a
  map; where the next object is allocated is a parameter, so that an address that was freed can
  come back.
\<close>

section \<open>The classes\<close>

abbreviation NO_TRACE_FROM_DEPTH_DISABLED :: int where
  "NO_TRACE_FROM_DEPTH_DISABLED \<equiv> 314159"

record gstorage =
  gs_gid :: u64
  gs_depth :: int
  no_trace_from_depth :: int
  gs_last_frame :: u64
  gs_enabled :: bool
  trace_level_lru :: lru

record tstorage =
  ts_id :: u64
  ts_enabled :: int
  last_frame :: u64
  last_gid :: u64
  last_gstorage :: "nat option"
  gid_map :: uthash
  gstorages :: "nat \<rightharpoonup> gstorage"
  lru_size :: nat

text \<open>The hash table's configuration, where the allocator puts an object, given the addresses in use,
  and what fresh memory holds.\<close>

record storage_env =
  se_config :: ut_config
  se_alloc :: "(nat \<Rightarrow> bool) \<Rightarrow> nat"
  se_entry :: "nat \<Rightarrow> lru_entry"
  se_handle :: "nat \<Rightarrow> handle"

definition gstorage_new :: "storage_env \<Rightarrow> u64 \<Rightarrow> nat \<Rightarrow> gstorage" where
  "gstorage_new env gid trace_level_lru_capacity =
     \<lparr>gs_gid = gid, gs_depth = - 1, no_trace_from_depth = NO_TRACE_FROM_DEPTH_DISABLED,
      gs_last_frame = 0, gs_enabled = True,
      trace_level_lru = lru_new (se_entry env) (se_handle env) trace_level_lru_capacity\<rparr>"

definition tstorage_new :: "u64 \<Rightarrow> nat \<Rightarrow> tstorage" where
  "tstorage_new tid trace_level_lru_capacity =
     \<lparr>ts_id = tid, ts_enabled = 1, last_frame = 0, last_gid = - 1, last_gstorage = None,
      gid_map = \<lparr>hash_head = None, tbl = None, heap = Map.empty\<rparr>, gstorages = Map.empty,
      lru_size = trace_level_lru_capacity\<rparr>"

definition find_gstorage :: "storage_env \<Rightarrow> u64 \<Rightarrow> tstorage \<Rightarrow> nat option option" where
  "find_gstorage env gid s = hash_find (se_config env) (int_key gid) (gid_map s)"

definition new_gstorage :: "storage_env \<Rightarrow> u64 \<Rightarrow> tstorage \<Rightarrow> (nat \<times> tstorage) outcome option" where
  "new_gstorage env gid s =
     (let a = se_alloc env (\<lambda>b. gstorages s b \<noteq> None);
          t = gid_map s;
          s = s\<lparr>gstorages := (gstorages s)(a \<mapsto> gstorage_new env gid (lru_size s))\<rparr>
      in do {
        r \<leftarrow> hash_add (se_config env) a (int_key gid) (t\<lparr>heap := (heap t)(a \<mapsto> se_handle env a)\<rparr>);
        Some (case r of Fatal \<Rightarrow> Fatal | Done t \<Rightarrow> Done (a, s\<lparr>gid_map := t\<rparr>)) })"

text \<open>\<open>HASH_DEL\<close> and then \<open>delete\<close>, which runs the destructor of the LRU member.\<close>

definition del_gstorage :: "nat \<Rightarrow> tstorage \<Rightarrow> tstorage option" where
  "del_gstorage a s = do {
     t \<leftarrow> hash_delete a (gid_map s);
     g \<leftarrow> gstorages s a;
     lru_t \<leftarrow> lru_delete (trace_level_lru g);
     Some (s\<lparr>gid_map := t\<lparr>heap := (heap t)(a := None)\<rparr>, gstorages := (gstorages s)(a := None)\<rparr>) }"

text \<open>The destructor's loop frees an element after it was deleted from the table.\<close>

definition tstorage_delete :: "tstorage \<Rightarrow> uthash option" where
  "tstorage_delete s = hash_iter (\<lambda>a t. do {
     t \<leftarrow> hash_delete a t;
     g \<leftarrow> gstorages s a;
     lru_t \<leftarrow> lru_delete (trace_level_lru g);
     Some (t\<lparr>heap := (heap t)(a := None)\<rparr>) }) (gid_map s)"

section \<open>The invariant\<close>

text \<open>The storages that exist are those in the table, each under the key of its greenlet id; \<open>P\<close> is
  what is known of a storage.\<close>

definition ts_ok :: "storage_env \<Rightarrow> (gstorage \<Rightarrow> bool) \<Rightarrow> tstorage \<Rightarrow> keyed \<Rightarrow> bool" where
  "ts_ok env P s es \<longleftrightarrow> hash_rel (se_config env) (dom (gstorages s)) (gid_map s) es \<and> distinct (map fst es) \<and>
     dom (gstorages s) = snd ` set es \<and>
     (\<forall>(k, a) \<in> set es. \<exists>g. gstorages s a = Some g \<and> int_key (gs_gid g) = k \<and> P g)"

text \<open>What is assumed of the allocator: it does not hand out an address that is in use.\<close>

definition env_ok :: "storage_env \<Rightarrow> bool" where
  "env_ok env \<longleftrightarrow> memory_limited (se_config env) \<and> (\<forall>used. finite {b. used b} \<longrightarrow> \<not> used (se_alloc env used))"

lemma ts_okD:
  assumes "ts_ok env P s es"
  shows "hash_rel (se_config env) (snd ` set es) (gid_map s) es" "distinct (map fst es)"
    "dom (gstorages s) = snd ` set es" "distinct (map snd es)"
    "\<And>k a. (k, a) \<in> set es \<Longrightarrow> \<exists>g. gstorages s a = Some g \<and> int_key (gs_gid g) = k \<and> P g"
  using assms hash_rel_wf by (auto simp: ts_ok_def)

lemma ts_okI:
  assumes "hash_rel (se_config env) (snd ` set es) (gid_map s) es" "distinct (map fst es)"
    "dom (gstorages s) = snd ` set es"
    "\<And>k a. (k, a) \<in> set es \<Longrightarrow> \<exists>g. gstorages s a = Some g \<and> int_key (gs_gid g) = k \<and> P g"
  shows "ts_ok env P s es"
  unfolding ts_ok_def assms(3) using assms(1,2,4) by blast

lemma ts_ok_new: "ts_ok env P (tstorage_new tid c) []"
  by (simp add: ts_ok_def tstorage_new_def hash_rel_def hash_ok_empty)

lemma find_gstorage_ok:
  assumes "env_ok env" "ts_ok env P s es"
  shows "find_gstorage env gid s = Some (map_of es (int_key gid))"
  using assms ts_okD(1,2) [OF assms(2)] hash_rel_map_of by (auto simp: find_gstorage_def env_ok_def)

lemma new_gstorage_ok:
  assumes "env_ok env" "ts_ok env P s es" "int_key gid \<notin> fst ` set es" "length es + 1 < 2 ^ 32"
    "P (gstorage_new env gid (lru_size s))"
  shows "new_gstorage env gid s = Some Fatal \<or> (\<exists>a t s'. new_gstorage env gid s = Some (Done (a, s')) \<and>
    s' = s\<lparr>gstorages := (gstorages s)(a \<mapsto> gstorage_new env gid (lru_size s)), gid_map := t\<rparr> \<and>
    a \<notin> snd ` set es \<and> ts_ok env P s' (es @ [(int_key gid, a)]))"
proof -
  note h = ts_okD [OF assms(2)]
  let ?a = "se_alloc env (\<lambda>b. gstorages s b \<noteq> None)"
  have "finite {b. gstorages s b \<noteq> None}" using h(3) unfolding dom_def [symmetric] by simp
  with assms(1) have "\<not> gstorages s ?a \<noteq> None" unfolding env_ok_def by blast
  then have a: "?a \<notin> snd ` set es" using h(3) by auto
  let ?t = "(gid_map s)\<lparr>heap := (heap (gid_map s))(?a \<mapsto> se_handle env ?a)\<rparr>"
  have rel: "hash_rel (se_config env) (insert ?a (snd ` set es)) ?t es" using h(1) a by (rule hash_rel_alloc)
  have mem: "memory_limited (se_config env)" using assms(1) by (simp add: env_ok_def)
  have "length (int_key gid) < 2 ^ 32" by simp
  from hash_rel_add [OF mem rel insertI1 a assms(4) this] show ?thesis
  proof
    assume "hash_add (se_config env) ?a (int_key gid) ?t = Some Fatal"
    then show ?thesis by (simp add: new_gstorage_def Let_def)
  next
    assume "\<exists>s'. hash_add (se_config env) ?a (int_key gid) ?t = Some (Done s') \<and>
      hash_rel (se_config env) (insert ?a (snd ` set es)) s' (es @ [(int_key gid, ?a)])"
    then obtain t' where t': "hash_add (se_config env) ?a (int_key gid) ?t = Some (Done t')"
      "hash_rel (se_config env) (insert ?a (snd ` set es)) t' (es @ [(int_key gid, ?a)])" by blast
    let ?s = "s\<lparr>gstorages := (gstorages s)(?a \<mapsto> gstorage_new env gid (lru_size s)), gid_map := t'\<rparr>"
    let ?es = "es @ [(int_key gid, ?a)]"
    have D: "snd ` set ?es = insert ?a (snd ` set es)" by auto
    have "ts_ok env P ?s ?es"
    proof (rule ts_okI)
      show "hash_rel (se_config env) (snd ` set ?es) (gid_map ?s) ?es" unfolding D using t'(2) by simp
      show "distinct (map fst ?es)" using h(2) assms(3) by simp
      show "dom (gstorages ?s) = snd ` set ?es" unfolding D using h(3) by simp
      show "\<exists>g. gstorages ?s b = Some g \<and> int_key (gs_gid g) = k \<and> P g" if "(k, b) \<in> set ?es" for k b
      proof (cases "b = ?a")
        case True
        then have "k = int_key gid" using that a by force
        with True assms(5) show ?thesis by (simp add: gstorage_new_def)
      next
        case False
        with that have "(k, b) \<in> set es" by auto
        with h(5) False show ?thesis by simp
      qed
    qed
    moreover have "new_gstorage env gid s = Some (Done (?a, ?s))"
      using t'(1) by (simp add: new_gstorage_def Let_def)
    ultimately show ?thesis using a by blast
  qed
qed

lemma del_gstorage_ok:
  assumes "ts_ok env P s es" "(k, a) \<in> set es" "\<And>g. P g \<Longrightarrow> \<exists>t. lru_delete (trace_level_lru g) = Some t"
  shows "\<exists>t. del_gstorage a s = Some (s\<lparr>gid_map := t, gstorages := (gstorages s)(a := None)\<rparr>) \<and>
    ts_ok env P (s\<lparr>gid_map := t, gstorages := (gstorages s)(a := None)\<rparr>) (remove1 (k, a) es)"
proof -
  note h = ts_okD [OF assms(1)]
  obtain t where t: "hash_delete a (gid_map s) = Some t"
    "hash_rel (se_config env) (snd ` set es) t (remove1 (k, a) es)" using hash_rel_delete [OF h(1) assms(2)] by blast
  obtain g lt where g: "gstorages s a = Some g" "lru_delete (trace_level_lru g) = Some lt" using h(5) [OF assms(2)] assms(3) by blast
  let ?t = "t\<lparr>heap := (heap t)(a := None)\<rparr>"
  let ?s = "s\<lparr>gid_map := ?t, gstorages := (gstorages s)(a := None)\<rparr>"
  have r: "remove1 (k, a) es = filter (\<lambda>e. snd e \<noteq> a) es" using h(4) assms(2) by (rule remove1_filter_snd)
  have out: "a \<notin> snd ` set (filter (\<lambda>e. snd e \<noteq> a) es)" by auto
  have rel: "hash_rel (se_config env) (snd ` set es - {a}) ?t (filter (\<lambda>e. snd e \<noteq> a) es)"
    using t(2) out unfolding r by (rule hash_rel_free)
  have d: "dom (gstorages ?s) = snd ` set es - {a}" "snd ` set es - {a} = snd ` set (filter (\<lambda>e. snd e \<noteq> a) es)"
    using h(3) by auto
  have "\<exists>g. gstorages ?s b = Some g \<and> int_key (gs_gid g) = k' \<and> P g" if "(k', b) \<in> set (filter (\<lambda>e. snd e \<noteq> a) es)" for k' b
    using that h(5) by auto
  moreover have "distinct (map fst (filter (\<lambda>e. snd e \<noteq> a) es))" using h(2) by (rule distinct_map_filter)
  ultimately have "ts_ok env P ?s (remove1 (k, a) es)" unfolding ts_ok_def r d(1) using rel d(2) by auto
  moreover have "del_gstorage a s = Some ?s" using t(1) g by (simp add: del_gstorage_def)
  ultimately show ?thesis by blast
qed

text \<open>A storage is changed in place.\<close>

lemma update_gstorage_ok:
  assumes "ts_ok env P s es" "(k, a) \<in> set es" "P g'" "int_key (gs_gid g') = k"
  shows "ts_ok env P (s\<lparr>gstorages := (gstorages s)(a \<mapsto> g')\<rparr>) es"
proof -
  note h = ts_okD [OF assms(1)]
  have a: "a \<in> snd ` set es" using assms(2) by force
  have "\<exists>g. ((gstorages s)(a \<mapsto> g')) b = Some g \<and> int_key (gs_gid g) = k' \<and> P g" if "(k', b) \<in> set es" for k' b
  proof (cases "b = a")
    case True
    have "inj_on snd (set es)" using h(4) by (simp add: distinct_map)
    with True that have "k' = k" using assms(2) inj_onD [of snd "set es" "(k', b)" "(k, a)"] by simp
    with True assms(3,4) show ?thesis by simp
  qed (use h(5) [OF that] in simp)
  then show ?thesis using h(1-3) a by (intro ts_okI) (simp_all add: insert_absorb)
qed

text \<open>Every greenlet storage left is freed when the thread ends.\<close>

lemma tstorage_delete_ok:
  assumes "ts_ok env P s es" "\<And>g. P g \<Longrightarrow> \<exists>t. lru_delete (trace_level_lru g) = Some t"
  shows "\<exists>t. tstorage_delete s = Some t \<and> hash_head t = None \<and> tbl t = None"
proof -
  note h = ts_okD [OF assms(1)]
  have ok: "hash_ok (se_config env) (map snd es) (gid_map s)" using h(1) by (simp add: hash_rel_def)
  have "\<exists>t'. do { t \<leftarrow> hash_delete a t; g \<leftarrow> gstorages s a; lru_t \<leftarrow> lru_delete (trace_level_lru g);
      Some (t\<lparr>heap := (heap t)(a := None)\<rparr>) } = Some t' \<and> hash_ok (se_config env) ys t'"
    if a: "a \<in> set (map snd es)" and t: "hash_ok (se_config env) (a # ys) t" for a ys t
  proof -
    from hash_delete_ok [OF t, of a] obtain t1 where t1: "hash_delete a t = Some t1" "hash_ok (se_config env) ys t1" by auto
    from a h(5) obtain g where "gstorages s a = Some g" "P g" by fastforce
    moreover have "a \<notin> set ys" using t by (simp add: hash_ok_def)
    then have "hash_ok (se_config env) ys (t1\<lparr>heap := (heap t1)(a := None)\<rparr>)" by (intro hash_ok_frame [OF t1(2)]) auto
    ultimately show ?thesis using t1(1) assms(2) by fastforce
  qed
  from hash_iter_deletes [OF this ok] show ?thesis by (auto simp: tstorage_delete_def hash_ok_def)
qed

section \<open>A sample environment\<close>

text \<open>The lowest free address.\<close>

definition first_free :: "(nat \<Rightarrow> bool) \<Rightarrow> nat" where
  "first_free used = (case while_option used Suc 0 of None \<Rightarrow> 0 | Some a \<Rightarrow> a)"

lemma first_free_unused:
  assumes "finite {b. used b}"
  shows "\<not> used (first_free used)"
proof -
  obtain n where n: "\<forall>b \<in> {b. used b}. b < n" using assms finite_nat_set_iff_bounded by blast
  have "\<exists>a. while_option used Suc 0 = Some a"
    by (rule measure_while_option_Some [where f = "\<lambda>a. n - a" and P = "\<lambda>a. True"]) (use n in auto)
  then show ?thesis by (auto simp: first_free_def dest: while_option_stop)
qed

definition sample_env :: storage_env where
  "sample_env = \<lparr>se_config = sample_config, se_alloc = first_free, se_entry = junk_entry, se_handle = (\<lambda>i. blank_handle)\<rparr>"

lemma sample_env_ok: "env_ok sample_env"
  using sample_limited by (simp add: env_ok_def sample_env_def first_free_unused)

end
