(* ===== verification/Greenlet_Trace.thy ===== *)
theory Greenlet_Trace
  imports Thread_Storage
begin

text \<open>
  \<open>ctracing.pyx\<close>: the profile function that the interpreter calls on every call and return.  It
  finds the storage of the running greenlet (through a one-entry cache keyed by the current
  frame, else through the thread's table), keeps its depth, and decides by the cached trace
  level of the code object whether the event is logged; a level \<open>NO_TRACE_NESTED\<close> also
  suppresses everything the function calls.  The hit and miss counters, which only
  \<open>ctracing_print_stats\<close> reads, are left out.
\<close>

section \<open>Frames and events\<close>

text \<open>A frame is its address, the address of its code object, and the frame that called it.\<close>

datatype frame = Frame (f_addr: u64) (f_code: u64) (f_back: "frame option")

datatype trace_what = PyTrace_CALL | PyTrace_RETURN | PyTrace_OTHER

datatype log_entry =
    Log_Call (lg_level: int) (lg_tid: u64) (lg_gid: u64) (lg_depth: int) (lg_code: u64)
  | Log_Return (lg_level: int) (lg_tid: u64) (lg_gid: u64) (lg_depth: int) (lg_code: u64)

abbreviation NO_TRACE :: int where "NO_TRACE \<equiv> 0"
abbreviation NO_TRACE_NESTED :: int where "NO_TRACE_NESTED \<equiv> 1"

text \<open>A pointer to a frame as a number, 0 for NULL.\<close>

definition frame_ptr :: "frame option \<Rightarrow> u64" where
  "frame_ptr p = (case p of None \<Rightarrow> 0 | Some fr \<Rightarrow> f_addr fr)"

fun calc_new_greenlet_depth :: "frame \<Rightarrow> int" where
  "calc_new_greenlet_depth (Frame a c None) = 0"
| "calc_new_greenlet_depth (Frame a c (Some b)) = calc_new_greenlet_depth b + 1"

text \<open>An operation that may be undefined or end the process, and then another.\<close>

definition and_then :: "'a outcome option \<Rightarrow> ('a \<Rightarrow> 'b outcome option) \<Rightarrow> 'b outcome option" where
  "and_then m k = do { r \<leftarrow> m; (case r of Fatal \<Rightarrow> Some Fatal | Done x \<Rightarrow> k x) }"

lemma and_then_simps [simp]:
  "and_then (Some Fatal) k = Some Fatal" "and_then (Some (Done x)) k = k x"
  by (simp_all add: and_then_def)

section \<open>The storage of the running greenlet\<close>

text \<open>The common part of \<open>get_gstore_on_call\<close> and \<open>get_gstore_on_return\<close>: which frame must be the
  cached one, and which becomes it.\<close>

definition get_gstore ::
  "storage_env \<Rightarrow> u64 \<Rightarrow> u64 \<Rightarrow> frame \<Rightarrow> u64 \<Rightarrow> tstorage \<Rightarrow> (nat \<times> tstorage) outcome option" where
  "get_gstore env cached new_last frame current_gid s =
     (let hit = (last_frame s \<noteq> 0 \<and> last_frame s = cached);
          gid = (if hit then last_gid s else current_gid);
          gstore = (if hit then last_gstorage s else None);
          s = s\<lparr>last_gid := gid, last_frame := new_last\<rparr>
      in case gstore of
           Some a \<Rightarrow> Some (Done (a, s))
         | None \<Rightarrow> do {
             found \<leftarrow> find_gstorage env gid s;
             and_then
               (case found of
                  Some a \<Rightarrow> Some (Done (a, s))
                | None \<Rightarrow> and_then (new_gstorage env gid s) (\<lambda>(a, s). do {
                    g \<leftarrow> gstorages s a;
                    Some (Done (a, s\<lparr>gstorages := (gstorages s)(a \<mapsto> g\<lparr>gs_depth := calc_new_greenlet_depth frame\<rparr>)\<rparr>)) }))
               (\<lambda>(a, s). Some (Done (a, s\<lparr>last_gstorage := Some a\<rparr>))) })"

definition get_gstore_on_call ::
  "storage_env \<Rightarrow> frame \<Rightarrow> u64 \<Rightarrow> tstorage \<Rightarrow> (nat \<times> tstorage) outcome option" where
  "get_gstore_on_call env frame = get_gstore env (frame_ptr (f_back frame)) (f_addr frame) frame"

definition get_gstore_on_return ::
  "storage_env \<Rightarrow> frame \<Rightarrow> u64 \<Rightarrow> tstorage \<Rightarrow> (nat \<times> tstorage) outcome option" where
  "get_gstore_on_return env frame = get_gstore env (f_addr frame) (frame_ptr (f_back frame)) frame"

section \<open>The profile function\<close>

text \<open>The decision, once the storage is known and tracing is on for the event's depth.\<close>

definition decide ::
  "storage_env \<Rightarrow> (u64 \<Rightarrow> int option) \<Rightarrow> u64 \<Rightarrow> trace_what \<Rightarrow> frame \<Rightarrow> int \<Rightarrow> gstorage \<Rightarrow>
   (log_entry list \<times> gstorage) outcome option" where
  "decide env filter_func tid what frame depth gstore =
     (if depth \<le> no_trace_from_depth gstore
      then (let gstore = gstore\<lparr>no_trace_from_depth := NO_TRACE_FROM_DEPTH_DISABLED\<rparr>
            in and_then (cached_level (se_config env) filter_func (f_code frame) (trace_level_lru gstore))
                 (\<lambda>(trace_level, l).
                    let gstore = gstore\<lparr>trace_level_lru := l\<rparr>
                    in Some (Done
                         (if trace_level = NO_TRACE_NESTED then ([], gstore\<lparr>no_trace_from_depth := depth\<rparr>)
                          else if trace_level \<noteq> NO_TRACE
                          then (if what = PyTrace_CALL
                                then ([Log_Call trace_level tid (gs_gid gstore) depth (f_code frame)], gstore)
                                else ([Log_Return trace_level tid (gs_gid gstore) depth (f_code frame)], gstore))
                          else ([], gstore)))))
      else Some (Done ([], gstore)))"

definition greenlet_trace_func ::
  "storage_env \<Rightarrow> (u64 \<Rightarrow> int option) \<Rightarrow> frame \<Rightarrow> trace_what \<Rightarrow> u64 \<Rightarrow> tstorage \<Rightarrow>
   (log_entry list \<times> tstorage) outcome option" where
  "greenlet_trace_func env filter_func frame what current_gid s =
     (if what = PyTrace_OTHER then Some (Done ([], s))
      else and_then
        (if what = PyTrace_CALL then get_gstore_on_call env frame current_gid s
         else get_gstore_on_return env frame current_gid s)
        (\<lambda>(a, s). do {
           gstore \<leftarrow> gstorages s a;
           (let depth = (if what = PyTrace_CALL then gs_depth gstore + 1 else gs_depth gstore);
                gstore = gstore\<lparr>gs_depth := (if what = PyTrace_CALL then gs_depth gstore + 1 else gs_depth gstore - 1)\<rparr>
            in and_then
                 (if ts_enabled s > 0 then decide env filter_func (ts_id s) what frame depth gstore
                  else Some (Done ([], gstore)))
                 (\<lambda>(log, gstore).
                    let s = s\<lparr>gstorages := (gstorages s)(a \<mapsto> gstore)\<rparr>
                    in do {
                      s \<leftarrow> (if what = PyTrace_RETURN \<and> f_back frame = None then del_gstorage a s else Some s);
                      Some (Done (log, s)) })) }))"

definition suspend :: "tstorage \<Rightarrow> tstorage" where
  "suspend s = s\<lparr>ts_enabled := ts_enabled s - 1\<rparr>"

definition resume :: "tstorage \<Rightarrow> tstorage" where
  "resume s = (if ts_enabled s \<le> 0 then s\<lparr>ts_enabled := ts_enabled s + 1\<rparr> else s)"

text \<open>What happens in one thread: profile events, with the greenlet that runs, and the two calls
  that switch tracing off and on.\<close>

datatype event = Profile trace_what frame u64 | Suspend | Resume

fun trace_event ::
  "storage_env \<Rightarrow> (u64 \<Rightarrow> int option) \<Rightarrow> event \<Rightarrow> tstorage \<Rightarrow> (log_entry list \<times> tstorage) outcome option" where
  "trace_event env f (Profile what frame gid) s = greenlet_trace_func env f frame what gid s"
| "trace_event env f Suspend s = Some (Done ([], suspend s))"
| "trace_event env f Resume s = Some (Done ([], resume s))"

fun trace_events ::
  "storage_env \<Rightarrow> (u64 \<Rightarrow> int option) \<Rightarrow> event list \<Rightarrow> tstorage \<Rightarrow> (log_entry list \<times> tstorage) outcome option" where
  "trace_events env f [] s = Some (Done ([], s))"
| "trace_events env f (e # es) s =
     and_then (trace_event env f e s) (\<lambda>(log, s).
       and_then (trace_events env f es s) (\<lambda>(log', s). Some (Done (log @ log', s))))"

section \<open>The invariant\<close>

text \<open>A storage's cache is in order and holds only what the filter says of code objects in \<open>K\<close>.\<close>

definition gs_inv :: "storage_env \<Rightarrow> (u64 \<Rightarrow> int option) \<Rightarrow> u64 set \<Rightarrow> nat \<Rightarrow> gstorage \<Rightarrow> bool" where
  "gs_inv env f K c g \<longleftrightarrow> (\<exists>cs. lru_rel (se_config env) c (trace_level_lru g) cs \<and> agrees f K cs)"

text \<open>A non-null \<open>last_frame\<close> guards \<open>last_gstorage\<close>: it is then a live storage of the table.\<close>

definition ts_inv :: "storage_env \<Rightarrow> (u64 \<Rightarrow> int option) \<Rightarrow> u64 set \<Rightarrow> nat \<Rightarrow> tstorage \<Rightarrow> keyed \<Rightarrow> bool" where
  "ts_inv env f K c s es \<longleftrightarrow> ts_ok env (gs_inv env f K c) s es \<and> lru_size s = c \<and>
     (last_frame s \<noteq> 0 \<longrightarrow> (\<exists>a. last_gstorage s = Some a \<and> (int_key (last_gid s), a) \<in> set es))"

text \<open>What is assumed of a run: the allocator and the table's memory, the capacity of the caches, and
  that the filter never answers -1 for the code objects in \<open>K\<close>.\<close>

definition run_ok :: "storage_env \<Rightarrow> (u64 \<Rightarrow> int option) \<Rightarrow> u64 set \<Rightarrow> nat \<Rightarrow> bool" where
  "run_ok env f K c \<longleftrightarrow> env_ok env \<and> 0 < c \<and> c < 2 ^ 32 \<and> (\<forall>code \<in> K. filter_level f code \<noteq> - 1)"

lemma ts_ok_fields [simp]:
  "ts_ok env P (s\<lparr>last_gid := x\<rparr>) es = ts_ok env P s es" "ts_ok env P (s\<lparr>last_frame := x\<rparr>) es = ts_ok env P s es"
  "ts_ok env P (s\<lparr>last_gstorage := p\<rparr>) es = ts_ok env P s es" "ts_ok env P (s\<lparr>ts_enabled := i\<rparr>) es = ts_ok env P s es"
  by (simp_all add: ts_ok_def)

lemma ts_inv_new: "ts_inv env f K c (tstorage_new tid c) []"
  by (simp add: ts_inv_def ts_ok_new) (simp add: tstorage_new_def)

lemma ts_inv_enabled: "ts_inv env f K c s es \<Longrightarrow> ts_inv env f K c (suspend s) es \<and> ts_inv env f K c (resume s) es"
  by (simp add: ts_inv_def suspend_def resume_def)

text \<open>Two storages of the table are at different addresses.\<close>

lemma ts_ok_address_inj:
  assumes "ts_ok env P s es" "(k, a) \<in> set es" "(k', a) \<in> set es"
  shows "k = k'"
proof -
  have "inj_on snd (set es)" using ts_okD(4) [OF assms(1)] by (simp add: distinct_map)
  from inj_onD [OF this _ assms(2,3)] show ?thesis by simp
qed

text \<open>The storages by key, as the spec sees them: greenlet id, depth, and where tracing is cut off.\<close>

type_synonym gview = "u64 \<times> int \<times> int"

definition view :: "gstorage \<Rightarrow> gview" where
  "view g = (gs_gid g, gs_depth g, no_trace_from_depth g)"

definition views_of :: "tstorage \<Rightarrow> keyed \<Rightarrow> u8 list \<Rightarrow> gview option" where
  "views_of s es k = (case map_of es k of None \<Rightarrow> None | Some a \<Rightarrow> map_option view (gstorages s a))"

lemma views_of_at: "ts_ok env P s es \<Longrightarrow> (k, a) \<in> set es \<Longrightarrow> views_of s es k = map_option view (gstorages s a)"
  using ts_okD(2) by (simp add: views_of_def)

lemma views_of_fields [simp]:
  "views_of (s\<lparr>last_gid := x\<rparr>) = views_of s" "views_of (s\<lparr>last_frame := x\<rparr>) = views_of s"
  "views_of (s\<lparr>last_gstorage := p\<rparr>) = views_of s" "views_of (s\<lparr>ts_enabled := i\<rparr>) = views_of s"
  "views_of (s\<lparr>gid_map := t\<rparr>) = views_of s"
  by (intro ext, simp add: views_of_def split: option.split)+

lemma views_of_update:
  assumes "ts_ok env P s es" "(k, a) \<in> set es"
  shows "views_of (s\<lparr>gstorages := (gstorages s)(a \<mapsto> g)\<rparr>) es = (views_of s es)(k \<mapsto> view g)"
proof
  fix k'
  show "views_of (s\<lparr>gstorages := (gstorages s)(a \<mapsto> g)\<rparr>) es k' = ((views_of s es)(k \<mapsto> view g)) k'"
  proof (cases "map_of es k'")
    case None
    with assms ts_okD(2) have "k' \<noteq> k" by (metis map_of_is_SomeI option.distinct(1))
    with None show ?thesis by (simp add: views_of_def)
  next
    case (Some b)
    then have b: "(k', b) \<in> set es" by (rule map_of_SomeD)
    have "b = a \<longleftrightarrow> k' = k"
      using ts_ok_address_inj [OF assms(1)] assms(2) b Some ts_okD(2) [OF assms(1)] by (metis map_of_is_SomeI option.inject)
    with Some show ?thesis by (auto simp: views_of_def)
  qed
qed

section \<open>Finding the storage\<close>

lemma room_for_key:
  assumes "distinct (map fst es)" "fst ` set es \<subseteq> KG" "k \<in> KG" "k \<notin> fst ` set es" "finite KG" "card KG < n"
  shows "length es + 1 < (n :: nat)"
proof -
  have "length es + 1 = card (set (map fst (es @ [(k, a)])))"
    using assms(1,4) distinct_card [of "map fst (es @ [(k, a)])"] by simp
  also have "\<dots> \<le> card KG" using assms(2,3,5) by (intro card_mono) auto
  finally show ?thesis using assms(6) by simp
qed

lemma gs_inv_new:
  assumes "gs_gid g = gid" "trace_level_lru g = lru_new junk junk_handle c"
  shows "gs_inv env f K c g"
  using new_rel [of "se_config env" c junk junk_handle] assms by (auto simp: gs_inv_def agrees_def)

lemma gs_inv_delete: "gs_inv env f K c g \<Longrightarrow> \<exists>t. lru_delete (trace_level_lru g) = Some t"
  by (auto simp: gs_inv_def dest: lru_delete_ok)

lemma get_gstore_fresh:
  assumes env: "env_ok env" and inv: "ts_inv env f K c s es"
    and keys: "fst ` set es \<subseteq> KG" "int_key gid \<in> KG" "finite KG" "card KG < 2 ^ 32"
    and miss: "\<not> (last_frame s \<noteq> 0 \<and> last_frame s = cached)" and none: "map_of es (int_key gid) = None"
  obtains (fatal) "get_gstore env cached new_last fr gid s = Some Fatal"
    | (found) a s' es' g where "get_gstore env cached new_last fr gid s = Some (Done (a, s'))"
        "ts_ok env (gs_inv env f K c) s' es'" "lru_size s' = c" "fst ` set es' \<subseteq> KG" "(int_key gid, a) \<in> set es'"
        "last_frame s' = new_last" "last_gid s' = gid" "last_gstorage s' = Some a"
        "ts_enabled s' = ts_enabled s" "ts_id s' = ts_id s" "gstorages s' a = Some g"
        "view g = (gid, calc_new_greenlet_depth fr, NO_TRACE_FROM_DEPTH_DISABLED)"
        "\<And>x. (views_of s' es')(int_key gid := x) = (views_of s es)(int_key gid := x)"
proof -
  let ?s = "s\<lparr>last_gid := gid, last_frame := new_last\<rparr>" and ?k = "int_key gid" and ?P = "gs_inv env f K c"
  have ok: "ts_ok env ?P s es" and size: "lru_size s = c" using inv by (simp_all add: ts_inv_def)
  have ok': "ts_ok env ?P ?s es" using ok by simp
  have new: "?k \<notin> fst ` set es" using none by (simp add: map_of_eq_None_iff)
  have room: "length es + 1 < 2 ^ 32"
    using room_for_key [OF ts_okD(2) [OF ok] keys(1) _ new keys(3,4)] keys(2) by simp
  have "find_gstorage env gid ?s = Some None" using find_gstorage_ok [OF env ok'] none by simp
  then have eq: "get_gstore env cached new_last fr gid s =
      and_then (and_then (new_gstorage env gid ?s) (\<lambda>(a, s). do {
        g \<leftarrow> gstorages s a;
        Some (Done (a, s\<lparr>gstorages := (gstorages s)(a \<mapsto> g\<lparr>gs_depth := calc_new_greenlet_depth fr\<rparr>)\<rparr>)) }))
        (\<lambda>(a, s). Some (Done (a, s\<lparr>last_gstorage := Some a\<rparr>)))"
    using miss by (simp add: get_gstore_def Let_def if_not_P)
  have "?P (gstorage_new env gid (lru_size ?s))"
    using size by (intro gs_inv_new) (simp_all add: gstorage_new_def)
  from new_gstorage_ok [OF env ok' new room this] consider (Fatal) "new_gstorage env gid ?s = Some Fatal"
    | (Done) a t s1 where "new_gstorage env gid ?s = Some (Done (a, s1))"
      "s1 = ?s\<lparr>gstorages := (gstorages ?s)(a \<mapsto> gstorage_new env gid (lru_size ?s)), gid_map := t\<rparr>"
      "a \<notin> snd ` set es" "ts_ok env ?P s1 (es @ [(?k, a)])" by blast
  then show thesis
  proof cases
    case Fatal
    then show thesis using eq by (intro fatal) simp
  next
    case (Done a t s1)
    let ?g = "(gstorage_new env gid c)\<lparr>gs_depth := calc_new_greenlet_depth fr\<rparr>" and ?es = "es @ [(?k, a)]"
    let ?s' = "s1\<lparr>gstorages := (gstorages s1)(a \<mapsto> ?g), last_gstorage := Some a\<rparr>"
    have P: "?P ?g" by (rule gs_inv_new) (simp_all add: gstorage_new_def)
    have a: "(?k, a) \<in> set ?es" by simp
    have "int_key (gs_gid ?g) = ?k" by (simp add: gstorage_new_def)
    with Done(4) a P have upd: "ts_ok env ?P (s1\<lparr>gstorages := (gstorages s1)(a \<mapsto> ?g)\<rparr>) ?es"
      by (rule update_gstorage_ok)
    have "views_of s1 ?es k = views_of s es k" if "k \<noteq> ?k" for k
    proof -
      have "map_of ?es k = map_of es k" using that by (simp add: map_add_def split: option.split)
      moreover have "gstorages s1 b = gstorages s b" if "map_of es k = Some b" for b
        using map_of_SomeD [OF that] Done(2,3) by force
      ultimately show ?thesis by (auto simp: views_of_def split: option.split)
    qed
    then have v: "(views_of ?s' ?es)(?k := x) = (views_of s es)(?k := x)" for x
      using views_of_update [OF Done(4) a] by (auto simp: fun_eq_iff)
    have g1: "gstorages s1 a = Some (gstorage_new env gid c)" using Done(2) size by simp
    have call: "get_gstore env cached new_last fr gid s = Some (Done (a, ?s'))" unfolding eq Done(1) using g1 by simp
    show thesis by (rule found [OF call, of ?es ?g])
       (use upd Done(2) size keys a v in \<open>simp_all add: view_def gstorage_new_def\<close>)
  qed
qed

lemma get_gstore_ok:
  assumes env: "env_ok env" and inv: "ts_inv env f K c s es"
    and keys: "fst ` set es \<subseteq> KG" "int_key gid \<in> KG" "finite KG" "card KG < 2 ^ 32"
    and used: "used = (if last_frame s \<noteq> 0 \<and> last_frame s = cached then last_gid s else gid)"
  obtains (fatal) "get_gstore env cached new_last fr gid s = Some Fatal"
    | (found) a s' es' g where "get_gstore env cached new_last fr gid s = Some (Done (a, s'))"
        "ts_ok env (gs_inv env f K c) s' es'" "lru_size s' = c" "fst ` set es' \<subseteq> KG" "(int_key used, a) \<in> set es'"
        "last_frame s' = new_last" "last_gid s' = used" "last_gstorage s' = Some a"
        "ts_enabled s' = ts_enabled s" "ts_id s' = ts_id s" "gstorages s' a = Some g"
        "view g = (case views_of s es (int_key used) of
            None \<Rightarrow> (gid, calc_new_greenlet_depth fr, NO_TRACE_FROM_DEPTH_DISABLED) | Some v \<Rightarrow> v)"
        "\<And>x. (views_of s' es')(int_key used := x) = (views_of s es)(int_key used := x)"
proof -
  let ?s = "s\<lparr>last_gid := used, last_frame := new_last\<rparr>" and ?k = "int_key used" and ?P = "gs_inv env f K c"
  have ok: "ts_ok env ?P s es" and size: "lru_size s = c" using inv by (simp_all add: ts_inv_def)
  have ok': "ts_ok env ?P ?s es" using ok by simp
  have at: "\<exists>g. gstorages s a = Some g \<and> views_of s es ?k = Some (view g)" if "(?k, a) \<in> set es" for a
    using ts_okD(5) [OF ok that] views_of_at [OF ok that] by auto
  consider (hit) a where "cached \<noteq> 0" "last_frame s = cached" "used = last_gid s" "last_gstorage s = Some a" "(?k, a) \<in> set es"
    | (known) a where "\<not> (last_frame s \<noteq> 0 \<and> last_frame s = cached)" "used = gid" "map_of es ?k = Some a"
    | (fresh) "\<not> (last_frame s \<noteq> 0 \<and> last_frame s = cached)" "used = gid" "map_of es ?k = None"
    using inv used by (cases "map_of es ?k") (auto simp: ts_inv_def split: if_splits)
  then show thesis
  proof cases
    case (hit a)
    with at obtain g where g: "gstorages s a = Some g" "views_of s es ?k = Some (view g)" by blast
    have "get_gstore env cached new_last fr gid s = Some (Done (a, ?s))"
      using hit by (simp add: get_gstore_def Let_def)
    then show ?thesis by (rule found [where g = g and es' = es]) (use ok' size keys hit g in simp_all)
  next
    case (known a)
    then have a: "(?k, a) \<in> set es" by (simp add: map_of_SomeD)
    with at obtain g where g: "gstorages s a = Some g" "views_of s es ?k = Some (view g)" by blast
    have "find_gstorage env used ?s = Some (Some a)" using find_gstorage_ok [OF env ok'] known by simp
    then have "get_gstore env cached new_last fr gid s = Some (Done (a, ?s\<lparr>last_gstorage := Some a\<rparr>))"
      using known by (simp add: get_gstore_def Let_def if_not_P)
    then show ?thesis by (rule found [where g = g and es' = es]) (use ok' size keys a g in simp_all)
  next
    case fresh
    have none: "views_of s es ?k = None" using fresh(3) by (simp add: views_of_def)
    have "map_of es (int_key gid) = None" using fresh(2,3) by simp
    with env inv keys fresh(1) show ?thesis
      by (rule get_gstore_fresh [of env f K c s es KG gid cached new_last fr]) (rule fatal, assumption,
        rule found, assumption+, use none fresh(2) in simp_all)
  qed
qed

section \<open>What one event does to its greenlet\<close>

text \<open>The abstract step of one greenlet: no table, no cache, no pointers.  The storage is the triple of
  its view, or None where the greenlet is not known; \<open>level\<close> is what the filter says.\<close>

definition entry :: "trace_what \<Rightarrow> int \<Rightarrow> u64 \<Rightarrow> u64 \<Rightarrow> int \<Rightarrow> u64 \<Rightarrow> log_entry" where
  "entry what level tid gid depth code =
     (if what = PyTrace_CALL then Log_Call level tid gid depth code else Log_Return level tid gid depth code)"

definition decision :: "int \<Rightarrow> u64 \<Rightarrow> trace_what \<Rightarrow> frame \<Rightarrow> u64 \<Rightarrow> int \<Rightarrow> int \<Rightarrow> log_entry list \<times> int" where
  "decision level tid what fr gid depth cutoff =
     (if depth \<le> cutoff
      then (if level = NO_TRACE_NESTED then ([], depth)
            else (if level = NO_TRACE then [] else [entry what level tid gid depth (f_code fr)],
                  NO_TRACE_FROM_DEPTH_DISABLED))
      else ([], cutoff))"

definition greenlet_step ::
  "bool \<Rightarrow> int \<Rightarrow> u64 \<Rightarrow> trace_what \<Rightarrow> frame \<Rightarrow> u64 \<Rightarrow> gview option \<Rightarrow> log_entry list \<times> gview option" where
  "greenlet_step enabled level tid what fr gid v =
     (case (case v of None \<Rightarrow> (gid, calc_new_greenlet_depth fr, NO_TRACE_FROM_DEPTH_DISABLED) | Some v \<Rightarrow> v) of
        (gid, d, cutoff) \<Rightarrow>
          (let depth = (if what = PyTrace_CALL then d + 1 else d);
               d = (if what = PyTrace_CALL then d + 1 else d - 1);
               (log, cutoff) = (if enabled then decision level tid what fr gid depth cutoff else ([], cutoff))
           in (log, if what = PyTrace_RETURN \<and> f_back fr = None then None else Some (gid, d, cutoff))))"

lemma decide_ok:
  assumes run: "run_ok env f K c" and inv: "gs_inv env f K c g" and code: "f_code fr \<in> K"
  obtains (fatal) "decide env f tid what fr depth g = Some Fatal"
    | (decided) g' code' where "code' \<in> K" "int_key code' = int_key (f_code fr)" "gs_inv env f K c g'"
        "gs_gid g' = gs_gid g" "gs_depth g' = gs_depth g"
        "decide env f tid what fr depth g =
           Some (Done (fst (decision (filter_level f code') tid what fr (gs_gid g) depth (no_trace_from_depth g)), g'))"
        "no_trace_from_depth g' = snd (decision (filter_level f code') tid what fr (gs_gid g) depth (no_trace_from_depth g))"
proof (cases "depth \<le> no_trace_from_depth g")
  case False
  then show ?thesis using decided [of "f_code fr" g] inv code by (simp add: decide_def decision_def)
next
  case True
  let ?l = "trace_level_lru g"
  from inv obtain cs where cs: "lru_rel (se_config env) c ?l cs" "agrees f K cs" by (auto simp: gs_inv_def)
  have "memory_limited (se_config env)" "0 < c" "c < 2 ^ 32" "\<forall>code \<in> K. filter_level f code \<noteq> - 1"
    using run by (simp_all add: run_ok_def env_ok_def)
  from cached_level_some [OF this(1-3) cs code this(4)]
  consider "cached_level (se_config env) f (f_code fr) ?l = Some Fatal"
    | code' l' cs' where "code' \<in> K" "int_key code' = int_key (f_code fr)"
        "cached_level (se_config env) f (f_code fr) ?l = Some (Done (filter_level f code', l'))"
        "lru_rel (se_config env) c l' cs'" "agrees f K cs'" by blast
  then show ?thesis
  proof cases
    case 1
    then show ?thesis using fatal True by (simp add: decide_def Let_def)
  next
    case (2 code' l' cs')
    have inv': "gs_inv env f K c (g\<lparr>no_trace_from_depth := n, trace_level_lru := l'\<rparr>)"
      "gs_inv env f K c (g\<lparr>trace_level_lru := l', no_trace_from_depth := n\<rparr>)" for n
      using 2(4,5) by (auto simp: gs_inv_def)
    show ?thesis
      by (rule decided [OF 2(1,2), of "g\<lparr>trace_level_lru := l', no_trace_from_depth :=
          (if filter_level f code' = NO_TRACE_NESTED then depth else NO_TRACE_FROM_DEPTH_DISABLED)\<rparr>"])
        (use True 2(3) inv' in \<open>auto simp: decide_def decision_def entry_def Let_def\<close>)
  qed
qed

lemma decide_enabled_ok:
  assumes "run_ok env f K c" "gs_inv env f K c g" "f_code fr \<in> K"
  obtains (fatal) "(if en then decide env f tid what fr depth g else Some (Done ([], g))) = Some Fatal"
    | (decided) g' code' log where "code' \<in> K" "int_key code' = int_key (f_code fr)" "gs_inv env f K c g'"
        "gs_gid g' = gs_gid g" "gs_depth g' = gs_depth g"
        "(if en then decide env f tid what fr depth g else Some (Done ([], g))) = Some (Done (log, g'))"
        "(if en then decision (filter_level f code') tid what fr (gs_gid g) depth (no_trace_from_depth g)
          else ([], no_trace_from_depth g)) = (log, no_trace_from_depth g')"
proof (cases en)
  case False
  then show ?thesis using decided [of "f_code fr" g "[]"] assms by simp
next
  case True
  show ?thesis
  proof (rule decide_ok [OF assms, of tid what depth])
    assume "decide env f tid what fr depth g = Some Fatal"
    then show ?thesis using True by (intro fatal) simp
  next
    fix g' code'
    let ?D = "decision (filter_level f code') tid what fr (gs_gid g) depth (no_trace_from_depth g)"
    assume "code' \<in> K" "int_key code' = int_key (f_code fr)" "gs_inv env f K c g'" "gs_gid g' = gs_gid g"
      "gs_depth g' = gs_depth g" "decide env f tid what fr depth g = Some (Done (fst ?D, g'))"
      "no_trace_from_depth g' = snd ?D"
    then show ?thesis using True by (intro decided [of code' g' "fst ?D"]) simp_all
  qed
qed

lemma map_of_filter_other: "map_of (filter (\<lambda>e. fst e \<noteq> k) es) = (map_of es)(k := None)"
  by (induction es) (simp_all add: fun_eq_iff)

lemma map_of_remove1:
  "distinct (map fst es) \<Longrightarrow> (k, a) \<in> set es \<Longrightarrow> map_of (remove1 (k, a) es) = (map_of es)(k := None)"
  by (simp only: remove1_filter_fst map_of_filter_other)

lemma views_of_delete:
  assumes "ts_ok env P s es" "(k, a) \<in> set es"
  shows "views_of (s\<lparr>gid_map := t, gstorages := (gstorages s)(a := None)\<rparr>) (remove1 (k, a) es) = (views_of s es)(k := None)"
proof
  fix k'
  have "b \<noteq> a" if "k' \<noteq> k" "map_of es k' = Some b" for b
    using that ts_ok_address_inj [OF assms(1)] assms(2) map_of_SomeD by metis
  then show "views_of (s\<lparr>gid_map := t, gstorages := (gstorages s)(a := None)\<rparr>) (remove1 (k, a) es) k' =
      ((views_of s es)(k := None)) k'"
    using map_of_remove1 [OF ts_okD(2) [OF assms(1)] assms(2)]
    by (auto simp: views_of_def split: option.split)
qed

text \<open>After the outermost frame the storage is deleted.\<close>

lemma leave_ok:
  assumes ok: "ts_ok env (gs_inv env f K c) s es" and a: "(int_key used, a) \<in> set es"
    and fields: "lru_size s = c" "last_gstorage s = Some a" "last_gid s = used" "gone \<Longrightarrow> last_frame s = 0"
  obtains s' es' where "(if gone then del_gstorage a s else Some s) = Some s'" "ts_inv env f K c s' es'"
    "fst ` set es' \<subseteq> fst ` set es"
    "views_of s' es' = (if gone then (views_of s es)(int_key used := None) else views_of s es)"
    "last_frame s' = last_frame s" "last_gid s' = used" "ts_enabled s' = ts_enabled s" "ts_id s' = ts_id s"
proof (cases gone)
  case True
  from del_gstorage_ok [OF ok a gs_inv_delete [of env f K c]] obtain t where t: "del_gstorage a s =
      Some (s\<lparr>gid_map := t, gstorages := (gstorages s)(a := None)\<rparr>)"
    "ts_ok env (gs_inv env f K c) (s\<lparr>gid_map := t, gstorages := (gstorages s)(a := None)\<rparr>) (remove1 (int_key used, a) es)"
    by blast
  show thesis
    by (rule that [of "s\<lparr>gid_map := t, gstorages := (gstorages s)(a := None)\<rparr>" "remove1 (int_key used, a) es"])
      (use True t fields views_of_delete [OF ok a, of t] image_mono [OF set_remove1_subset, of fst] in \<open>simp_all add: ts_inv_def\<close>)
next
  case False
  with ok a fields show thesis by (intro that [of s es]) (simp_all add: ts_inv_def)
qed

lemma profile_ok:
  assumes run: "run_ok env f K c" and inv: "ts_inv env f K c s es" and code: "f_code fr \<in> K" and what: "what \<noteq> PyTrace_OTHER"
    and keys: "fst ` set es \<subseteq> KG" "int_key gid \<in> KG" "finite KG" "card KG < 2 ^ 32"
    and cached: "cached = (if what = PyTrace_CALL then frame_ptr (f_back fr) else f_addr fr)"
    and used: "used = (if last_frame s \<noteq> 0 \<and> last_frame s = cached then last_gid s else gid)"
  obtains (fatal) "greenlet_trace_func env f fr what gid s = Some Fatal"
    | (traced) s' es' code' log v where "code' \<in> K" "int_key code' = int_key (f_code fr)"
        "(log, v) = greenlet_step (ts_enabled s > 0) (filter_level f code') (ts_id s) what fr gid (views_of s es (int_key used))"
        "greenlet_trace_func env f fr what gid s = Some (Done (log, s'))"
        "ts_inv env f K c s' es'" "fst ` set es' \<subseteq> KG" "views_of s' es' = (views_of s es)(int_key used := v)"
        "last_frame s' = (if what = PyTrace_CALL then f_addr fr else frame_ptr (f_back fr))" "last_gid s' = used"
        "ts_enabled s' = ts_enabled s" "ts_id s' = ts_id s"
proof -
  let ?k = "int_key used" and ?P = "gs_inv env f K c"
    and ?new = "if what = PyTrace_CALL then f_addr fr else frame_ptr (f_back fr)"
  have env: "env_ok env" using run by (simp add: run_ok_def)
  have find: "(if what = PyTrace_CALL then get_gstore_on_call env fr gid s else get_gstore_on_return env fr gid s) =
      get_gstore env cached ?new fr gid s"
    by (simp add: get_gstore_on_call_def get_gstore_on_return_def cached)
  show thesis
  proof (rule get_gstore_ok [OF env inv keys used, of ?new fr])
    assume "get_gstore env cached ?new fr gid s = Some Fatal"
    then show thesis using what find by (intro fatal) (simp add: greenlet_trace_func_def)
  next
    fix a s1 es1 g
    assume call: "get_gstore env cached ?new fr gid s = Some (Done (a, s1))"
      and s1: "ts_ok env ?P s1 es1" "lru_size s1 = c" "fst ` set es1 \<subseteq> KG" "(?k, a) \<in> set es1"
        "last_frame s1 = ?new" "last_gid s1 = used" "last_gstorage s1 = Some a"
        "ts_enabled s1 = ts_enabled s" "ts_id s1 = ts_id s" "gstorages s1 a = Some g"
      and vw: "view g = (case views_of s es ?k of
            None \<Rightarrow> (gid, calc_new_greenlet_depth fr, NO_TRACE_FROM_DEPTH_DISABLED) | Some v \<Rightarrow> v)"
      and vs: "\<And>x. (views_of s1 es1)(?k := x) = (views_of s es)(?k := x)"
    let ?depth = "if what = PyTrace_CALL then gs_depth g + 1 else gs_depth g"
      and ?d = "if what = PyTrace_CALL then gs_depth g + 1 else gs_depth g - 1"
    let ?g = "g\<lparr>gs_depth := ?d\<rparr>" and ?en = "ts_enabled s1 > 0"
    from ts_okD(5) [OF s1(1,4)] s1(10) have g: "int_key (gs_gid g) = ?k" "?P g" by auto
    from g(2) have "?P ?g" by (simp add: gs_inv_def)
    then show thesis
    proof (rule decide_enabled_ok [OF run _ code, of _ ?en "ts_id s1" what ?depth])
      assume "(if ?en then decide env f (ts_id s1) what fr ?depth ?g else Some (Done ([], ?g))) = Some Fatal"
      then show thesis using what call s1(10)
        by (intro fatal) (simp only: greenlet_trace_func_def find and_then_simps if_False Let_def bind.bind_lunit prod.case)
    next
      fix g' code' log
      assume code': "code' \<in> K" "int_key code' = int_key (f_code fr)" and g': "?P g'" "gs_gid g' = gs_gid ?g" "gs_depth g' = gs_depth ?g"
        and dec: "(if ?en then decide env f (ts_id s1) what fr ?depth ?g else Some (Done ([], ?g))) = Some (Done (log, g'))"
        and spec: "(if ?en then decision (filter_level f code') (ts_id s1) what fr (gs_gid ?g) ?depth (no_trace_from_depth ?g)
          else ([], no_trace_from_depth ?g)) = (log, no_trace_from_depth g')"
      let ?s2 = "s1\<lparr>gstorages := (gstorages s1)(a \<mapsto> g')\<rparr>" and ?gone = "what = PyTrace_RETURN \<and> f_back fr = None"
      have k: "int_key (gs_gid g') = ?k" using g' g by simp
      have s2: "ts_ok env ?P ?s2 es1" using s1(1,4) g'(1) k by (rule update_gstorage_ok)
      have v2: "views_of ?s2 es1 = (views_of s es)(?k \<mapsto> view g')" using views_of_update [OF s1(1,4)] vs by simp
      have eq: "greenlet_trace_func env f fr what gid s =
          do { s \<leftarrow> (if ?gone then del_gstorage a ?s2 else Some ?s2); Some (Done (log, s)) }"
        using what call s1(10) dec
        by (simp only: greenlet_trace_func_def find and_then_simps if_False Let_def bind.bind_lunit prod.case)
      have step: "(log, if ?gone then None else Some (view g')) =
          greenlet_step (ts_enabled s > 0) (filter_level f code') (ts_id s) what fr gid (views_of s es ?k)"
      proof -
        have same: "gs_gid ?g = gs_gid g" "no_trace_from_depth ?g = no_trace_from_depth g" by simp_all
        have "(if 0 < ts_enabled s then decision (filter_level f code') (ts_id s) what fr (gs_gid g) ?depth (no_trace_from_depth g)
            else ([], no_trace_from_depth g)) = (log, no_trace_from_depth g')"
          using spec unfolding s1(8,9) same .
        moreover have "gs_gid g' = gs_gid g" "gs_depth g' = ?d" using g'(2,3) by simp_all
        ultimately show ?thesis by (simp only: greenlet_step_def vw [symmetric] view_def prod.case Let_def)
      qed
      have fields: "lru_size ?s2 = c" "last_gstorage ?s2 = Some a" "last_gid ?s2 = used" "?gone \<Longrightarrow> last_frame ?s2 = 0"
        using s1(2,5-7) by (simp_all add: frame_ptr_def)
      obtain s3 es3 where s3: "(if ?gone then del_gstorage a ?s2 else Some ?s2) = Some s3" "ts_inv env f K c s3 es3"
        "fst ` set es3 \<subseteq> fst ` set es1"
        "views_of s3 es3 = (if ?gone then (views_of ?s2 es1)(?k := None) else views_of ?s2 es1)"
        "last_frame s3 = last_frame ?s2" "last_gid s3 = used" "ts_enabled s3 = ts_enabled ?s2" "ts_id s3 = ts_id ?s2"
        using s2 s1(4) fields by (rule leave_ok)
      show thesis
      proof (rule traced [OF code' step])
        show "greenlet_trace_func env f fr what gid s = Some (Done (log, s3))" unfolding eq s3(1) by simp
        show "views_of s3 es3 = (views_of s es)(?k := if ?gone then None else Some (view g'))" unfolding s3(4) v2 by simp
        show "fst ` set es3 \<subseteq> KG" using s3(3) s1(3) by (rule order_trans)
      qed (use s1 s3 in simp_all)
    qed
  qed
qed

section \<open>Runs\<close>

fun event_codes :: "event \<Rightarrow> u64 list" where
  "event_codes (Profile what fr gid) = [f_code fr]"
| "event_codes e = []"

fun event_gids :: "event \<Rightarrow> u64 list" where
  "event_gids (Profile what fr gid) = [gid]"
| "event_gids e = []"

lemma trace_event_safe:
  assumes "run_ok env f K c" "ts_inv env f K c s es" "fst ` set es \<subseteq> KG" "finite KG" "card KG < 2 ^ 32"
    "set (event_codes e) \<subseteq> K" "int_key ` set (event_gids e) \<subseteq> KG"
  obtains "trace_event env f e s = Some Fatal"
    | log s' es' where "trace_event env f e s = Some (Done (log, s'))" "ts_inv env f K c s' es'" "fst ` set es' \<subseteq> KG"
proof (cases e)
  case (Profile what fr gid)
  show ?thesis
  proof (cases "what = PyTrace_OTHER")
    case True
    then show ?thesis using that(2) [of "[]" s es] assms(2,3) Profile by (simp add: greenlet_trace_func_def)
  next
    case False
    have "f_code fr \<in> K" "int_key gid \<in> KG" using assms(6,7) Profile by simp_all
    from profile_ok [OF assms(1,2) this(1) False assms(3) this(2) assms(4,5) refl refl] that Profile
    show ?thesis by (metis trace_event.simps(1))
  qed
qed (use assms(3) ts_inv_enabled [OF assms(2)] that(2) in auto)

lemma trace_events_safe:
  assumes "run_ok env f K c" "finite KG" "card KG < 2 ^ 32"
  shows "ts_inv env f K c s es \<Longrightarrow> fst ` set es \<subseteq> KG \<Longrightarrow> \<forall>e \<in> set evs. set (event_codes e) \<subseteq> K \<and> int_key ` set (event_gids e) \<subseteq> KG \<Longrightarrow>
    trace_events env f evs s = Some Fatal \<or>
    (\<exists>log s' es'. trace_events env f evs s = Some (Done (log, s')) \<and> ts_inv env f K c s' es')"
proof (induction evs arbitrary: s es)
  case (Cons e evs)
  have e: "set (event_codes e) \<subseteq> K" "int_key ` set (event_gids e) \<subseteq> KG" using Cons.prems(3) by simp_all
  show ?case
  proof (rule trace_event_safe [OF assms(1) Cons.prems(1,2) assms(2,3) e])
    fix log s1 es1
    assume s1: "trace_event env f e s = Some (Done (log, s1))" "ts_inv env f K c s1 es1" "fst ` set es1 \<subseteq> KG"
    have "\<forall>e \<in> set evs. set (event_codes e) \<subseteq> K \<and> int_key ` set (event_gids e) \<subseteq> KG" using Cons.prems(3) by simp
    from Cons.IH [OF s1(2,3) this] s1(1) show ?thesis by auto
  qed simp
qed auto

section \<open>Properties\<close>

lemma memory_safe:
  assumes "env_ok env" "0 < c" "c < 2 ^ 32"
    and "\<forall>code \<in> set (concat (map event_codes evs)). filter_level f code \<noteq> - 1"
    and "card (int_key ` set (concat (map event_gids evs))) < 2 ^ 32"
  shows "trace_events env f evs (tstorage_new tid c) = Some Fatal \<or>
    (\<exists>log s' t. trace_events env f evs (tstorage_new tid c) = Some (Done (log, s')) \<and>
       tstorage_delete s' = Some t \<and> tbl t = None)"
proof -
  have "run_ok env f (set (concat (map event_codes evs))) c" using assms(1-4) by (simp add: run_ok_def)
  from trace_events_safe [OF this _ assms(5) ts_inv_new [of env f _ c tid], of evs]
  consider "trace_events env f evs (tstorage_new tid c) = Some Fatal"
    | log s' es where "trace_events env f evs (tstorage_new tid c) = Some (Done (log, s'))"
        "ts_ok env (gs_inv env f (set (concat (map event_codes evs))) c) s' es"
    unfolding ts_inv_def by (simp add: subset_iff image_subset_iff) blast
  then show ?thesis
  proof cases
    case (2 log s' es)
    from tstorage_delete_ok [OF 2(2) gs_inv_delete [of env f "set (concat (map event_codes evs))" c]] 2(1) show ?thesis by blast
  qed simp
qed

text \<open>C28: the tracer never touches a storage that was deleted: for every sequence of profile events,
  with any frames, any greenlet ids (colliding ones included) and a profile installed at any
  moment, interleaved with suspending and resuming, each step is defined (the cached pointer to the
  last storage is only followed while the storage is in the table), and at the end of the thread
  the destructor frees every storage that is left.\<close>

theorem trace_memory_safe:
  assumes "env_ok env" "0 < c" "c < 2 ^ 32"
    and "\<forall>code \<in> set (concat (map event_codes evs)). filter_level f code \<noteq> - 1"
    and "card (int_key ` set (concat (map event_gids evs))) < 2 ^ 32"
  shows "trace_events env f evs (tstorage_new tid c) = Some Fatal \<or>
    (\<exists>log s' t. trace_events env f evs (tstorage_new tid c) = Some (Done (log, s')) \<and>
       tstorage_delete s' = Some t \<and> tbl t = None)"
  using assms by (rule memory_safe)

lemma card_keys: "card (int_key ` set xs) \<le> length xs"
  using card_image_le [of "set xs" int_key] card_length [of xs] by simp

definition sample_events :: "event list" where
  "sample_events =
     [Profile PyTrace_RETURN (Frame 300 20 (Some (Frame 100 10 None))) 7,
      Profile PyTrace_CALL (Frame 400 10 (Some (Frame 100 10 None))) 7, Suspend,
      Profile PyTrace_CALL (Frame 500 20 None) 0x100000007, Resume,
      Profile PyTrace_RETURN (Frame 500 20 None) 0x100000007,
      Profile PyTrace_CALL (Frame 600 30 (Some (Frame 400 10 (Some (Frame 100 10 None))))) 7]"

lemma not_fatal: "(case x of Some Fatal \<Rightarrow> False | _ \<Rightarrow> True) \<Longrightarrow> x \<noteq> Some Fatal"
  by auto

lemma sample_events_not_fatal:
  "case trace_events sample_env sample_filter sample_events (tstorage_new 5 2) of Some Fatal \<Rightarrow> False | _ \<Rightarrow> True"
  by code_simp

theorem trace_memory_safe_witness:
  "\<exists>log s' t. trace_events sample_env sample_filter sample_events (tstorage_new 5 2) = Some (Done (log, s')) \<and>
     tstorage_delete s' = Some t \<and> tbl t = None"
proof -
  have "\<forall>code \<in> set (concat (map event_codes sample_events)). filter_level sample_filter code \<noteq> - 1"
    by (simp add: sample_events_def filter_level_def sample_filter_def)
  moreover have "length (concat (map event_gids sample_events)) < 2 ^ 32" by (simp add: sample_events_def)
  then have "card (int_key ` set (concat (map event_gids sample_events))) < 2 ^ 32" by (rule le_less_trans [OF card_keys])
  ultimately have "trace_events sample_env sample_filter sample_events (tstorage_new 5 2) = Some Fatal \<or>
      (\<exists>log s' t. trace_events sample_env sample_filter sample_events (tstorage_new 5 2) = Some (Done (log, s')) \<and>
         tstorage_delete s' = Some t \<and> tbl t = None)"
    by (intro trace_memory_safe [OF sample_env_ok]) simp_all
  then show ?thesis using not_fatal [OF sample_events_not_fatal] by (simp only: simp_thms)
qed

end
