(* ===== verification/Call_Trees.thy ===== *)
theory Call_Trees
  imports Greenlet_Trace
begin

text \<open>
  What the tracer promises to the program it traces.  A history is what the interpreter does in one
  thread: greenlets enter and leave functions, each on its own stack of frames, interleaved as they
  switch.  The log of a history is given without the frame cache, the tables and the level caches,
  and then from the call tree of a greenlet alone.
\<close>

section \<open>Histories\<close>

text \<open>The top frame of each greenlet that runs, by greenlet id.\<close>

type_synonym stacks = "u64 \<Rightarrow> frame option"

text \<open>\<open>Enter\<close> has the greenlet, the address of the new frame and its code object.\<close>

datatype action = Enter u64 u64 u64 | Leave u64 | Pause | Continue

fun frame_addrs :: "frame \<Rightarrow> u64 list" where
  "frame_addrs (Frame a c None) = [a]"
| "frame_addrs (Frame a c (Some b)) = a # frame_addrs b"

definition stack_addrs :: "frame option \<Rightarrow> u64 list" where
  "stack_addrs p = (case p of None \<Rightarrow> [] | Some fr \<Rightarrow> frame_addrs fr)"

fun history :: "action list \<Rightarrow> stacks \<Rightarrow> event list" where
  "history [] st = []"
| "history (Enter g a c # as) st =
     Profile PyTrace_CALL (Frame a c (st g)) g # history as (st(g \<mapsto> Frame a c (st g)))"
| "history (Leave g # as) st =
     (case st g of None \<Rightarrow> history as st
      | Some fr \<Rightarrow> Profile PyTrace_RETURN fr g # history as (st(g := f_back fr)))"
| "history (Pause # as) st = Suspend # history as st"
| "history (Continue # as) st = Resume # history as st"

text \<open>The interpreter puts a new frame at an address no running frame has, and only a running frame
  returns.\<close>

fun history_ok :: "action list \<Rightarrow> stacks \<Rightarrow> bool" where
  "history_ok [] st = True"
| "history_ok (Enter g a c # as) st \<longleftrightarrow>
     a \<noteq> 0 \<and> (\<forall>g'. a \<notin> set (stack_addrs (st g'))) \<and> history_ok as (st(g \<mapsto> Frame a c (st g)))"
| "history_ok (Leave g # as) st \<longleftrightarrow>
     (case st g of None \<Rightarrow> False | Some fr \<Rightarrow> history_ok as (st(g := f_back fr)))"
| "history_ok (Pause # as) st = history_ok as st"
| "history_ok (Continue # as) st = history_ok as st"

definition stacks_ok :: "stacks \<Rightarrow> bool" where
  "stacks_ok st \<longleftrightarrow> (\<forall>g. 0 \<notin> set (stack_addrs (st g))) \<and>
     (\<forall>g g'. g \<noteq> g' \<longrightarrow> set (stack_addrs (st g)) \<inter> set (stack_addrs (st g')) = {})"

lemma stack_addrs_simps [simp]:
  "stack_addrs None = []" "stack_addrs (Some (Frame a c b)) = a # stack_addrs b"
  by (cases b; simp add: stack_addrs_def)+

lemma stack_addrs_back: "set (stack_addrs (f_back fr)) \<subseteq> set (stack_addrs (Some fr))"
  by (cases fr) (auto simp: stack_addrs_def split: option.split)

lemma frame_ptr_simps [simp]: "frame_ptr None = 0" "frame_ptr (Some fr) = f_addr fr"
  by (simp_all add: frame_ptr_def)

lemma frame_ptr_stack: "p \<noteq> None \<Longrightarrow> frame_ptr p \<in> set (stack_addrs p)"
  by (cases p; cases "the p") auto

lemma stacks_ok_top:
  assumes "stacks_ok st" "frame_ptr (st g) = frame_ptr (st g')" "frame_ptr (st g) \<noteq> 0"
  shows "g = g'"
proof (rule ccontr)
  assume "g \<noteq> g'"
  moreover have "st g \<noteq> None" "st g' \<noteq> None" using assms(2,3) frame_ptr_simps(1) by metis+
  ultimately show False using assms(1,2) frame_ptr_stack unfolding stacks_ok_def by (metis disjoint_iff)
qed

lemma stacks_ok_enter:
  assumes "stacks_ok st" "a \<noteq> 0" "\<forall>g'. a \<notin> set (stack_addrs (st g'))"
  shows "stacks_ok (st(g \<mapsto> Frame a c (st g)))"
  using assms unfolding stacks_ok_def by auto

lemma stacks_ok_leave:
  assumes "stacks_ok st" "st g = Some fr"
  shows "stacks_ok (st(g := f_back fr))"
  using assms stack_addrs_back [of fr] unfolding stacks_ok_def by (auto simp: subset_iff disjoint_iff) (metis)+

section \<open>The log of a history\<close>

text \<open>Each event is a step of its greenlet, with the level the filter gives the frame's code; \<open>m\<close> has
  the greenlets seen so far.\<close>

fun spec_log :: "(u64 \<Rightarrow> int option) \<Rightarrow> u64 \<Rightarrow> int \<Rightarrow> (u64 \<Rightarrow> gview option) \<Rightarrow> event list \<Rightarrow> log_entry list" where
  "spec_log f tid en m [] = []"
| "spec_log f tid en m (Profile what fr g # es) =
     (if what = PyTrace_OTHER then spec_log f tid en m es
      else (case greenlet_step (en > 0) (filter_level f (f_code fr)) tid what fr g (m g) of
              (log, v) \<Rightarrow> log @ spec_log f tid en (m(g := v)) es))"
| "spec_log f tid en m (Suspend # es) = spec_log f tid (en - 1) m es"
| "spec_log f tid en m (Resume # es) = spec_log f tid (if en \<le> 0 then en + 1 else en) m es"

section \<open>The tracer follows the history\<close>

text \<open>The storages are those of the greenlets seen, and the cached frame is the top frame of the
  cached greenlet.\<close>

definition tracer_rel ::
  "storage_env \<Rightarrow> (u64 \<Rightarrow> int option) \<Rightarrow> u64 set \<Rightarrow> u64 set \<Rightarrow> nat \<Rightarrow> tstorage \<Rightarrow> keyed \<Rightarrow> stacks \<Rightarrow>
   (u64 \<Rightarrow> gview option) \<Rightarrow> bool" where
  "tracer_rel env f K G c s es st m \<longleftrightarrow> ts_inv env f K c s es \<and> fst ` set es \<subseteq> int_key ` G \<and>
     (\<forall>g \<in> G. views_of s es (int_key g) = m g) \<and> stacks_ok st \<and>
     (last_frame s \<noteq> 0 \<longrightarrow> last_gid s \<in> G \<and> frame_ptr (st (last_gid s)) = last_frame s)"

text \<open>The code objects and greenlets of a run: their keys differ, and there are few greenlets.\<close>

definition keys_ok :: "u64 set \<Rightarrow> u64 set \<Rightarrow> bool" where
  "keys_ok K G \<longleftrightarrow> inj_on int_key K \<and> inj_on int_key G \<and> finite G \<and> card G < 2 ^ 32"

lemma profile_follows:
  assumes run: "run_ok env f K c" and keys: "keys_ok K G" and rel: "tracer_rel env f K G c s es st m"
    and ev: "f_code fr \<in> K" "g \<in> G" "what \<noteq> PyTrace_OTHER"
    and cached: "frame_ptr (st g) = (if what = PyTrace_CALL then frame_ptr (f_back fr) else f_addr fr)"
    and st': "stacks_ok st'" "frame_ptr (st' g) = (if what = PyTrace_CALL then f_addr fr else frame_ptr (f_back fr))"
    and step: "(log, v) = greenlet_step (ts_enabled s > 0) (filter_level f (f_code fr)) (ts_id s) what fr g (m g)"
  obtains (fatal) "greenlet_trace_func env f fr what g s = Some Fatal"
    | (follows) s' es' where "greenlet_trace_func env f fr what g s = Some (Done (log, s'))"
        "tracer_rel env f K G c s' es' st' (m(g := v))" "ts_enabled s' = ts_enabled s" "ts_id s' = ts_id s"
proof -
  have inv: "ts_inv env f K c s es" and es: "fst ` set es \<subseteq> int_key ` G"
    and m: "\<forall>g \<in> G. views_of s es (int_key g) = m g"
    and last: "last_frame s \<noteq> 0 \<Longrightarrow> last_gid s \<in> G \<and> frame_ptr (st (last_gid s)) = last_frame s"
    and st: "stacks_ok st"
    using rel by (simp_all add: tracer_rel_def)
  have K: "inj_on int_key K" and G: "inj_on int_key G" "finite G" "card G < 2 ^ 32"
    using keys by (simp_all add: keys_ok_def)
  have "card (int_key ` G) < 2 ^ 32" using card_image_le [OF G(2), of int_key] G(3) by simp
  note room = imageI [OF ev(2), of int_key] finite_imageI [OF G(2)] this
  have used: "(if last_frame s \<noteq> 0 \<and> last_frame s = frame_ptr (st g) then last_gid s else g) = g"
    using last stacks_ok_top [OF st] by (metis (full_types))
  show thesis
  proof (rule profile_ok [OF run inv ev(1,3) es room cached used [symmetric]])
    fix s' es' code' log' v'
    assume a: "code' \<in> K" "int_key code' = int_key (f_code fr)"
      "(log', v') = greenlet_step (ts_enabled s > 0) (filter_level f code') (ts_id s) what fr g (views_of s es (int_key g))"
      "greenlet_trace_func env f fr what g s = Some (Done (log', s'))"
      "ts_inv env f K c s' es'" "fst ` set es' \<subseteq> int_key ` G" "views_of s' es' = (views_of s es)(int_key g := v')"
      "last_frame s' = (if what = PyTrace_CALL then f_addr fr else frame_ptr (f_back fr))" "last_gid s' = g"
      "ts_enabled s' = ts_enabled s" "ts_id s' = ts_id s"
    have "code' = f_code fr" using K a(2,1) ev(1) by (rule inj_onD)
    then have "(log', v') = (log, v)" using a(3) m ev(2) unfolding step by simp
    then have eq: "log' = log" "v' = v" by simp_all
    have "views_of s' es' (int_key h) = (m(g := v)) h" if "h \<in> G" for h
      using a(7) eq m that ev(2) inj_onD [OF G(1), of h g] by auto
    then have "tracer_rel env f K G c s' es' st' (m(g := v))"
      using a(5,6,8,9) st' ev(2) by (simp add: tracer_rel_def)
    then show thesis using follows a(4,10,11) eq by blast
  qed (rule fatal)
qed

lemma tracer_rel_enabled: "tracer_rel env f K G c (s\<lparr>ts_enabled := n\<rparr>) es st m = tracer_rel env f K G c s es st m"
  by (simp add: tracer_rel_def ts_inv_def)

lemma history_follows:
  assumes run: "run_ok env f K c" and keys: "keys_ok K G"
  shows "tracer_rel env f K G c s es st m \<Longrightarrow> history_ok as st \<Longrightarrow>
    \<forall>e \<in> set (history as st). set (event_codes e) \<subseteq> K \<and> set (event_gids e) \<subseteq> G \<Longrightarrow>
    trace_events env f (history as st) s = Some Fatal \<or>
    (\<exists>s'. trace_events env f (history as st) s = Some (Done (spec_log f (ts_id s) (ts_enabled s) m (history as st), s')))"
proof (induction as arbitrary: s es st m)
  case (Cons x as)
  have st: "stacks_ok st" using Cons.prems(1) by (simp add: tracer_rel_def)
  have profile: ?case
    if h: "history (x # as) st = Profile what fr g # history as st'" and ok: "history_ok as st'"
      and what: "what \<noteq> PyTrace_OTHER"
      and cached: "frame_ptr (st g) = (if what = PyTrace_CALL then frame_ptr (f_back fr) else f_addr fr)"
      and st': "stacks_ok st'" "frame_ptr (st' g) = (if what = PyTrace_CALL then f_addr fr else frame_ptr (f_back fr))"
    for what fr g st'
  proof -
    obtain log v where step: "(log, v) = greenlet_step (ts_enabled s > 0) (filter_level f (f_code fr)) (ts_id s) what fr g (m g)"
      by (metis surj_pair)
    have K: "f_code fr \<in> K" "g \<in> G" using Cons.prems(3) h by simp_all
    show ?case
    proof (rule profile_follows [OF run keys Cons.prems(1) K what cached st' step])
      fix s1 es1
      assume s1: "greenlet_trace_func env f fr what g s = Some (Done (log, s1))"
        "tracer_rel env f K G c s1 es1 st' (m(g := v))" "ts_enabled s1 = ts_enabled s" "ts_id s1 = ts_id s"
      have "\<forall>e \<in> set (history as st'). set (event_codes e) \<subseteq> K \<and> set (event_gids e) \<subseteq> G"
        using Cons.prems(3) h by simp
      from Cons.IH [OF s1(2) ok this] s1(1,3,4) what show ?thesis unfolding h by (auto simp: step [symmetric] fun_upd_def)
    qed (simp add: h)
  qed
  show ?case
  proof (cases x)
    case (Enter g a code)
    then show ?thesis using Cons.prems(2) stacks_ok_enter [OF st]
      by (intro profile [of PyTrace_CALL "Frame a code (st g)" g "st(g \<mapsto> Frame a code (st g))"]) simp_all
  next
    case (Leave g)
    with Cons.prems(2) obtain fr where fr: "st g = Some fr" "history_ok as (st(g := f_back fr))"
      by (auto split: option.splits)
    then show ?thesis using Leave stacks_ok_leave [OF st fr(1)]
      by (intro profile [of PyTrace_RETURN fr g "st(g := f_back fr)"]) simp_all
  next
    case Pause
    with Cons.prems have "tracer_rel env f K G c (suspend s) es st m" "history_ok as st"
      "\<forall>e \<in> set (history as st). set (event_codes e) \<subseteq> K \<and> set (event_gids e) \<subseteq> G"
      by (simp_all add: suspend_def tracer_rel_enabled)
    from Cons.IH [OF this] Pause show ?thesis by (auto simp: suspend_def)
  next
    case Continue
    with Cons.prems have "tracer_rel env f K G c (resume s) es st m" "history_ok as st"
      "\<forall>e \<in> set (history as st). set (event_codes e) \<subseteq> K \<and> set (event_gids e) \<subseteq> G"
      by (simp_all add: resume_def tracer_rel_enabled)
    from Cons.IH [OF this] Continue show ?thesis by (auto simp: resume_def split: if_splits)
  qed
qed simp

section \<open>One greenlet's part of a log\<close>

fun of_greenlet :: "u64 \<Rightarrow> event \<Rightarrow> bool" where
  "of_greenlet g (Profile what fr g') = (g' = g)"
| "of_greenlet g e = True"

lemma entry_gid [simp]: "lg_gid (entry what level tid g depth code) = g"
  by (simp add: entry_def)

lemma greenlet_step_gid:
  assumes "greenlet_step en level tid what fr g v = (log, v')" "pred_option (\<lambda>w. fst w = g) v"
  shows "\<forall>l \<in> set log. lg_gid l = g" "pred_option (\<lambda>w. fst w = g) v'"
  using assms
  by (auto simp: greenlet_step_def decision_def Let_def split: option.splits if_splits prod.splits)

text \<open>The other greenlets of the thread do not matter.\<close>

lemma spec_log_own:
  assumes "\<forall>h. pred_option (\<lambda>w. fst w = h) (m h)" "m' g = m g" "\<forall>h. pred_option (\<lambda>w. fst w = h) (m' h)"
  shows "filter (\<lambda>l. lg_gid l = g) (spec_log f tid en m es) = spec_log f tid en m' (filter (of_greenlet g) es)"
  using assms
proof (induction es arbitrary: en m m')
  case (Cons e es)
  show ?case
  proof (cases e)
    case (Profile what fr h)
    obtain log v where step: "greenlet_step (en > 0) (filter_level f (f_code fr)) tid what fr h (m h) = (log, v)"
      by (metis surj_pair)
    have gid: "\<forall>l \<in> set log. lg_gid l = h" "pred_option (\<lambda>w. fst w = h) v"
      using greenlet_step_gid [OF step] Cons.prems(1) by blast+
    show ?thesis
    proof (cases "h = g")
      case True
      then have "filter (\<lambda>l. lg_gid l = g) log = log" using gid(1) by (simp add: filter_id_conv)
      moreover have "filter (\<lambda>l. lg_gid l = g) (spec_log f tid en (m(g := v)) es) =
          spec_log f tid en (m'(g := v)) (filter (of_greenlet g) es)"
        using Cons.prems gid(2) True by (intro Cons.IH) auto
      ultimately show ?thesis using Profile True step Cons.IH [OF Cons.prems] Cons.prems(2) by simp
    next
      case False
      then have "filter (\<lambda>l. lg_gid l = g) log = []" using gid(1) by (auto simp: filter_empty_conv)
      moreover have "filter (\<lambda>l. lg_gid l = g) (spec_log f tid en (m(h := v)) es) =
          spec_log f tid en m' (filter (of_greenlet g) es)"
        using Cons.prems gid(2) False by (intro Cons.IH) auto
      ultimately show ?thesis using Profile False step Cons.IH [OF Cons.prems] by simp
    qed
  qed (use Cons.IH [OF Cons.prems] in simp_all)
qed simp

section \<open>Call trees\<close>

text \<open>A call of a code object with the calls it makes, the events of such a call on top of a given
  stack, and the part of the log that belongs to it: nothing for a nested-suppressed function and
  all it calls, and no lines of its own for a function that is not traced.\<close>

datatype call = Call u64 "call list"

inductive call_events :: "u64 \<Rightarrow> frame option \<Rightarrow> call \<Rightarrow> event list \<Rightarrow> bool" for g where
  call_events_Call: "list_all2 (call_events g (Some (Frame a c back))) ts ess \<Longrightarrow>
    call_events g back (Call c ts)
      (Profile PyTrace_CALL (Frame a c back) g # concat ess @ [Profile PyTrace_RETURN (Frame a c back) g])"

fun tree_log :: "(u64 \<Rightarrow> int option) \<Rightarrow> u64 \<Rightarrow> u64 \<Rightarrow> int \<Rightarrow> call \<Rightarrow> log_entry list" where
  "tree_log f tid g depth (Call code ts) =
     (let level = filter_level f code; inner = concat (map (tree_log f tid g (depth + 1)) ts)
      in if level = NO_TRACE_NESTED then []
         else if level = NO_TRACE then inner
         else Log_Call level tid g depth code # inner @ [Log_Return level tid g depth code])"

fun tree_height :: "call \<Rightarrow> int" where
  "tree_height (Call code ts) = 1 + foldr max (map tree_height ts) 0"

definition stack_depth :: "frame option \<Rightarrow> int" where
  "stack_depth p = int (length (stack_addrs p))"

lemma calc_depth [simp]: "calc_new_greenlet_depth (Frame a c b) = stack_depth b"
proof (induction "Frame a c b" arbitrary: a c b rule: calc_new_greenlet_depth.induct)
  case (2 a c b)
  then show ?case by (cases b) (simp add: stack_depth_def)
qed (simp add: stack_depth_def)

lemma tree_height_pos: "1 \<le> tree_height t"
proof (cases t)
  case (Call c ts)
  have "0 \<le> foldr max (map tree_height ts) 0" by (induction ts) auto
  with Call show ?thesis by simp
qed

lemma height_child: "t \<in> set ts \<Longrightarrow> tree_height t + 1 \<le> tree_height (Call code ts)"
  by (induction ts) (auto simp: max_def)

text \<open>A call below the depth where tracing is cut off leaves nothing behind.\<close>

lemma concat_events:
  "list_all2 (\<lambda>t es. \<forall>rest. run (es @ rest) = run rest) ts ess \<Longrightarrow> run (concat ess @ rest) = run rest"
  by (induction ts ess rule: list_all2_induct) simp_all

lemma call_suppressed:
  assumes "call_events g back t es" "back \<noteq> None" "cutoff \<le> d"
  shows "m g = Some (g, d, cutoff) \<Longrightarrow> spec_log f tid en m (es @ rest) = spec_log f tid en m rest"
  using assms
proof (induction arbitrary: m d rest)
  case (call_events_Call a c b ts ess)
  let ?fr = "Frame a c b"
  have down: "greenlet_step (en > 0) l tid PyTrace_CALL ?fr g (m g) = ([], Some (g, d + 1, cutoff))" for l
    using call_events_Call.prems by (simp add: greenlet_step_def decision_def Let_def)
  have up: "greenlet_step (en > 0) l tid PyTrace_RETURN ?fr g (Some (g, d + 1, cutoff)) = ([], m g)" for l
    using call_events_Call.prems by (simp add: greenlet_step_def decision_def Let_def)
  let ?m = "m(g \<mapsto> (g, d + 1, cutoff))"
  have kids: "spec_log f tid en ?m (concat ess @ rest') = spec_log f tid en ?m rest'" for rest'
    using call_events_Call.IH call_events_Call.prems
    by (intro concat_events [where ts = ts]) (auto elim!: list.rel_mono_strong)
  have "?m(g := m g) = m" by simp
  with down up kids show ?case by simp
qed

text \<open>A call where tracing is not cut off leaves its tree's log.  The greenlet is known, or its depth is
  counted from its stack at its first event.\<close>

definition at_depth :: "gview option \<Rightarrow> u64 \<Rightarrow> frame option \<Rightarrow> int \<Rightarrow> int \<Rightarrow> bool" where
  "at_depth v g p d cutoff \<longleftrightarrow> v = Some (g, d, cutoff) \<or>
     (v = None \<and> d = stack_depth p \<and> cutoff = NO_TRACE_FROM_DEPTH_DISABLED)"

definition logs_call :: "(u64 \<Rightarrow> int option) \<Rightarrow> u64 \<Rightarrow> u64 \<Rightarrow> frame option \<Rightarrow> call \<Rightarrow> event list \<Rightarrow> bool" where
  "logs_call f tid g p t es \<longleftrightarrow> (\<forall>m d cutoff rest. at_depth (m g) g p d cutoff \<longrightarrow> d < cutoff \<longrightarrow>
     d + tree_height t < NO_TRACE_FROM_DEPTH_DISABLED \<longrightarrow>
     (\<exists>v. spec_log f tid 1 m (es @ rest) = tree_log f tid g (d + 1) t @ spec_log f tid 1 (m(g := v)) rest \<and>
        (if p = None then v = None else \<exists>cutoff'. v = Some (g, d, cutoff') \<and> d < cutoff')))"

lemma calls_log:
  assumes "list_all2 (logs_call f tid g (Some p)) ts ess"
    "\<forall>t \<in> set ts. d + tree_height t < NO_TRACE_FROM_DEPTH_DISABLED" "m g = Some (g, d, cutoff)" "d < cutoff"
  shows "\<exists>cutoff'. d < cutoff' \<and> spec_log f tid 1 m (concat ess @ rest) =
    concat (map (tree_log f tid g (d + 1)) ts) @ spec_log f tid 1 (m(g \<mapsto> (g, d, cutoff'))) rest"
  using assms
proof (induction ts ess arbitrary: m cutoff rule: list_all2_induct)
  case Nil
  then have "m(g \<mapsto> (g, d, cutoff)) = m" by auto
  with Nil.prems(3) show ?case
    by (intro exI [of _ cutoff]) (simp only: concat.simps list.map append_Nil simp_thms)
next
  case (Cons t ts es ess)
  have "at_depth (m g) g (Some p) d cutoff" "d + tree_height t < NO_TRACE_FROM_DEPTH_DISABLED"
    using Cons.prems by (simp_all add: at_depth_def)
  with Cons.hyps(1) Cons.prems(3) obtain c1 where c1: "d < c1"
    "spec_log f tid 1 m (es @ concat ess @ rest) =
      tree_log f tid g (d + 1) t @ spec_log f tid 1 (m(g \<mapsto> (g, d, c1))) (concat ess @ rest)"
    unfolding logs_call_def by fastforce
  have "\<forall>t \<in> set ts. d + tree_height t < NO_TRACE_FROM_DEPTH_DISABLED" using Cons.prems(1) by simp
  from Cons.IH [OF this _ c1(1), of "m(g \<mapsto> (g, d, c1))"] obtain c2 where "d < c2"
    "spec_log f tid 1 (m(g \<mapsto> (g, d, c1))) (concat ess @ rest) =
      concat (map (tree_log f tid g (d + 1)) ts) @ spec_log f tid 1 (m(g \<mapsto> (g, d, c2))) rest"
    by (auto simp: fun_upd_def cong: if_cong)
  with c1(2) show ?case by (intro exI [of _ c2]) (simp only: concat.simps list.map append_assoc simp_thms)
qed

lemma call_logged: "call_events g p t es \<Longrightarrow> logs_call f tid g p t es"
proof (induction rule: call_events.induct)
  case (call_events_Call a c p ts ess)
  let ?fr = "Frame a c p" and ?level = "filter_level f c" and ?off = "NO_TRACE_FROM_DEPTH_DISABLED"
  show ?case
    unfolding logs_call_def
  proof (intro allI impI)
    fix m d cutoff rest
    assume at: "at_depth (m g) g p d cutoff" and cut: "d < cutoff" and room: "d + tree_height (Call c ts) < ?off"
    let ?c1 = "if ?level = NO_TRACE_NESTED then d + 1 else ?off"
    let ?mark = "\<lambda>l. if ?level = NO_TRACE_NESTED \<or> ?level = NO_TRACE then [] else [l ?level tid g (d + 1) c]"
    let ?m = "m(g \<mapsto> (g, d + 1, ?c1))" and ?v = "if p = None then None else Some (g, d, ?c1)"
    let ?inner = "if ?level = NO_TRACE_NESTED then [] else concat (map (tree_log f tid g (d + 1 + 1)) ts)"
    have down: "greenlet_step True ?level tid PyTrace_CALL ?fr g (m g) = (?mark Log_Call, Some (g, d + 1, ?c1))"
      using at cut by (auto simp: at_depth_def greenlet_step_def decision_def entry_def Let_def)
    have up: "greenlet_step True ?level tid PyTrace_RETURN ?fr g (Some (g, d + 1, c2)) = (?mark Log_Return, ?v)" if "d + 1 \<le> c2" for c2
      using that by (auto simp: greenlet_step_def decision_def entry_def Let_def)
    have kids: "\<exists>c2. d + 1 \<le> c2 \<and> spec_log f tid 1 ?m (concat ess @ rest') =
        ?inner @ spec_log f tid 1 (?m(g \<mapsto> (g, d + 1, c2))) rest'" for rest'
    proof (cases "?level = NO_TRACE_NESTED")
      case True
      have "list_all2 (\<lambda>t es. \<forall>rest. spec_log f tid 1 ?m (es @ rest) = spec_log f tid 1 ?m rest) ts ess"
        using call_events_Call.IH call_suppressed [of g "Some ?fr" _ _ "d + 1" "d + 1" ?m] True
        by (auto elim!: list.rel_mono_strong)
      then have "spec_log f tid 1 ?m (concat ess @ rest') = spec_log f tid 1 ?m rest'" by (rule concat_events)
      with True show ?thesis by (intro exI [of _ "d + 1"]) simp
    next
      case False
      have "list_all2 (logs_call f tid g (Some ?fr)) ts ess"
        using call_events_Call.IH by (auto elim!: list.rel_mono_strong)
      moreover have "\<forall>t \<in> set ts. d + 1 + tree_height t < ?off" using height_child [of _ ts c] room by force
      moreover have "tree_height (Call c ts) \<ge> 1" by (rule tree_height_pos)
      ultimately have "\<exists>c2. d + 1 < c2 \<and> spec_log f tid 1 ?m (concat ess @ rest') =
          concat (map (tree_log f tid g (d + 1 + 1)) ts) @ spec_log f tid 1 (?m(g \<mapsto> (g, d + 1, c2))) rest'"
        using False room by (intro calls_log) auto
      with False show ?thesis by (auto intro: less_imp_le)
    qed
    let ?ret = "Profile PyTrace_RETURN ?fr g"
    obtain c2 where c2: "d + 1 \<le> c2" "spec_log f tid 1 ?m (concat ess @ ?ret # rest) =
        ?inner @ spec_log f tid 1 (?m(g \<mapsto> (g, d + 1, c2))) (?ret # rest)" using kids by blast
    have "spec_log f tid 1 m ((Profile PyTrace_CALL ?fr g # concat ess @ [?ret]) @ rest) =
        ?mark Log_Call @ ?inner @ ?mark Log_Return @ spec_log f tid 1 (m(g := ?v)) rest"
      using down up [OF c2(1)] c2(2) by simp
    also have "\<dots> = tree_log f tid g (d + 1) (Call c ts) @ spec_log f tid 1 (m(g := ?v)) rest"
      by (simp add: Let_def)
    finally show "\<exists>v. spec_log f tid 1 m ((Profile PyTrace_CALL ?fr g # concat ess @ [?ret]) @ rest) =
        tree_log f tid g (d + 1) (Call c ts) @ spec_log f tid 1 (m(g := v)) rest \<and>
        (if p = None then v = None else \<exists>cutoff'. v = Some (g, d, cutoff') \<and> d < cutoff')"
      using room tree_height_pos [of "Call c ts"] by (intro exI [of _ ?v]) auto
  qed
qed

lemma stack_depth_frame [simp]: "stack_depth (Some (Frame a c p)) = stack_depth p + 1"
  by (simp add: stack_depth_def)

section \<open>The depth of a line\<close>

text \<open>The lines of a greenlet's events when each has the depth of its frame in the stack.\<close>

fun depth_log :: "(u64 \<Rightarrow> int option) \<Rightarrow> u64 \<Rightarrow> int \<Rightarrow> int \<Rightarrow> event list \<Rightarrow> log_entry list" where
  "depth_log f tid en cutoff [] = []"
| "depth_log f tid en cutoff (Profile what fr g # es) =
     (case (if en > 0 then decision (filter_level f (f_code fr)) tid what fr g (stack_depth (Some fr)) cutoff
            else ([], cutoff)) of
        (log, cutoff') \<Rightarrow> log @ depth_log f tid en cutoff' es)"
| "depth_log f tid en cutoff (Suspend # es) = depth_log f tid (en - 1) cutoff es"
| "depth_log f tid en cutoff (Resume # es) = depth_log f tid (if en \<le> 0 then en + 1 else en) cutoff es"

text \<open>One level higher.\<close>

fun lower :: "log_entry \<Rightarrow> log_entry" where
  "lower (Log_Call level tid g depth code) = Log_Call level tid g (depth - 1) code"
| "lower (Log_Return level tid g depth code) = Log_Return level tid g (depth - 1) code"

fun first_profile :: "event list \<Rightarrow> trace_what option" where
  "first_profile [] = None"
| "first_profile (Profile what fr g # es) = Some what"
| "first_profile (_ # es) = first_profile es"

definition below :: "int \<Rightarrow> event list \<Rightarrow> bool" where
  "below n es \<longleftrightarrow> (\<forall>what fr g. Profile what fr g \<in> set es \<longrightarrow> stack_depth (Some fr) < n)"

definition deeper :: "int \<Rightarrow> event list \<Rightarrow> bool" where
  "deeper n es \<longleftrightarrow> (\<forall>what fr g. Profile what fr g \<in> set es \<longrightarrow> n < stack_depth (Some fr))"

lemma deeper_back: "deeper n es \<Longrightarrow> Profile what fr g \<in> set es \<Longrightarrow> n \<le> stack_depth (f_back fr)"
  by (cases fr) (force simp: deeper_def)

lemma depth_log_cut: "deeper cutoff es \<Longrightarrow> depth_log f tid en cutoff es = []"
proof (induction f tid en cutoff es rule: depth_log.induct)
  case (2 f tid en cutoff what fr g es)
  have d: "cutoff < stack_depth (Some fr)" using "2.prems" by (auto simp: deeper_def)
  have IH: "depth_log f tid en cutoff es = []"
    by (rule "2.IH" [where x = "[]" and y = cutoff])
      (use d "2.prems" in \<open>auto simp: decision_def deeper_def\<close>)
  with d show ?case by (simp add: decision_def)
qed (auto simp: deeper_def)

text \<open>The same decisions when every depth and every cut-off is one less.\<close>

definition lowered :: "int \<Rightarrow> int" where
  "lowered cutoff = (if cutoff = NO_TRACE_FROM_DEPTH_DISABLED then cutoff else cutoff - 1)"

lemma decision_lowered:
  assumes "d < NO_TRACE_FROM_DEPTH_DISABLED"
    and "decision level tid what fr g d cutoff = (log, cutoff')"
  shows "decision level tid what fr g (d - 1) (lowered cutoff) = (map lower log, lowered cutoff')"
  using assms by (auto simp: decision_def lowered_def entry_def split: if_splits)

text \<open>A known greenlet that is at the depth of its stack less \<open>o\<close>, or a new one.\<close>

definition lowering :: "int \<Rightarrow> (log_entry \<Rightarrow> log_entry) \<Rightarrow> (int \<Rightarrow> int) \<Rightarrow> bool" where
  "lowering n low shift \<longleftrightarrow> n = 0 \<and> low = id \<and> shift = id \<or> n = 1 \<and> low = lower \<and> shift = lowered"

lemma decision_lowering:
  "lowering n low shift \<Longrightarrow> d < NO_TRACE_FROM_DEPTH_DISABLED \<Longrightarrow>
   decision level tid what fr g d cutoff = (log, cutoff') \<Longrightarrow>
   decision level tid what fr g (d - n) (shift cutoff) = (map low log, shift cutoff')"
  by (auto simp: lowering_def decision_lowered)

definition depth_view :: "u64 \<Rightarrow> int \<Rightarrow> (int \<Rightarrow> int) \<Rightarrow> frame option \<Rightarrow> int \<Rightarrow> gview" where
  "depth_view g n shift p cutoff = (g, stack_depth p - n, shift cutoff)"

lemma step_lowering:
  assumes "lowering n low shift" "what = PyTrace_CALL \<and> p = f_back fr \<and> p' = Some fr \<or>
      what = PyTrace_RETURN \<and> p = Some fr \<and> p' = f_back fr"
    and "stack_depth (Some fr) < NO_TRACE_FROM_DEPTH_DISABLED"
    and "(if en > 0 then decision (filter_level f (f_code fr)) tid what fr g (stack_depth (Some fr)) cutoff
          else ([], cutoff)) = (log, cutoff')"
    and "v = Some (depth_view g n shift p cutoff) \<or>
      v = None \<and> cutoff = NO_TRACE_FROM_DEPTH_DISABLED \<and> (what = PyTrace_RETURN \<longleftrightarrow> n = 1)"
  shows "greenlet_step (en > 0) (filter_level f (f_code fr)) tid what fr g v =
    (map low log, if what = PyTrace_RETURN \<and> f_back fr = None then None else Some (depth_view g n shift p' cutoff'))"
proof -
  obtain a c b where fr: "fr = Frame a c b" by (cases fr)
  have X: "shift NO_TRACE_FROM_DEPTH_DISABLED = NO_TRACE_FROM_DEPTH_DISABLED" "n = 0 \<or> n = 1"
    using assms(1) by (auto simp: lowering_def lowered_def)
  have depth: "(case (case v of None \<Rightarrow> (g, calc_new_greenlet_depth fr, NO_TRACE_FROM_DEPTH_DISABLED) | Some v \<Rightarrow> v) of
      (gid, d, cutoff) \<Rightarrow> (gid, if what = PyTrace_CALL then d + 1 else d, cutoff)) =
      (g, stack_depth (Some fr) - n, shift cutoff)"
    using assms(2,5) X by (auto simp: fr depth_view_def)
  show ?thesis
  proof (cases "en > 0")
    case True
    then have "decision (filter_level f (f_code fr)) tid what fr g (stack_depth (Some fr)) cutoff = (log, cutoff')"
      using assms(4) by simp
    note d = decision_lowering [OF assms(1,3) this]
    show ?thesis using True d depth assms(2)
      by (auto simp: greenlet_step_def Let_def depth_view_def fr diff_add_eq split: option.splits)
  next
    case False
    then show ?thesis using assms(1,2,4) depth
      by (auto simp: greenlet_step_def Let_def depth_view_def fr diff_add_eq lowering_def split: option.splits)
  qed
qed

lemma own_depth_log:
  assumes "lowering n low shift"
  shows "history_ok acts st \<Longrightarrow> own = filter (of_greenlet g) (history acts st) \<Longrightarrow>
    below NO_TRACE_FROM_DEPTH_DISABLED own \<Longrightarrow>
    \<forall>fr. Profile PyTrace_RETURN fr g \<in> set (butlast own) \<longrightarrow> f_back fr \<noteq> None \<Longrightarrow>
    m g = Some (depth_view g n shift (st g) cutoff) \<or> m g = None \<and> cutoff = NO_TRACE_FROM_DEPTH_DISABLED \<and>
      (first_profile own = Some PyTrace_RETURN \<longleftrightarrow> n = 1) \<Longrightarrow>
    spec_log f tid en m own = map low (depth_log f tid en cutoff own)"
proof (induction acts arbitrary: st en m cutoff own)
  case (Cons x acts)
  have profile: ?case
    if own: "own = Profile what fr g # own'" and ok: "history_ok acts st'"
      and own': "own' = filter (of_greenlet g) (history acts st')"
      and what: "what = PyTrace_CALL \<and> st g = f_back fr \<and> st' g = Some fr \<or>
        what = PyTrace_RETURN \<and> st g = Some fr \<and> st' g = f_back fr"
    for what fr own' st'
  proof -
    obtain log cutoff' where dec: "(if en > 0 then decision (filter_level f (f_code fr)) tid what fr g (stack_depth (Some fr)) cutoff
          else ([], cutoff)) = (log, cutoff')" by (metis surj_pair)
    have "stack_depth (Some fr) < NO_TRACE_FROM_DEPTH_DISABLED"
      using Cons.prems(3) own by (auto simp: below_def)
    moreover have "m g = Some (depth_view g n shift (st g) cutoff) \<or>
      m g = None \<and> cutoff = NO_TRACE_FROM_DEPTH_DISABLED \<and> (what = PyTrace_RETURN \<longleftrightarrow> n = 1)"
      using Cons.prems(5) own by simp
    ultimately have step: "greenlet_step (en > 0) (filter_level f (f_code fr)) tid what fr g (m g) =
      (map low log, if what = PyTrace_RETURN \<and> f_back fr = None then None else Some (depth_view g n shift (st' g) cutoff'))"
      using assms what dec by (intro step_lowering [where p = "st g"]) simp_all
    have w: "what \<noteq> PyTrace_OTHER" using what by auto
    show ?case
    proof (cases "own' = []")
      case True
      with step dec w own show ?thesis by simp
    next
      case False
      have go: "\<not> (what = PyTrace_RETURN \<and> f_back fr = None)"
        using Cons.prems(4) own False by auto
      let ?m = "m(g \<mapsto> depth_view g n shift (st' g) cutoff')"
      have "below NO_TRACE_FROM_DEPTH_DISABLED own'" using Cons.prems(3) own by (auto simp: below_def)
      moreover have "\<forall>fr. Profile PyTrace_RETURN fr g \<in> set (butlast own') \<longrightarrow> f_back fr \<noteq> None"
        using Cons.prems(4) own False by simp
      moreover have "?m g = Some (depth_view g n shift (st' g) cutoff')" by simp
      ultimately have "spec_log f tid en ?m own' = map low (depth_log f tid en cutoff' own')"
        using Cons.IH [OF ok own'] by blast
      with step dec w own go show ?thesis by (auto simp: if_not_P)
    qed
  qed
  show ?case
  proof (cases x)
    case (Enter h a c)
    show ?thesis
    proof (cases "h = g")
      case True
      with Enter Cons.prems(1,2) show ?thesis
        by (intro profile [of PyTrace_CALL "Frame a c (st g)" _ "st(g \<mapsto> Frame a c (st g))"]) simp_all
    next
      case False
      show ?thesis
        by (rule Cons.IH [of "st(h \<mapsto> Frame a c (st h))"]) (use Enter False Cons.prems in \<open>simp_all add: fun_upd_def\<close>)
    qed
  next
    case (Leave h)
    then obtain fr where fr: "st h = Some fr" "history_ok acts (st(h := f_back fr))"
      using Cons.prems(1) by (auto split: option.splits)
    show ?thesis
    proof (cases "h = g")
      case True
      with Leave Cons.prems(2) fr show ?thesis
        by (intro profile [of PyTrace_RETURN fr _ "st(g := f_back fr)"]) simp_all
    next
      case False
      show ?thesis
        by (rule Cons.IH [of "st(h := f_back fr)"]) (use Leave fr False Cons.prems in \<open>simp_all add: fun_upd_def\<close>)
    qed
  next
    case Pause
    then have own: "own = Suspend # filter (of_greenlet g) (history acts st)" using Cons.prems(2) by simp
    with Pause Cons.prems Cons.IH [of st _ m cutoff "en - 1"] show ?thesis
      by (auto simp: below_def split: if_splits)
  next
    case Continue
    then have own: "own = Resume # filter (of_greenlet g) (history acts st)" using Cons.prems(2) by simp
    with Continue Cons.prems Cons.IH [of st _ m cutoff "if en \<le> 0 then en + 1 else en"] show ?thesis
      by (auto simp: below_def split: if_splits)
  qed
qed simp

section \<open>Properties\<close>

definition codes_of :: "event list \<Rightarrow> u64 set" where
  "codes_of es = set (concat (map event_codes es))"

definition gids_of :: "event list \<Rightarrow> u64 set" where
  "gids_of es = set (concat (map event_gids es))"

lemma tracer_rel_new:
  "stacks_ok st \<Longrightarrow> tracer_rel env f K G c (tstorage_new tid c) [] st Map.empty"
  using ts_inv_new [of env f K c tid] by (simp add: tracer_rel_def views_of_def) (simp add: tstorage_new_def)

lemma history_log:
  assumes "stacks_ok st" "history_ok acts st"
    and "run_ok env f (codes_of (history acts st)) c" "keys_ok (codes_of (history acts st)) (gids_of (history acts st))"
  shows "trace_events env f (history acts st) (tstorage_new tid c) = Some Fatal \<or>
    (\<exists>s'. trace_events env f (history acts st) (tstorage_new tid c) =
       Some (Done (spec_log f tid 1 Map.empty (history acts st), s')))"
proof -
  have "ts_id (tstorage_new tid c) = tid" "ts_enabled (tstorage_new tid c) = 1" by (simp_all add: tstorage_new_def)
  moreover have "\<forall>e \<in> set (history acts st).
      set (event_codes e) \<subseteq> codes_of (history acts st) \<and> set (event_gids e) \<subseteq> gids_of (history acts st)"
    by (auto simp: codes_of_def gids_of_def)
  ultimately show ?thesis
    using history_follows [OF assms(3,4) tracer_rel_new [OF assms(1), of _ _ _ _ _ tid] assms(2)] by metis
qed

text \<open>The lines of one greenlet: at the depth of their frames, or one less.\<close>

lemma greenlet_depth_log:
  assumes "stacks_ok st" "history_ok acts st"
    and "run_ok env f (codes_of (history acts st)) c" "keys_ok (codes_of (history acts st)) (gids_of (history acts st))"
    and "below NO_TRACE_FROM_DEPTH_DISABLED (filter (of_greenlet g) (history acts st))"
    and "\<forall>fr. Profile PyTrace_RETURN fr g \<in> set (butlast (filter (of_greenlet g) (history acts st))) \<longrightarrow> f_back fr \<noteq> None"
  shows "trace_events env f (history acts st) (tstorage_new tid c) = Some Fatal \<or>
    (\<exists>log s'. trace_events env f (history acts st) (tstorage_new tid c) = Some (Done (log, s')) \<and>
       filter (\<lambda>l. lg_gid l = g) log =
         map (if first_profile (filter (of_greenlet g) (history acts st)) = Some PyTrace_RETURN then lower else id)
           (depth_log f tid 1 NO_TRACE_FROM_DEPTH_DISABLED (filter (of_greenlet g) (history acts st))))"
proof -
  let ?own = "filter (of_greenlet g) (history acts st)"
  let ?first = "first_profile ?own = Some PyTrace_RETURN"
  have low: "lowering (if ?first then 1 else 0) (if ?first then lower else id) (if ?first then lowered else id)"
    by (simp add: lowering_def)
  have "spec_log f tid 1 Map.empty ?own =
      map (if ?first then lower else id) (depth_log f tid 1 NO_TRACE_FROM_DEPTH_DISABLED ?own)"
    by (rule own_depth_log [OF low assms(2) refl assms(5,6)]) simp
  moreover have "filter (\<lambda>l. lg_gid l = g) (spec_log f tid 1 Map.empty (history acts st)) = spec_log f tid 1 Map.empty ?own"
    by (rule spec_log_own) simp_all
  ultimately show ?thesis using history_log [OF assms(1-4), of tid] by auto
qed

text \<open>C30: the tracer refines the per-greenlet machine: for every history of a thread, with any number
  of greenlets switching at any point and tracing suspended and resumed anywhere, the log is the
  one obtained by stepping each greenlet on its own, with the filter asked at every event; so
  neither the cached frame, nor the hash table, nor the level caches with their evictions can be
  observed.  It is assumed that the low 32 bits tell the code objects, and the greenlets, apart.\<close>

theorem tracer_refines_greenlets:
  assumes "stacks_ok st" "history_ok acts st"
    and "run_ok env f (codes_of (history acts st)) c" "keys_ok (codes_of (history acts st)) (gids_of (history acts st))"
  shows "trace_events env f (history acts st) (tstorage_new tid c) = Some Fatal \<or>
    (\<exists>s'. trace_events env f (history acts st) (tstorage_new tid c) =
       Some (Done (spec_log f tid 1 Map.empty (history acts st), s')))"
  using history_log [OF assms] .

text \<open>C23: what is logged of a greenlet is its call tree: however its calls interleave with those of
  other greenlets, its lines are, in order, the call and return of every traced function at its
  depth in the stack, without the functions the filter excludes, and without anything called below
  a function whose level is \<open>NO_TRACE_NESTED\<close>.  The low 32 bits tell the code objects, and the
  greenlets, apart, the filter never answers -1, the level cache has between 1 and 2^32 - 1
  entries, and the stack stays below 314159 frames.\<close>

theorem greenlet_log_is_call_tree:
  assumes "stacks_ok st" "history_ok acts st"
    and "run_ok env f (codes_of (history acts st)) c" "keys_ok (codes_of (history acts st)) (gids_of (history acts st))"
    and "call_events g (st g) t (filter (of_greenlet g) (history acts st))"
    and "stack_depth (st g) + tree_height t < NO_TRACE_FROM_DEPTH_DISABLED"
  shows "trace_events env f (history acts st) (tstorage_new tid c) = Some Fatal \<or>
    (\<exists>log s'. trace_events env f (history acts st) (tstorage_new tid c) = Some (Done (log, s')) \<and>
       filter (\<lambda>l. lg_gid l = g) log = tree_log f tid g (stack_depth (st g) + 1) t)"
proof -
  let ?own = "filter (of_greenlet g) (history acts st)"
  have "stack_depth (st g) < NO_TRACE_FROM_DEPTH_DISABLED" using assms(6) tree_height_pos [of t] by simp
  then have "\<exists>v. spec_log f tid 1 Map.empty (?own @ []) = tree_log f tid g (stack_depth (st g) + 1) t @ spec_log f tid 1 (Map.empty(g := v)) []"
    using call_logged [OF assms(5), of f tid] assms(6) unfolding logs_call_def by (metis at_depth_def)
  then have "spec_log f tid 1 Map.empty ?own = tree_log f tid g (stack_depth (st g) + 1) t" by simp
  moreover have "filter (\<lambda>l. lg_gid l = g) (spec_log f tid 1 Map.empty (history acts st)) = spec_log f tid 1 Map.empty ?own"
    by (rule spec_log_own) simp_all
  ultimately have "filter (\<lambda>l. lg_gid l = g) (spec_log f tid 1 Map.empty (history acts st)) = tree_log f tid g (stack_depth (st g) + 1) t"
    by simp
  with history_log [OF assms(1-4), of tid] show ?thesis by blast
qed

text \<open>C31: a greenlet whose first event is a return, as the one that switches tracing on, is logged one
  level too high for the rest of its life, whatever it and the other greenlets do: the depth of
  its storage is counted without the frame that returns, but that frame is then subtracted again.
  Each of its lines has the depth of its frame in the stack less one, until its outermost frame
  returns; each line of a greenlet whose first event is a call has the depth of its frame.  The
  stack stays below the depth 314159 that means no cut-off.\<close>

theorem return_first_off_by_one:
  assumes "stacks_ok st" "history_ok acts st"
    and "run_ok env f (codes_of (history acts st)) c" "keys_ok (codes_of (history acts st)) (gids_of (history acts st))"
    and "own = filter (of_greenlet g) (history acts st)" "below NO_TRACE_FROM_DEPTH_DISABLED own"
    and "\<forall>fr. Profile PyTrace_RETURN fr g \<in> set (butlast own) \<longrightarrow> f_back fr \<noteq> None"
  shows "trace_events env f (history acts st) (tstorage_new tid c) = Some Fatal \<or>
    (\<exists>log s'. trace_events env f (history acts st) (tstorage_new tid c) = Some (Done (log, s')) \<and>
       filter (\<lambda>l. lg_gid l = g) log =
         map (if first_profile own = Some PyTrace_RETURN then lower else id)
           (depth_log f tid 1 NO_TRACE_FROM_DEPTH_DISABLED own))"
  using greenlet_depth_log [OF assms(1-4), of g tid] assms(5-7) by simp

text \<open>C32: suspending tracing inside a nested-suppressed function can leave the cut-off behind: when
  such a function (not the outermost of its greenlet) returns while tracing is off, nothing resets
  the cut-off, and when tracing is resumed inside the next function at the same depth, nothing
  this function calls is logged as long as it runs, although nothing that runs is suppressed.
  Without the suspension the same calls leave that function's line and a line for every traced
  event below it.\<close>

theorem suspend_leaves_cutoff:
  assumes "stacks_ok st" "st g \<noteq> None" "stack_depth (st g) + 1 < NO_TRACE_FROM_DEPTH_DISABLED"
    and "on = [Enter g a1 c1, Leave g, Enter g a2 c2] @ acts"
    and "off = [Enter g a1 c1, Pause, Leave g, Enter g a2 c2, Continue] @ acts"
    and "history_ok off st" "run_ok env f (codes_of (history off st)) c"
    and "keys_ok (codes_of (history off st)) (gids_of (history off st))"
    and "filter_level f c1 = NO_TRACE_NESTED" "filter_level f c2 \<noteq> NO_TRACE_NESTED"
    and "own = filter (of_greenlet g) (history acts (st(g \<mapsto> Frame a2 c2 (st g))))"
    and "below NO_TRACE_FROM_DEPTH_DISABLED own" "deeper (stack_depth (st g) + 1) own"
  shows "(trace_events env f (history off st) (tstorage_new tid c) = Some Fatal \<or>
      (\<exists>log s'. trace_events env f (history off st) (tstorage_new tid c) = Some (Done (log, s')) \<and>
         filter (\<lambda>l. lg_gid l = g) log = [])) \<and>
    (trace_events env f (history on st) (tstorage_new tid c) = Some Fatal \<or>
      (\<exists>log s'. trace_events env f (history on st) (tstorage_new tid c) = Some (Done (log, s')) \<and>
         filter (\<lambda>l. lg_gid l = g) log =
           (if filter_level f c2 = NO_TRACE then []
            else [Log_Call (filter_level f c2) tid g (stack_depth (st g) + 1) c2]) @
           depth_log f tid 1 NO_TRACE_FROM_DEPTH_DISABLED own))"
proof -
  let ?D = "stack_depth (st g)" and ?X = NO_TRACE_FROM_DEPTH_DISABLED
  let ?f1 = "Frame a1 c1 (st g)" and ?f2 = "Frame a2 c2 (st g)"
  let ?rest = "history acts (st(g \<mapsto> ?f2))"
  have h: "history off st = Profile PyTrace_CALL ?f1 g # Suspend # Profile PyTrace_RETURN ?f1 g #
      Profile PyTrace_CALL ?f2 g # Resume # ?rest"
    "history on st = Profile PyTrace_CALL ?f1 g # Profile PyTrace_RETURN ?f1 g # Profile PyTrace_CALL ?f2 g # ?rest"
    by (simp_all add: assms(4,5) fun_upd_def cong: if_cong)
  then have sets: "codes_of (history on st) = codes_of (history off st)"
    "gids_of (history on st) = gids_of (history off st)" by (simp_all add: codes_of_def gids_of_def)
  have ok: "history_ok on st" using assms(6) by (simp add: assms(4,5))
  have deep: "\<forall>fr. Profile PyTrace_RETURN fr g \<in> set own \<longrightarrow> f_back fr \<noteq> None"
  proof (intro allI impI notI)
    fix fr assume "Profile PyTrace_RETURN fr g \<in> set own" "f_back fr = None"
    from deeper_back [OF assms(13) this(1)] this(2) show False by (simp add: stack_depth_def)
  qed
  then have inner: "\<forall>fr. Profile PyTrace_RETURN fr g \<in> set (butlast (xs @ own)) \<longrightarrow> f_back fr \<noteq> None"
    if "\<forall>fr. Profile PyTrace_RETURN fr g \<in> set xs \<longrightarrow> f_back fr \<noteq> None" for xs
    using that by (metis Un_iff in_set_butlastD set_append)
  note b1 = inner [of "[Profile PyTrace_CALL ?f1 g, Suspend, Profile PyTrace_RETURN ?f1 g, Profile PyTrace_CALL ?f2 g, Resume]"]
  note b2 = inner [of "[Profile PyTrace_CALL ?f1 g, Profile PyTrace_RETURN ?f1 g, Profile PyTrace_CALL ?f2 g]"]
  have own: "filter (of_greenlet g) (history off st) = Profile PyTrace_CALL ?f1 g # Suspend #
      Profile PyTrace_RETURN ?f1 g # Profile PyTrace_CALL ?f2 g # Resume # own"
    "filter (of_greenlet g) (history on st) =
      Profile PyTrace_CALL ?f1 g # Profile PyTrace_RETURN ?f1 g # Profile PyTrace_CALL ?f2 g # own"
    unfolding h assms(11) by simp_all
  have none: "depth_log f tid 1 (?D + 1) own = []" using assms(13) by (rule depth_log_cut)
  show ?thesis
  proof (rule conjI)
    show "trace_events env f (history off st) (tstorage_new tid c) = Some Fatal \<or>
      (\<exists>log s'. trace_events env f (history off st) (tstorage_new tid c) = Some (Done (log, s')) \<and>
         filter (\<lambda>l. lg_gid l = g) log = [])"
      using greenlet_depth_log [OF assms(1,6-8), of g tid] assms(2,3,9,12) b1 none
      unfolding own by (simp add: below_def decision_def)
    show "trace_events env f (history on st) (tstorage_new tid c) = Some Fatal \<or>
      (\<exists>log s'. trace_events env f (history on st) (tstorage_new tid c) = Some (Done (log, s')) \<and>
         filter (\<lambda>l. lg_gid l = g) log =
           (if filter_level f c2 = NO_TRACE then []
            else [Log_Call (filter_level f c2) tid g (stack_depth (st g) + 1) c2]) @
           depth_log f tid 1 ?X own)"
      using greenlet_depth_log [OF assms(1) ok, of env f c g tid] assms(2,3,7-10,12) b2
      unfolding own sets
      by (cases "filter_level f c2 = NO_TRACE") (simp_all add: below_def decision_def entry_def)
  qed
qed

text \<open>README documents filters that return True or False.  The level is \<open>int()\<close> of the answer.\<close>

definition bool_filter :: "(u64 \<Rightarrow> bool) \<Rightarrow> u64 \<Rightarrow> int option" where
  "bool_filter p code = Some (if p code then 1 else 0)"

lemma spec_log_bool: "spec_log (bool_filter p) tid en m es = []"
proof (induction es arbitrary: en m)
  case (Cons e es)
  show ?case
  proof (cases e)
    case (Profile what fr g)
    have "fst (greenlet_step on (filter_level (bool_filter p) code) tid what fr g v) = []" for on code v
      by (auto simp: greenlet_step_def decision_def filter_level_def bool_filter_def Let_def
          split: option.split prod.split)
    then have "fst (greenlet_step (en > 0) (filter_level (bool_filter p) (f_code fr)) tid what fr g (m g)) = []" .
    with Profile Cons.IH show ?thesis by (simp add: split_beta)
  qed (use Cons.IH in simp_all)
qed simp

text \<open>C38: a filter that returns True or False, as README documents them, traces nothing, whatever it
  decides and whatever the program does: False is the level \<open>NO_TRACE\<close> and True is 1, which is
  \<open>NO_TRACE_NESTED\<close>.  So \<open>set_tracing()\<close> with its default filter, which returns True, logs no line,
  where README promises that it traces all functions.  The low 32 bits tell the code objects, and
  the greenlets, apart.\<close>

theorem bool_filter_traces_nothing:
  assumes "stacks_ok st" "history_ok acts st" "env_ok env" "0 < c" "c < 2 ^ 32"
    and "keys_ok (codes_of (history acts st)) (gids_of (history acts st))"
  shows "trace_events env (bool_filter p) (history acts st) (tstorage_new tid c) = Some Fatal \<or>
    (\<exists>s'. trace_events env (bool_filter p) (history acts st) (tstorage_new tid c) = Some (Done ([], s')))"
proof -
  have "run_ok env (bool_filter p) (codes_of (history acts st)) c"
    using assms(3-5) by (auto simp: run_ok_def filter_level_def bool_filter_def)
  from history_log [OF assms(1,2) this assms(6), of tid] show ?thesis by (simp add: spec_log_bool)
qed

section \<open>Sample histories\<close>

definition sample_levels :: "u64 \<Rightarrow> int option" where
  "sample_levels code = (if code = 10 then Some 2 else if code = 20 then Some 1 else if code = 30 then None else Some 3)"

definition sample_acts :: "action list" where
  "sample_acts =
     [Enter 7 100 10, Enter 8 200 10, Enter 7 300 20, Enter 7 400 40, Leave 8, Leave 7, Leave 7,
      Enter 7 300 30, Enter 7 400 40, Leave 7, Leave 7, Leave 7]"

definition sample_tree :: call where
  "sample_tree = Call 10 [Call 20 [Call 40 []], Call 30 [Call 40 []]]"

lemma no_stacks: "stacks_ok Map.empty"
  by (simp add: stacks_ok_def)

lemma sample_acts_ok: "history_ok sample_acts Map.empty"
  by (simp add: sample_acts_def)

lemma sample_history_keys:
  "codes_of (history sample_acts Map.empty) = {10, 20, 30, 40}" "gids_of (history sample_acts Map.empty) = {7, 8}"
  by (auto simp: sample_acts_def codes_of_def gids_of_def)

lemma sample_inj: "distinct (map int_key [7, 8, 10, 20, 30, 40])"
  by code_simp

lemma keys_okI:
  assumes "K \<subseteq> set xs" "G \<subseteq> set xs" "distinct (map int_key xs)" "length xs < 2 ^ 32"
  shows "keys_ok K G"
proof -
  have "inj_on int_key (set xs)" using assms(3) by (simp add: distinct_map)
  moreover have "card G < 2 ^ 32"
    using card_mono [OF _ assms(2)] card_length [of xs] assms(4) by simp
  ultimately show ?thesis using assms(1,2) finite_subset [OF assms(2)] by (auto simp: keys_ok_def elim: inj_on_subset)
qed

lemma sample_keys: "keys_ok (codes_of (history sample_acts Map.empty)) (gids_of (history sample_acts Map.empty))"
  using sample_inj by (intro keys_okI [of _ "[7, 8, 10, 20, 30, 40]"]) (simp_all add: sample_history_keys)

lemma sample_run: "run_ok sample_env sample_levels K 2"
  using sample_env_ok by (simp add: run_ok_def filter_level_def sample_levels_def)

lemma sample_acts_not_fatal:
  "case trace_events sample_env sample_levels (history sample_acts Map.empty) (tstorage_new 5 2) of
     Some Fatal \<Rightarrow> False | _ \<Rightarrow> True"
  by code_simp

lemma sample_spec_log: "map lg_depth (spec_log sample_levels 5 1 Map.empty (history sample_acts Map.empty)) = [1, 1, 1, 3, 3, 1]"
  by code_simp

theorem tracer_refines_greenlets_witness:
  "\<exists>log s'. trace_events sample_env sample_levels (history sample_acts Map.empty) (tstorage_new 5 2) = Some (Done (log, s')) \<and>
     map lg_depth log = [1, 1, 1, 3, 3, 1]"
proof -
  let ?evs = "history sample_acts Map.empty"
  have "\<exists>s'. trace_events sample_env sample_levels ?evs (tstorage_new 5 2) =
      Some (Done (spec_log sample_levels 5 1 Map.empty ?evs, s'))"
    using tracer_refines_greenlets [OF no_stacks sample_acts_ok sample_run sample_keys, of 5]
      not_fatal [OF sample_acts_not_fatal] by (simp only: simp_thms)
  then obtain s' where "trace_events sample_env sample_levels ?evs (tstorage_new 5 2) =
      Some (Done (spec_log sample_levels 5 1 Map.empty ?evs, s'))" by (rule exE)
  with sample_spec_log show ?thesis by (intro exI conjI)
qed

lemma call_leaf: "call_events g p (Call c []) [Profile PyTrace_CALL (Frame a c p) g, Profile PyTrace_RETURN (Frame a c p) g]"
  using call_events_Call [of g a c p "[]" "[]"] by simp

lemma call_one:
  assumes "call_events g (Some (Frame a c p)) t es"
  shows "call_events g p (Call c [t]) (Profile PyTrace_CALL (Frame a c p) g # es @ [Profile PyTrace_RETURN (Frame a c p) g])"
  using call_events_Call [of g a c p "[t]" "[es]"] assms by simp

lemma sample_own_events: "call_events 7 None sample_tree (filter (of_greenlet 7) (history sample_acts Map.empty))"
proof -
  let ?p = "Some (Frame 100 10 None)"
  note kids = call_one [OF call_leaf [of 7 "Some (Frame 300 20 ?p)" 40 400]] call_one [OF call_leaf [of 7 "Some (Frame 300 30 ?p)" 40 400]]
  have two: "list_all2 R [t1, t2] [e1, e2]" if "R t1 e1" "R t2 e2" for R :: "call \<Rightarrow> event list \<Rightarrow> bool" and t1 t2 e1 e2
    using that by simp
  from call_events_Call [OF two [OF kids]] show ?thesis by (simp add: sample_acts_def sample_tree_def)
qed

lemma sample_tree_facts:
  "stack_depth (Map.empty (7 :: u64)) + tree_height sample_tree < NO_TRACE_FROM_DEPTH_DISABLED"
  "tree_log sample_levels 5 7 (stack_depth (Map.empty (7 :: u64)) + 1) sample_tree =
     [Log_Call 2 5 7 1 10, Log_Call 3 5 7 3 40, Log_Return 3 5 7 3 40, Log_Return 2 5 7 1 10]"
  by (simp_all add: sample_tree_def stack_depth_def filter_level_def sample_levels_def Let_def)

theorem greenlet_log_is_call_tree_witness:
  "\<exists>log s'. trace_events sample_env sample_levels (history sample_acts Map.empty) (tstorage_new 5 2) = Some (Done (log, s')) \<and>
     filter (\<lambda>l. lg_gid l = 7) log =
       [Log_Call 2 5 7 1 10, Log_Call 3 5 7 3 40, Log_Return 3 5 7 3 40, Log_Return 2 5 7 1 10]"
  using greenlet_log_is_call_tree [OF no_stacks sample_acts_ok sample_run sample_keys sample_own_events sample_tree_facts(1), of 5]
    not_fatal [OF sample_acts_not_fatal] unfolding sample_tree_facts(2) by (simp only: simp_thms)

definition sample_stacks :: stacks where
  "sample_stacks = [7 \<mapsto> Frame 200 40 (Some (Frame 100 10 None))]"

lemma sample_stacks_ok:
  "stacks_ok sample_stacks" "history_ok [Leave 7, Enter 7 300 10] sample_stacks" "keys_ok {40, 10} {7}"
proof -
  show "stacks_ok sample_stacks" "history_ok [Leave 7, Enter 7 300 10] sample_stacks"
    by (auto simp: stacks_ok_def sample_stacks_def)
  show "keys_ok {40, 10} {7}" using sample_inj by (intro keys_okI [of _ "[7, 8, 10, 20, 30, 40]"]) simp_all
qed

lemma sample_return_not_fatal:
  "case trace_events sample_env sample_levels (history [Leave 7, Enter 7 300 10] sample_stacks) (tstorage_new 5 2) of
     Some Fatal \<Rightarrow> False | _ \<Rightarrow> True"
  by code_simp

lemma sample_bool_not_fatal:
  "case trace_events sample_env (bool_filter (\<lambda>_. True)) (history sample_acts Map.empty) (tstorage_new 5 2) of
     Some Fatal \<Rightarrow> False | _ \<Rightarrow> True"
  by code_simp

theorem bool_filter_traces_nothing_witness:
  "\<exists>s'. trace_events sample_env (bool_filter (\<lambda>_. True)) (history sample_acts Map.empty) (tstorage_new 5 2) =
     Some (Done ([], s'))"
proof -
  have "0 < (2 :: nat)" "(2 :: nat) < 2 ^ 32" by simp_all
  from bool_filter_traces_nothing [OF no_stacks sample_acts_ok sample_env_ok this sample_keys, of "\<lambda>_. True" 5]
    not_fatal [OF sample_bool_not_fatal] show ?thesis by (simp only: simp_thms)
qed

theorem return_first_off_by_one_witness:
  "\<exists>log s'. trace_events sample_env sample_levels (history [Leave 7, Enter 7 300 10] sample_stacks) (tstorage_new 5 2) =
      Some (Done (log, s')) \<and> filter (\<lambda>l. lg_gid l = 7) log = [Log_Return 3 5 7 1 40, Log_Call 2 5 7 1 10]"
proof -
  let ?evs = "history [Leave 7, Enter 7 300 10] sample_stacks"
  let ?own = "filter (of_greenlet 7) ?evs"
  have keys: "codes_of ?evs = {40, 10}" "gids_of ?evs = {7}"
    by (auto simp: codes_of_def gids_of_def sample_stacks_def)
  have own: "?own = [Profile PyTrace_RETURN (Frame 200 40 (Some (Frame 100 10 None))) 7,
      Profile PyTrace_CALL (Frame 300 10 (Some (Frame 100 10 None))) 7]"
    by (simp add: sample_stacks_def)
  have "below NO_TRACE_FROM_DEPTH_DISABLED ?own"
    "\<forall>fr. Profile PyTrace_RETURN fr 7 \<in> set (butlast ?own) \<longrightarrow> f_back fr \<noteq> None"
    unfolding own by (auto simp: below_def stack_depth_def)
  moreover have "map (if first_profile ?own = Some PyTrace_RETURN then lower else id)
      (depth_log sample_levels 5 1 NO_TRACE_FROM_DEPTH_DISABLED ?own) = [Log_Return 3 5 7 1 40, Log_Call 2 5 7 1 10]"
    unfolding own
    by (simp add: stack_depth_def decision_def entry_def filter_level_def sample_levels_def)
  ultimately show ?thesis
    using return_first_off_by_one [OF sample_stacks_ok(1,2), of sample_env sample_levels 2 ?own 7 5]
      sample_run sample_stacks_ok(3) not_fatal [OF sample_return_not_fatal] unfolding keys by simp
qed

text \<open>A nested-suppressed function returns while tracing is off; the next one calls another.\<close>

lemma sample_suspension:
  "stacks_ok [7 \<mapsto> Frame 100 10 None]"
  "history_ok [Enter 7 200 20, Pause, Leave 7, Enter 7 300 40, Continue, Enter 7 400 50] [7 \<mapsto> Frame 100 10 None]"
  by (auto simp: stacks_ok_def)

lemma sample_suspension_runs:
  "case trace_events sample_env sample_levels
     (history [Enter 7 200 20, Pause, Leave 7, Enter 7 300 40, Continue, Enter 7 400 50] [7 \<mapsto> Frame 100 10 None])
     (tstorage_new 5 2) of Some Fatal \<Rightarrow> False | _ \<Rightarrow> True"
  "case trace_events sample_env sample_levels
     (history [Enter 7 200 20, Leave 7, Enter 7 300 40, Enter 7 400 50] [7 \<mapsto> Frame 100 10 None])
     (tstorage_new 5 2) of Some Fatal \<Rightarrow> False | _ \<Rightarrow> True"
  by code_simp+

theorem suspend_leaves_cutoff_witness:
  "(\<exists>log s'. trace_events sample_env sample_levels
       (history [Enter 7 200 20, Pause, Leave 7, Enter 7 300 40, Continue, Enter 7 400 50] [7 \<mapsto> Frame 100 10 None])
       (tstorage_new 5 2) = Some (Done (log, s')) \<and> filter (\<lambda>l. lg_gid l = 7) log = []) \<and>
   (\<exists>log s'. trace_events sample_env sample_levels
       (history [Enter 7 200 20, Leave 7, Enter 7 300 40, Enter 7 400 50] [7 \<mapsto> Frame 100 10 None])
       (tstorage_new 5 2) = Some (Done (log, s')) \<and>
     filter (\<lambda>l. lg_gid l = 7) log = [Log_Call 3 5 7 2 40, Log_Call 3 5 7 3 50])"
proof -
  let ?st = "[7 \<mapsto> Frame 100 10 None] :: stacks"
  let ?off = "[Enter 7 200 20, Pause, Leave 7, Enter 7 300 40, Continue] @ [Enter 7 400 50]"
  let ?on = "[Enter 7 200 20, Leave 7, Enter 7 300 40] @ [Enter 7 400 50]"
  let ?own = "filter (of_greenlet 7) (history [Enter 7 400 50] (?st(7 \<mapsto> Frame 300 40 (?st 7))))"
  have st: "?st 7 \<noteq> None" "stack_depth (?st 7) = 1" by (simp_all add: stack_depth_def)
  have "history_ok ?off ?st" using sample_suspension(2) by simp
  moreover have "keys_ok (codes_of (history ?off ?st)) (gids_of (history ?off ?st))"
  proof (rule keys_okI [of _ "[7, 20, 40, 50]"])
    show "distinct (map int_key [7, 20, 40, 50])" by code_simp
  qed (auto simp: codes_of_def gids_of_def)
  moreover have "filter_level sample_levels 20 = NO_TRACE_NESTED" "filter_level sample_levels 40 = 3"
    by (simp_all add: filter_level_def sample_levels_def)
  moreover have "below NO_TRACE_FROM_DEPTH_DISABLED ?own" "deeper (stack_depth (?st 7) + 1) ?own"
    by (simp_all add: below_def deeper_def stack_depth_def)
  moreover have "depth_log sample_levels 5 1 NO_TRACE_FROM_DEPTH_DISABLED ?own = [Log_Call 3 5 7 3 50]"
    by (simp add: stack_depth_def decision_def entry_def filter_level_def sample_levels_def)
  ultimately show ?thesis
    using suspend_leaves_cutoff [OF sample_suspension(1) st(1) _ refl refl _ sample_run _ _ _ refl,
        of 200 20 300 40 "[Enter 7 400 50]" 5] st(2)
      not_fatal [OF sample_suspension_runs(1)] not_fatal [OF sample_suspension_runs(2)] by simp
qed

end
