(* ===== verification/Tracer_Threads.thy ===== *)
theory Tracer_Threads
  imports Call_Trees Mintomic
begin

text \<open>
  \<open>thread_storage.cpp\<close>: the storage of each thread behind a thread-local slot, created on its first
  use and deleted when the thread ends, on Unix and on Windows; and what the tracer does in a
  process whose threads take turns.
\<close>

section \<open>The process\<close>

text \<open>Whether the calls into the operating system succeed.\<close>

record tls_os =
  key_create_ok :: bool
  set_ok :: "u64 \<Rightarrow> bool"
  wait_ok :: "u64 \<Rightarrow> bool"

text \<open>The static variables, and what each thread has in the slot; \<open>storage_key\<close> is None until the key
  is created.  \<open>watched\<close> has the threads whose end a Windows wait thread is told of.\<close>

record process =
  trace_level_lru_capacity :: nat
  storage_key_once :: u32
  storage_key :: "u32 option"
  tls :: "u64 \<Rightarrow> tstorage option"
  watched :: "u64 \<Rightarrow> bool"

definition process_new :: process where
  "process_new = \<lparr>trace_level_lru_capacity = 256, storage_key_once = 0, storage_key = None, tls = Map.empty,
     watched = (\<lambda>t. False)\<rparr>"

subsection \<open>Unix\<close>

definition init_thread_storage :: "tls_os \<Rightarrow> u32 \<Rightarrow> process \<Rightarrow> process" where
  "init_thread_storage os k p = (if key_create_ok os then p\<lparr>storage_key := Some k\<rparr> else p)"

text \<open>\<open>pthread_once\<close> calls the function the first time only.\<close>

definition init_thread_storage_once :: "tls_os \<Rightarrow> u32 \<Rightarrow> nat \<Rightarrow> process \<Rightarrow> process" where
  "init_thread_storage_once os k capacity p =
     (let p = p\<lparr>trace_level_lru_capacity := capacity\<rparr>
      in if storage_key_once p = 0 then init_thread_storage os k (p\<lparr>storage_key_once := 1\<rparr>) else p)"

text \<open>\<open>pthread_getspecific\<close> with a key that was not created is undefined.\<close>

definition get_thread_storage :: "tls_os \<Rightarrow> u64 \<Rightarrow> process \<Rightarrow> (tstorage \<times> process) option" where
  "get_thread_storage os tid p = do {
     key \<leftarrow> storage_key p;
     (case tls p tid of
        Some s \<Rightarrow> Some (s, p)
      | None \<Rightarrow> (let s = tstorage_new tid (trace_level_lru_capacity p)
                 in Some (s, if set_ok os tid then p\<lparr>tls := (tls p)(tid \<mapsto> s)\<rparr> else p))) }"

text \<open>At the end of a thread its slot is cleared and what it had is deleted.\<close>

definition del_thread_storage :: "u64 \<Rightarrow> process \<Rightarrow> process option" where
  "del_thread_storage tid p = (case tls p tid of None \<Rightarrow> Some p
     | Some s \<Rightarrow> do { t \<leftarrow> tstorage_delete s; Some (p\<lparr>tls := (tls p)(tid := None)\<rparr>) })"

subsection \<open>Windows\<close>

abbreviation TLS_OUT_OF_INDEXES :: u32 where "TLS_OUT_OF_INDEXES \<equiv> 0xFFFFFFFF"

definition init_thread_storage_msvc :: "tls_os \<Rightarrow> u32 \<Rightarrow> process \<Rightarrow> process" where
  "init_thread_storage_msvc os k p = p\<lparr>storage_key := Some (if key_create_ok os then k else TLS_OUT_OF_INDEXES)\<rparr>"

definition init_thread_storage_once_msvc :: "tls_os \<Rightarrow> u32 \<Rightarrow> nat \<Rightarrow> process \<Rightarrow> process" where
  "init_thread_storage_once_msvc os k capacity p =
     (let p = p\<lparr>trace_level_lru_capacity := capacity\<rparr>;
          (seen, once) = mint_compare_exchange_strong_32_relaxed (storage_key_once p) 0 1;
          p = p\<lparr>storage_key_once := once\<rparr>
      in if seen = 0 then init_thread_storage_msvc os k p else p)"

text \<open>\<open>TlsGetValue\<close> of an index that is out of range is NULL, and \<open>TlsSetValue\<close> fails; the storage is
  deleted at the end of the thread if the thread could be watched, and is leaked otherwise.\<close>

definition get_thread_storage_msvc :: "tls_os \<Rightarrow> u64 \<Rightarrow> process \<Rightarrow> (tstorage \<times> process) option" where
  "get_thread_storage_msvc os tid p = do {
     key \<leftarrow> storage_key p;
     (case (if key = TLS_OUT_OF_INDEXES then None else tls p tid) of
        Some s \<Rightarrow> Some (s, p)
      | None \<Rightarrow>
          (let s = tstorage_new tid (trace_level_lru_capacity p);
               p = (if key \<noteq> TLS_OUT_OF_INDEXES \<and> set_ok os tid then p\<lparr>tls := (tls p)(tid \<mapsto> s)\<rparr> else p)
           in Some (s, p\<lparr>watched := (watched p)(tid := wait_ok os tid)\<rparr>))) }"

definition del_thread_storage_msvc :: "u64 \<Rightarrow> process \<Rightarrow> process option" where
  "del_thread_storage_msvc tid p =
     (let gone = p\<lparr>tls := (tls p)(tid := None), watched := (watched p)(tid := False)\<rparr>
      in case tls p tid of None \<Rightarrow> Some gone
         | Some s \<Rightarrow> if watched p tid then do { t \<leftarrow> tstorage_delete s; Some gone } else Some gone)"

subsection \<open>Events\<close>

text \<open>A storage that is not in the slot is lost after the event.\<close>

definition put_storage :: "u64 \<Rightarrow> tstorage \<Rightarrow> process \<Rightarrow> process" where
  "put_storage tid s p = (if tls p tid = None then p else p\<lparr>tls := (tls p)(tid \<mapsto> s)\<rparr>)"

datatype process_event = Set_Profile nat | In_Thread u64 event | Thread_Exit u64

text \<open>The log with the thread each line comes from.\<close>

type_synonym tagged_log = "(u64 \<times> log_entry) list"

fun process_step ::
  "tls_os \<Rightarrow> u32 \<Rightarrow> storage_env \<Rightarrow> (u64 \<Rightarrow> int option) \<Rightarrow> process_event \<Rightarrow> process \<Rightarrow> (tagged_log \<times> process) outcome option" where
  "process_step os k env f (Set_Profile capacity) p = Some (Done ([], init_thread_storage_once os k capacity p))"
| "process_step os k env f (In_Thread tid e) p = do {
     (s, p) \<leftarrow> get_thread_storage os tid p;
     and_then (trace_event env f e s) (\<lambda>(log, s). Some (Done (map (Pair tid) log, put_storage tid s p))) }"
| "process_step os k env f (Thread_Exit tid) p = do { p \<leftarrow> del_thread_storage tid p; Some (Done ([], p)) }"

fun process_run ::
  "tls_os \<Rightarrow> u32 \<Rightarrow> storage_env \<Rightarrow> (u64 \<Rightarrow> int option) \<Rightarrow> process_event list \<Rightarrow> process \<Rightarrow> (tagged_log \<times> process) outcome option" where
  "process_run os k env f [] p = Some (Done ([], p))"
| "process_run os k env f (e # es) p =
     and_then (process_step os k env f e p) (\<lambda>(log, p).
       and_then (process_run os k env f es p) (\<lambda>(log', p). Some (Done (log @ log', p))))"

section \<open>Windows and Unix agree\<close>

lemma once_msvc_same:
  "key_create_ok os \<Longrightarrow> init_thread_storage_once_msvc os k c p = init_thread_storage_once os k c p"
  by (auto simp: init_thread_storage_once_msvc_def init_thread_storage_once_def init_thread_storage_def
      init_thread_storage_msvc_def mint_compare_exchange_strong_32_relaxed_def cmpxchg_def Let_def)

lemma get_msvc_same:
  assumes "storage_key p = Some k" "k \<noteq> TLS_OUT_OF_INDEXES" "get_thread_storage os tid p = Some (s, q)"
  obtains q' where "get_thread_storage_msvc os tid p = Some (s, q')" "tls q' = tls q"
  using assms by (auto simp: get_thread_storage_def get_thread_storage_msvc_def Let_def split: option.splits)

section \<open>Threads do not see each other\<close>

text \<open>The events of a thread; none comes after its end; every call of \<open>set_profile\<close> gives the same
  capacity.\<close>

fun own :: "u64 \<Rightarrow> process_event list \<Rightarrow> event list" where
  "own tid [] = []"
| "own tid (In_Thread t e # es) = (if t = tid then e # own tid es else own tid es)"
| "own tid (x # es) = own tid es"

fun well_ordered :: "nat \<Rightarrow> process_event list \<Rightarrow> bool" where
  "well_ordered c [] \<longleftrightarrow> True"
| "well_ordered c (Thread_Exit t # es) \<longleftrightarrow> own t es = [] \<and> well_ordered c es"
| "well_ordered c (Set_Profile c' # es) \<longleftrightarrow> c' = c \<and> well_ordered c es"
| "well_ordered c (x # es) \<longleftrightarrow> well_ordered c es"

definition start :: "nat \<Rightarrow> u64 \<Rightarrow> process \<Rightarrow> tstorage" where
  "start c tid p = (case tls p tid of None \<Rightarrow> tstorage_new tid c | Some s \<Rightarrow> s)"

definition ready :: "nat \<Rightarrow> process \<Rightarrow> bool" where
  "ready c p \<longleftrightarrow> storage_key p \<noteq> None \<and> storage_key_once p \<noteq> 0 \<and> trace_level_lru_capacity p = c"

text \<open>A thread alone: defined, and its storage can be deleted.\<close>

definition alone_ok :: "storage_env \<Rightarrow> (u64 \<Rightarrow> int option) \<Rightarrow> event list \<Rightarrow> tstorage \<Rightarrow> bool" where
  "alone_ok env f es s \<longleftrightarrow> trace_events env f es s = Some Fatal \<or>
     (\<exists>log s'. trace_events env f es s = Some (Done (log, s')) \<and> tstorage_delete s' \<noteq> None)"

lemma alone_step:
  assumes "alone_ok env f (x # es) s"
  obtains (fatal) "trace_event env f x s = Some Fatal"
    | (step) log s1 where "trace_event env f x s = Some (Done (log, s1))" "alone_ok env f es s1"
proof (cases "trace_event env f x s")
  case None
  with assms show thesis by (simp add: alone_ok_def and_then_def)
next
  case (Some r)
  show thesis
  proof (cases r)
    case Fatal
    with Some fatal show thesis by simp
  next
    case (Done y)
    obtain log s1 where y: "y = (log, s1)" by (cases y)
    have "alone_ok env f es s1"
    proof (cases "trace_events env f es s1")
      case None
      with assms Some Done y show ?thesis by (simp add: alone_ok_def and_then_def)
    next
      case (Some r')
      with assms \<open>trace_event env f x s = Some r\<close> Done y show ?thesis by (cases r') (auto simp: alone_ok_def)
    qed
    with step Some Done y show thesis by simp
  qed
qed

lemma delete_new: "tstorage_delete (tstorage_new tid c) \<noteq> None"
  using tstorage_delete_ok [where P = "\<lambda>g. False", OF ts_ok_new] by auto

lemma own_log_own [simp]: "map snd (filter (\<lambda>l. fst l = t) (map (Pair t) log)) = log"
  by (induction log) auto

lemma own_log_other [simp]: "t \<noteq> u \<Longrightarrow> filter (\<lambda>l. fst l = t) (map (Pair u) log) = []"
  by (induction log) auto

text \<open>The run of the process is each thread's own run, from the state \<open>p\<close> on.\<close>

definition in_step ::
  "tls_os \<Rightarrow> u32 \<Rightarrow> storage_env \<Rightarrow> (u64 \<Rightarrow> int option) \<Rightarrow> nat \<Rightarrow> process_event list \<Rightarrow> process \<Rightarrow> bool" where
  "in_step os k env f c evs p \<longleftrightarrow> process_run os k env f evs p = Some Fatal \<or>
     (\<exists>log p'. process_run os k env f evs p = Some (Done (log, p')) \<and>
       (\<forall>t. \<exists>s'. trace_events env f (own t evs) (start c t p) = Some (Done (map snd (filter (\<lambda>l. fst l = t) log), s'))))"

lemma in_stepE:
  assumes "in_step os k env f c evs p"
  obtains (fatal) "process_run os k env f evs p = Some Fatal"
    | (run) log p' where "process_run os k env f evs p = Some (Done (log, p'))"
        "\<And>t. \<exists>s'. trace_events env f (own t evs) (start c t p) = Some (Done (map snd (filter (\<lambda>l. fst l = t) log), s'))"
  using assms unfolding in_step_def by blast

lemma get_started:
  assumes "ready c p" "set_ok os t"
  obtains p1 where "get_thread_storage os t p = Some (start c t p, p1)" "tls p1 = (tls p)(t \<mapsto> start c t p)" "ready c p1"
proof (cases "tls p t")
  case None
  with assms show thesis
    by (intro that [of "p\<lparr>tls := (tls p)(t \<mapsto> start c t p)\<rparr>"]) (auto simp: get_thread_storage_def start_def ready_def Let_def)
next
  case (Some s)
  with assms show thesis
    by (intro that [of p]) (auto simp: get_thread_storage_def start_def ready_def)
qed

lemma in_step_thread:
  assumes "set_ok os t" "ready c p" "alone_ok env f (own t (In_Thread t x # evs)) (start c t p)"
    and next_ok: "\<And>s1 p1. alone_ok env f (own t evs) s1 \<Longrightarrow> ready c p1 \<Longrightarrow>
      (\<And>u. start c u p1 = (if u = t then s1 else start c u p)) \<Longrightarrow> in_step os k env f c evs p1"
  shows "in_step os k env f c (In_Thread t x # evs) p"
proof -
  obtain p1 where p1: "get_thread_storage os t p = Some (start c t p, p1)" "tls p1 = (tls p)(t \<mapsto> start c t p)" "ready c p1"
    using assms(2,1) by (rule get_started)
  have "alone_ok env f (x # own t evs) (start c t p)" using assms(3) by simp
  then show ?thesis
  proof (rule alone_step)
    assume "trace_event env f x (start c t p) = Some Fatal"
    with p1(1) show ?thesis by (simp add: in_step_def)
  next
    fix log s1
    assume step: "trace_event env f x (start c t p) = Some (Done (log, s1))" "alone_ok env f (own t evs) s1"
    let ?p = "put_storage t s1 p1"
    have st: "start c u ?p = (if u = t then s1 else start c u p)" for u
      using p1(2) by (simp add: start_def put_storage_def)
    have "ready c ?p" using p1(3) by (simp add: ready_def put_storage_def)
    from next_ok [OF step(2) this st] show ?thesis
    proof (cases rule: in_stepE)
      case fatal
      with p1(1) step(1) show ?thesis by (simp add: in_step_def)
    next
      case (run log' p')
      have "\<exists>s'. trace_events env f (own u (In_Thread t x # evs)) (start c u p) =
          Some (Done (map snd (filter (\<lambda>l. fst l = u) (map (Pair t) log @ log')), s'))" for u
        using run(2) [of u] step(1) st by (cases "u = t") (auto simp: comp_def)
      with p1(1) step(1) run(1) show ?thesis by (auto simp: in_step_def)
    qed
  qed
qed

lemma in_step_exit:
  assumes "ready c p" "own t evs = []" "tstorage_delete (start c t p) \<noteq> None"
    and next_ok: "\<And>p1. ready c p1 \<Longrightarrow>
      (\<And>u. start c u p1 = (if u = t then tstorage_new t c else start c u p)) \<Longrightarrow> in_step os k env f c evs p1"
  shows "in_step os k env f c (Thread_Exit t # evs) p"
proof -
  let ?p = "p\<lparr>tls := (tls p)(t := None)\<rparr>"
  have "?p = p" if "tls p t = None" using that by (cases p) (simp add: fun_upd_idem)
  then have run: "del_thread_storage t p = Some ?p"
    using assms(3) by (auto simp: del_thread_storage_def start_def split: option.split)
  have st: "start c u ?p = (if u = t then tstorage_new t c else start c u p)" for u by (simp add: start_def)
  have "ready c ?p" using assms(1) by (simp add: ready_def)
  from next_ok [OF this st] show ?thesis
  proof (cases rule: in_stepE)
    case fatal
    with run show ?thesis by (simp add: in_step_def)
  next
    case (run log p')
    have "\<exists>s'. trace_events env f (own u (Thread_Exit t # evs)) (start c u p) =
        Some (Done (map snd (filter (\<lambda>l. fst l = u) log), s'))" for u
      using run(2) [of u] assms(2) st by (cases "u = t") auto
    with run(1) \<open>del_thread_storage t p = Some ?p\<close> show ?thesis by (auto simp: in_step_def)
  qed
qed

lemma threads_ok:
  assumes os: "\<And>t. set_ok os t"
  shows "ready c p \<Longrightarrow> well_ordered c evs \<Longrightarrow> \<forall>t. alone_ok env f (own t evs) (start c t p) \<Longrightarrow>
    in_step os k env f c evs p"
proof (induction evs arbitrary: p)
  case Nil
  then show ?case by (simp add: in_step_def)
next
  case (Cons e evs)
  show ?case
  proof (cases e)
    case (Set_Profile c')
    let ?p = "init_thread_storage_once os k c' p"
    have p: "ready c ?p" "\<And>t. start c t ?p = start c t p"
      using Cons.prems(1,2) Set_Profile
      by (auto simp: ready_def init_thread_storage_once_def start_def)
    have "in_step os k env f c evs ?p" using Cons.IH [OF p(1)] Cons.prems(2,3) Set_Profile p(2) by simp
    with Set_Profile p(2) show ?thesis by (auto simp: in_step_def)
  next
    case (In_Thread t x)
    have "in_step os k env f c (In_Thread t x # evs) p"
    proof (rule in_step_thread [OF os Cons.prems(1)])
      show "alone_ok env f (own t (In_Thread t x # evs)) (start c t p)"
        using Cons.prems(3) [rule_format, of t] In_Thread by simp
    next
      fix s1 p1
      assume "alone_ok env f (own t evs) s1" "ready c p1" "\<And>u. start c u p1 = (if u = t then s1 else start c u p)"
      with Cons.prems(2,3) In_Thread show "in_step os k env f c evs p1"
        by (intro Cons.IH) (auto split: if_splits)
    qed
    with In_Thread show ?thesis by simp
  next
    case (Thread_Exit t)
    have gone: "own t evs = []" "well_ordered c evs" using Cons.prems(2) Thread_Exit by simp_all
    have "tstorage_delete (start c t p) \<noteq> None"
      using Cons.prems(3) [rule_format, of t] Thread_Exit gone by (simp add: alone_ok_def)
    then have "in_step os k env f c (Thread_Exit t # evs) p"
      using Cons.prems(3) Thread_Exit gone delete_new
      by (intro in_step_exit [OF Cons.prems(1) gone(1)] Cons.IH) (auto simp: alone_ok_def)
    with Thread_Exit show ?thesis by simp
  qed
qed

text \<open>C29: threads do not disturb each other: in a process whose threads take turns at every event, and
  may end at any time, the lines of each thread are, in order, those of the tracer that runs on
  this thread's events alone with a fresh storage, nothing is undefined, and the storages of the
  threads that end can be deleted.  The key is created and the slots can be set, and no event of a
  thread comes after its end, and every thread that sets the profile function asks for the same
  capacity of the level caches.\<close>

theorem threads_are_independent:
  assumes "env_ok env" "0 < c" "c < 2 ^ 32" "key_create_ok os" "\<forall>t. set_ok os t" "well_ordered c evs"
    and "\<forall>t. \<forall>code \<in> codes_of (own t evs). filter_level f code \<noteq> - 1"
    and "\<forall>t. card (int_key ` gids_of (own t evs)) < 2 ^ 32"
  shows "process_run os k env f (Set_Profile c # evs) process_new = Some Fatal \<or>
    (\<exists>log p'. process_run os k env f (Set_Profile c # evs) process_new = Some (Done (log, p')) \<and>
      (\<forall>t. \<exists>s'. trace_events env f (own t evs) (tstorage_new t c) =
        Some (Done (map snd (filter (\<lambda>l. fst l = t) log), s'))))"
proof -
  let ?p = "init_thread_storage_once os k c process_new"
  have p: "ready c ?p" "\<And>t. start c t ?p = tstorage_new t c"
    using assms(4) by (auto simp: ready_def init_thread_storage_once_def init_thread_storage_def process_new_def start_def)
  have "alone_ok env f (own t evs) (tstorage_new t c)" for t
    using memory_safe [OF assms(1-3), of "own t evs" f t] assms(7,8) by (auto simp: alone_ok_def codes_of_def gids_of_def)
  then have "\<forall>t. alone_ok env f (own t evs) (start c t ?p)" using p(2) by simp
  from threads_ok [OF assms(5) [rule_format] p(1) assms(6) this, of k] show ?thesis
    unfolding in_step_def p(2) by auto
qed

definition sample_os :: tls_os where
  "sample_os = \<lparr>key_create_ok = True, set_ok = (\<lambda>t. True), wait_ok = (\<lambda>t. True)\<rparr>"

definition sample_process :: "process_event list" where
  "sample_process =
     [In_Thread 5 (Profile PyTrace_CALL (Frame 400 10 None) 7),
      In_Thread 6 (Profile PyTrace_CALL (Frame 500 10 None) 9),
      In_Thread 5 Suspend,
      In_Thread 6 (Profile PyTrace_CALL (Frame 600 40 (Some (Frame 500 10 None))) 9),
      In_Thread 5 (Profile PyTrace_RETURN (Frame 400 10 None) 7),
      Thread_Exit 5,
      In_Thread 6 (Profile PyTrace_RETURN (Frame 600 40 (Some (Frame 500 10 None))) 9)]"

lemma sample_process_not_fatal:
  "case process_run sample_os 1 sample_env sample_levels (Set_Profile 2 # sample_process) process_new of
     Some Fatal \<Rightarrow> False | _ \<Rightarrow> True"
  by code_simp

lemma sample_own: "own t sample_process = (if t = 5 then own 5 sample_process else if t = 6 then own 6 sample_process else [])"
  by (simp add: sample_process_def)

lemma sample_process_facts:
  "\<forall>t. \<forall>code \<in> codes_of (own t sample_process). filter_level sample_levels code \<noteq> - 1"
  "\<forall>t. card (int_key ` gids_of (own t sample_process)) < 2 ^ 32"
  "well_ordered 2 sample_process"
proof -
  show "\<forall>t. \<forall>code \<in> codes_of (own t sample_process). filter_level sample_levels code \<noteq> - 1"
    by (simp add: sample_process_def codes_of_def filter_level_def sample_levels_def)
  have "length (concat (map event_gids (own t sample_process))) < 2 ^ 32" for t by (simp add: sample_process_def)
  then show "\<forall>t. card (int_key ` gids_of (own t sample_process)) < 2 ^ 32"
    unfolding gids_of_def using card_keys le_less_trans by blast
qed (simp add: sample_process_def)

lemma sample_thread_6:
  "case trace_events sample_env sample_levels (own 6 sample_process) (tstorage_new 6 2) of
     Some (Done (log, s')) \<Rightarrow> log = [Log_Call 2 6 9 1 10, Log_Call 3 6 9 2 40, Log_Return 3 6 9 2 40] | _ \<Rightarrow> False"
  by code_simp

theorem threads_are_independent_witness:
  "\<exists>log p'. process_run sample_os 1 sample_env sample_levels (Set_Profile 2 # sample_process) process_new = Some (Done (log, p')) \<and>
     map snd (filter (\<lambda>l. fst l = 6) log) = [Log_Call 2 6 9 1 10, Log_Call 3 6 9 2 40, Log_Return 3 6 9 2 40]"
proof -
  obtain log p' where log: "process_run sample_os 1 sample_env sample_levels (Set_Profile 2 # sample_process) process_new = Some (Done (log, p'))"
    "\<forall>t. \<exists>s'. trace_events sample_env sample_levels (own t sample_process) (tstorage_new t 2) =
        Some (Done (map snd (filter (\<lambda>l. fst l = t) log), s'))"
    using threads_are_independent [OF sample_env_ok, of 2 sample_os sample_process sample_levels 1] sample_process_facts
      not_fatal [OF sample_process_not_fatal] by (auto simp: sample_os_def)
  from log(2) [rule_format, of 6] sample_thread_6 log(1) show ?thesis by auto
qed

end
