(* ===== verification/Serialize.thy ===== *)
theory Serialize
  imports Ring_Buffer
begin

text \<open>
  \<open>ctracing_log_serialize.pyx\<close>: how the values of arguments and results are written into a
  trace message.  Every container writes at most four elements, each below a limit of its own,
  and says how long it was when it leaves something out.  An object is what the C API tells the
  code about it; what \<open>repr\<close> makes of a string is a parameter.
\<close>

section \<open>Objects\<close>

text \<open>Floats carry their formatted text; a dict of a subclass, and any other object, its type name and
  address; a method its function's name, its class and its receiver's address.\<close>

datatype pyobj =
    PyNull | PyInt int | PyLong int | PyFloat string | PyStr bool string
  | PyDict "(string \<times> nat) option" "(pyobj \<times> pyobj) list" | PyList "pyobj list" | PyTuple "pyobj list"
  | PyNone | PyTrue | PyFalse | PyFunction string | PyMethod "string option" "string option" "nat option"
  | PyType string | PyOther string nat

abbreviation MAX_STR_LEN :: nat where "MAX_STR_LEN \<equiv> 64"
abbreviation MAX_LIST_ELEM_LEN :: int where "MAX_LIST_ELEM_LEN \<equiv> 64"
abbreviation MAX_LIST_ELEMS :: nat where "MAX_LIST_ELEMS \<equiv> 4"
abbreviation MAX_DICT_ELEMS :: nat where "MAX_DICT_ELEMS \<equiv> 4"
abbreviation MAX_DICT_KEY_LEN :: int where "MAX_DICT_KEY_LEN \<equiv> 32"
abbreviation MAX_DICT_VAL_LEN :: int where "MAX_DICT_VAL_LEN \<equiv> 64"

section \<open>Formats\<close>

text \<open>\<open>%lx\<close>.\<close>

definition hex_char :: "nat \<Rightarrow> char" where
  "hex_char d = (if d < 10 then digit_char d else char_of (87 + d))"

fun fmt_x :: "nat \<Rightarrow> string" where
  "fmt_x n = (if n < 16 then [hex_char n] else fmt_x (n div 16) @ [hex_char (n mod 16)])"

declare fmt_x.simps [simp del]

text \<open>The text \<open>init_trunc_len_str\<close> puts into its 64-byte buffer, which is always long enough.\<close>

definition init_trunc_len_str :: "nat \<Rightarrow> string" where
  "init_trunc_len_str n = ''... <len='' @ fmt_d (int_of_size n) @ ''>''"

section \<open>Simple values\<close>

type_synonym tm_result = "(bool \<times> trace_message) option"

definition int_repr :: "int \<Rightarrow> trace_message \<Rightarrow> tm_result" where
  "int_repr i m = tm_printf (fmt_d i) m"

definition long_repr :: "int \<Rightarrow> trace_message \<Rightarrow> tm_result" where
  "long_repr i m = (let s = fmt_d i in if int (length s) \<le> avail_size m then tm_write s m else Some (False, m))"

definition float_repr :: "string \<Rightarrow> trace_message \<Rightarrow> tm_result" where
  "float_repr s m =
     (if int (length s) + 1 \<le> avail_size m
      then do { (ok, m) \<leftarrow> tm_write s m; (ok, m) \<leftarrow> tm_write ''f'' m; Some (True, m) }
      else Some (False, m))"

definition str_or_unicode_repr :: "(bool \<Rightarrow> string \<Rightarrow> string) \<Rightarrow> bool \<Rightarrow> string \<Rightarrow> trace_message \<Rightarrow> tm_result" where
  "str_or_unicode_repr py_repr is_unicode s m =
     (let truncated = length s > MAX_STR_LEN;
          str = py_repr is_unicode (if truncated then take MAX_STR_LEN s else s);
          repr_len = int (length str);
          truncated_buffer = (if truncated \<or> repr_len + 1 > avail_size m then init_trunc_len_str (length s) else []);
          truncated_len = int (length truncated_buffer)
      in if repr_len + truncated_len + 1 > avail_size m
         then (let repr_len = avail_size m - truncated_len - 2
               in if repr_len > 0 then tm_printf (take (nat repr_len) str @ [CHR 0x27] @ truncated_buffer) m
                  else Some (False, m))
         else tm_printf (str @ truncated_buffer) m)"

definition write_function_name :: "string option \<Rightarrow> trace_message \<Rightarrow> tm_result" where
  "write_function_name f m = (case f of None \<Rightarrow> tm_write ''unknown'' m | Some name \<Rightarrow> tm_write name m)"

text \<open>\<open>function_repr\<close> and \<open>type_repr\<close>: an opening text, a name, and \<open>?\<close> where the name does not fit.\<close>

definition name_repr :: "string \<Rightarrow> (trace_message \<Rightarrow> tm_result) \<Rightarrow> int \<Rightarrow> trace_message \<Rightarrow> tm_result" where
  "name_repr opening write_name room m =
     (if avail_size m < room then Some (False, m)
      else do {
        (ok, m) \<leftarrow> tm_write opening m;
        (let prev_pos = write_index m
         in do {
           (ok, m) \<leftarrow> write_name m;
           (if \<not> ok then do { m \<leftarrow> rewind prev_pos m; (ok, m) \<leftarrow> tm_write ''?>'' m; Some (True, m) }
            else do { (ok, m) \<leftarrow> tm_write ''>'' m; Some (True, m) }) }) })"

definition function_repr :: "string \<Rightarrow> trace_message \<Rightarrow> tm_result" where
  "function_repr f = name_repr ''<func '' (write_function_name (Some f)) 9"

definition type_repr :: "string \<Rightarrow> trace_message \<Rightarrow> tm_result" where
  "type_repr name = name_repr ''<type '' (tm_write name) 9"

text \<open>A call whose result replaces \<open>success\<close> while everything before it succeeded.\<close>

definition if_success :: "bool \<times> trace_message \<Rightarrow> (trace_message \<Rightarrow> tm_result) \<Rightarrow> tm_result" where
  "if_success r k = (case r of (success, m) \<Rightarrow> if success then k m else Some (False, m))"

definition method_repr :: "string option \<Rightarrow> string option \<Rightarrow> nat option \<Rightarrow> trace_message \<Rightarrow> tm_result" where
  "method_repr func klass self m =
     (if avail_size m < 11 then Some (False, m)
      else do {
        (ok, m) \<leftarrow> tm_write ''<meth '' m;
        (let prev_pos = write_index m
         in do {
           r \<leftarrow> write_function_name func m;
           r \<leftarrow> (case klass of None \<Rightarrow> Some r
                  | Some name \<Rightarrow> do { r \<leftarrow> if_success r (tm_write '' cls ''); if_success r (tm_write name) });
           r \<leftarrow> (case self of None \<Rightarrow> Some r | Some a \<Rightarrow> if_success r (tm_printf ('' obj 0x'' @ fmt_x a)));
           (success, m) \<leftarrow> if_success r (tm_write ''>'');
           (if \<not> success then do { m \<leftarrow> rewind prev_pos m; (ok, m) \<leftarrow> tm_write ''?>'' m; Some (True, m) }
            else Some (True, m)) }) })"

definition obj_repr :: "string \<Rightarrow> nat \<Rightarrow> trace_message \<Rightarrow> tm_result" where
  "obj_repr tp_name a m = tm_printf (''<'' @ tp_name @ '' 0x'' @ fmt_x a @ ''>'') m"

section \<open>Containers\<close>

text \<open>The closing bracket is written, and the length has to follow: where there is no room for it, the text
  is taken back to the last element that leaves room.\<close>

definition with_mark :: "string \<Rightarrow> string \<Rightarrow> int \<Rightarrow> trace_message \<Rightarrow> (bool \<times> trace_message) option" where
  "with_mark close_paren truncated_buffer ofs m =
     (if avail_size m < int (length truncated_buffer)
      then do {
        m \<leftarrow> rewind ofs m;
        (ok, m) \<leftarrow> tm_printf (close_paren @ truncated_buffer) m;
        Some (True, m) }
      else do { (ok, m) \<leftarrow> tm_write truncated_buffer m; Some (True, m) })"

text \<open>What \<open>list_or_tuple_repr\<close> and \<open>dict_repr\<close> do around the loop over their elements: \<open>items\<close> is the
  loop, whose results are the last index, the offset that still leaves room for the length, whether
  an element was cut, and the message.\<close>

definition items_repr ::
  "string \<Rightarrow> string \<Rightarrow> nat \<Rightarrow> (int \<Rightarrow> trace_message \<Rightarrow> (nat \<times> int \<times> bool \<times> trace_message) option) \<Rightarrow>
   trace_message \<Rightarrow> tm_result" where
  "items_repr open_paren close_paren len items m =
     (let truncated_buffer = init_trunc_len_str len; truncated_len = int (length truncated_buffer)
      in if truncated_len + 3 > avail_size m then Some (False, m)
         else do {
           (ok, m) \<leftarrow> tm_write open_paren m;
           (i, ofs, truncated, m) \<leftarrow> items truncated_len m;
           (ok, m) \<leftarrow> tm_write close_paren m;
           (let truncated = (truncated \<or> \<not> ok)
            in if i + 1 < len \<or> truncated
               then with_mark close_paren truncated_buffer ofs m
               else Some (True, m)) })"

definition list_or_tuple_repr ::
  "bool \<Rightarrow> nat \<Rightarrow> (int \<Rightarrow> trace_message \<Rightarrow> (nat \<times> int \<times> bool \<times> trace_message) option) \<Rightarrow> trace_message \<Rightarrow> tm_result" where
  "list_or_tuple_repr is_list = (if is_list then items_repr ''['' '']'' else items_repr ''('' '')'')"

definition dict_repr ::
  "nat \<Rightarrow> (int \<Rightarrow> trace_message \<Rightarrow> (nat \<times> int \<times> bool \<times> trace_message) option) \<Rightarrow> trace_message \<Rightarrow> tm_result" where
  "dict_repr = items_repr ''{'' ''}''"

text \<open>A value written below a limit of its own, which is lifted again whatever happens.\<close>

definition limited :: "int \<Rightarrow> (trace_message \<Rightarrow> tm_result) \<Rightarrow> trace_message \<Rightarrow> tm_result" where
  "limited n f m =
     (case limit n m of (last_limit, m) \<Rightarrow> do { (ok, m) \<leftarrow> f m; Some (ok, unlimit_to last_limit m) })"

text \<open>\<open>range(min(list_len, MAX_LIST_ELEMS))\<close>: \<open>min\<close> takes two \<open>int\<close>s, so a length of \<open>2 ^ 31\<close> or
  more is truncated, and a negative one means no pass at all.\<close>

definition passes :: "nat \<Rightarrow> nat \<Rightarrow> nat" where
  "passes max_elems len = nat (min (int_of_size len) (int max_elems))"

text \<open>The loops count their passes down.  An item past the end of a list would be read outside of it;
  a dict that ends early leaves the loop.\<close>

function fast_repr :: "(bool \<Rightarrow> string \<Rightarrow> string) \<Rightarrow> pyobj \<Rightarrow> trace_message \<Rightarrow> tm_result"
  and list_items :: "(bool \<Rightarrow> string \<Rightarrow> string) \<Rightarrow> nat \<Rightarrow> nat \<Rightarrow> int \<Rightarrow> int \<Rightarrow> pyobj list \<Rightarrow> trace_message \<Rightarrow>
    (nat \<times> int \<times> bool \<times> trace_message) option"
  and dict_items :: "(bool \<Rightarrow> string \<Rightarrow> string) \<Rightarrow> nat \<Rightarrow> nat \<Rightarrow> int \<Rightarrow> int \<Rightarrow> (pyobj \<times> pyobj) list \<Rightarrow> trace_message \<Rightarrow>
    (nat \<times> int \<times> bool \<times> trace_message) option"
where
  "fast_repr rp PyNull m = tm_write ''<null>'' m"
| "fast_repr rp (PyInt i) m = int_repr i m"
| "fast_repr rp (PyLong i) m = long_repr i m"
| "fast_repr rp (PyFloat s) m = float_repr s m"
| "fast_repr rp (PyStr is_unicode s) m = str_or_unicode_repr rp is_unicode s m"
| "fast_repr rp (PyDict sub kvs) m = do {
     (ok, m) \<leftarrow> (case sub of None \<Rightarrow> Some (True, m) | Some (tp_name, a) \<Rightarrow> obj_repr tp_name a m);
     (if \<not> ok then Some (False, m)
      else dict_repr (length kvs) (\<lambda>tlen. dict_items rp (passes MAX_DICT_ELEMS (length kvs)) 0 tlen 0 kvs) m) }"
| "fast_repr rp (PyList xs) m = list_or_tuple_repr True (length xs)
     (\<lambda>tlen. list_items rp (passes MAX_LIST_ELEMS (length xs)) 0 tlen 0 xs) m"
| "fast_repr rp (PyTuple xs) m = list_or_tuple_repr False (length xs)
     (\<lambda>tlen. list_items rp (passes MAX_LIST_ELEMS (length xs)) 0 tlen 0 xs) m"
| "fast_repr rp PyNone m = tm_write ''None'' m"
| "fast_repr rp PyTrue m = tm_write ''True'' m"
| "fast_repr rp PyFalse m = tm_write ''False'' m"
| "fast_repr rp (PyFunction f) m = function_repr f m"
| "fast_repr rp (PyMethod func klass self) m = method_repr func klass self m"
| "fast_repr rp (PyType name) m = type_repr name m"
| "fast_repr rp (PyOther tp_name a) m = obj_repr tp_name a m"
| "list_items rp 0 i tlen ofs xs m = Some (i - 1, ofs, False, m)"
| "list_items rp (Suc n) i tlen ofs [] m = None"
| "list_items rp (Suc n) i tlen ofs (x # xs) m =
     (let ofs = (if avail_size m \<ge> tlen + 2 then write_index m else ofs)
      in do {
        (ok, m) \<leftarrow> limited MAX_LIST_ELEM_LEN (\<lambda>m. do {
            (ok, m) \<leftarrow> (if i > 0 then tm_write '','' m else Some (True, m));
            (if ok then fast_repr rp x m else Some (False, m)) }) m;
        (if ok then list_items rp n (i + 1) tlen ofs xs m else Some (i, ofs, True, m)) })"
| "dict_items rp 0 i tlen ofs kvs m = Some (i - 1, ofs, False, m)"
| "dict_items rp (Suc n) i tlen ofs [] m = Some (i, ofs, False, m)"
| "dict_items rp (Suc n) i tlen ofs (kv # kvs) m =
     (let ofs = (if avail_size m \<ge> tlen + 2 then write_index m else ofs)
      in do {
        (ok, m) \<leftarrow> (if i > 0 then tm_write '','' m else Some (True, m));
        (ok, m) \<leftarrow> (if ok then limited MAX_DICT_KEY_LEN (fast_repr rp (fst kv)) m else Some (False, m));
        (ok, m) \<leftarrow> (if ok then tm_write '':'' m else Some (False, m));
        (ok, m) \<leftarrow> (if ok then limited MAX_DICT_VAL_LEN (fast_repr rp (snd kv)) m else Some (False, m));
        (if ok then dict_items rp n (i + 1) tlen ofs kvs m else Some (i, ofs, True, m)) })"
  by pat_completeness auto

termination
  by (relation "measure (\<lambda>x. case x of
      Inl (rp, x, m) \<Rightarrow> size x
    | Inr (Inl (rp, n, i, tlen, ofs, xs, m)) \<Rightarrow> size_list size xs
    | Inr (Inr (rp, n, i, tlen, ofs, kvs, m)) \<Rightarrow> size_list (size_prod size size) kvs)")
    auto

section \<open>What a value may do to a message\<close>

text \<open>It is extended below its limit, and nothing before is touched; and it can be read unless the
  room was used up to the last byte.\<close>

definition grows :: "trace_message \<Rightarrow> trace_message \<Rightarrow> bool" where
  "grows m m' \<longleftrightarrow> tm_ok m' \<and> tm_capacity m' = tm_capacity m \<and> limit_index m' = limit_index m \<and>
     tm_severity m' = tm_severity m \<and> tm_timestamp m' = tm_timestamp m \<and> (\<exists>x. tm_text m' = tm_text m @ x)"

definition sealed :: "trace_message \<Rightarrow> bool" where
  "sealed m \<longleftrightarrow> tm_closed m \<or> write_index m = limit_index m"

definition writes :: "trace_message \<Rightarrow> tm_result \<Rightarrow> bool" where
  "writes m r \<longleftrightarrow> (\<exists>ok m'. r = Some (ok, m') \<and> grows m m' \<and> sealed m')"

lemma writesI: "r = Some (ok, m') \<Longrightarrow> grows m m' \<Longrightarrow> sealed m' \<Longrightarrow> writes m r"
  by (auto simp: writes_def)

lemma grows_refl: "tm_ok m \<Longrightarrow> grows m m"
  by (simp add: grows_def)

lemma grows_trans: "grows m m1 \<Longrightarrow> grows m1 m2 \<Longrightarrow> grows m m2"
  by (auto simp: grows_def)

lemma text_length: "tm_ok m \<Longrightarrow> int (length (tm_text m)) = write_index m"
  by (auto simp: tm_text_def elim!: tm_okE)

lemma avail_nonneg: "tm_ok m \<Longrightarrow> 0 \<le> avail_size m"
  by (simp add: tm_ok_def avail_size_def)

lemma avail_le: "tm_ok m \<Longrightarrow> avail_size m \<le> INT_MAX"
  by (auto simp: avail_size_def elim!: tm_okE)

lemma grows_write_index:
  assumes "tm_ok m" "grows m m'"
  shows "write_index m \<le> write_index m'"
  using assms text_length [of m] text_length [of m'] by (auto simp: grows_def)

lemma write_ok:
  assumes "tm_ok m" "NUL \<notin> set s"
  obtains m' where "tm_write s m = Some (int (length s) < avail_size m, m')" "grows m m'" "sealed m'"
    "tm_text m' = tm_text m @ take (nat (avail_size m)) s"
proof -
  from tm_write_spec [OF assms] obtain m' where m': "tm_write s m = Some (int (length s) < avail_size m, m')" "tm_ok m'"
    "tm_text m' = tm_text m @ take (nat (avail_size m)) s" "limit_index m' = limit_index m" "tm_capacity m' = tm_capacity m"
    "tm_severity m' = tm_severity m" "tm_timestamp m' = tm_timestamp m" "int (length s) < avail_size m \<longrightarrow> tm_closed m'" by blast
  have "write_index m' = limit_index m'" if "\<not> int (length s) < avail_size m"
    using that m'(3,4) text_length [OF assms(1)] text_length [OF m'(2)] avail_nonneg [OF assms(1)]
    by (auto simp: avail_size_def)
  with m' that show thesis by (auto simp: grows_def sealed_def)
qed

lemma writes_write: "tm_ok m \<Longrightarrow> NUL \<notin> set s \<Longrightarrow> writes m (tm_write s m)"
  by (rule write_ok) (auto intro: writesI)

lemma printf_ok:
  assumes "tm_ok m" "NUL \<notin> set s" "s \<noteq> []" "int (length s) \<le> INT_MAX"
  obtains m' where "tm_printf s m = Some (int (length s) \<le> avail_size m, m')" "grows m m'" "sealed m'"
    "int (length s) < avail_size m \<longrightarrow> tm_text m' = tm_text m @ s"
proof -
  from vnprintf_spec [OF assms(1) avail_nonneg [OF assms(1)] assms(2,4)] obtain m' where
    m': "tm_printf s m = Some (int (length s) \<le> avail_size m, m')" "tm_ok m'"
      "tm_capacity m' = tm_capacity m" "limit_index m' = limit_index m"
      "tm_severity m' = tm_severity m" "tm_timestamp m' = tm_timestamp m"
      "int (length s) < avail_size m \<longrightarrow> tm_text m' = tm_text m @ s \<and> tm_closed m'"
      "int (length s) > avail_size m \<longrightarrow> tm_text m' = tm_text m \<and> tm_closed m'"
      "int (length s) \<le> avail_size m \<longrightarrow> write_index m' = write_index m + int (length s)"
      "int (length s) = avail_size m \<longrightarrow> tm_text m' = tm_text m @ butlast s @ [NUL]"
    unfolding tm_printf_def using assms(3) by auto
  consider "int (length s) < avail_size m" | "int (length s) = avail_size m" | "int (length s) > avail_size m" by linarith
  then have "(\<exists>x. tm_text m' = tm_text m @ x) \<and> sealed m'"
    by cases (use m'(4,7-10) in \<open>auto simp: sealed_def avail_size_def\<close>)
  with m' that show thesis by (simp add: grows_def)
qed

lemma writes_printf:
  "tm_ok m \<Longrightarrow> NUL \<notin> set s \<Longrightarrow> s \<noteq> [] \<Longrightarrow> int (length s) \<le> INT_MAX \<Longrightarrow> writes m (tm_printf s m)"
  by (rule printf_ok) (auto intro: writesI)

lemma rewind_ok:
  assumes "tm_ok m" "tm_ok m'" "grows m m'" "write_index m \<le> i" "i \<le> write_index m'"
  obtains m'' where "rewind i m' = Some m''" "grows m m''" "sealed m''" "write_index m'' = i"
    "tm_text m'' = take (nat i) (tm_text m')"
proof -
  from rewind_spec [OF assms(2), of i] assms(5) obtain m'' where r: "rewind i m' = Some m''" "tm_ok m''" "tm_closed m''"
    "tm_capacity m'' = tm_capacity m'" "limit_index m'' = limit_index m'" "write_index m'' = clip i 0 (limit_index m')"
    "tm_text m'' = take (nat i) (tm_text m')" by auto
  have same: "tm_severity m'' = tm_severity m'" "tm_timestamp m'' = tm_timestamp m'"
    using r(1) by (auto simp: rewind_def Let_def bind_eq_Some_conv)
  from assms(3) obtain x where x: "tm_text m' = tm_text m @ x" by (auto simp: grows_def)
  have "length (tm_text m) \<le> nat i" using assms(4) text_length [OF assms(1)] by linarith
  then have "\<exists>y. tm_text m'' = tm_text m @ y" using r(7) x by (simp add: take_append)
  moreover have "write_index m'' = i"
    using r(6) assms(1,2,4,5) by (auto simp: clip_def tm_ok_def)
  ultimately show thesis using that r same assms(3) by (simp add: grows_def sealed_def)
qed

text \<open>The intermediate results of the code that it does not look at.\<close>

lemma bind_writes:
  assumes "writes m r" "\<And>ok m'. r = Some (ok, m') \<Longrightarrow> grows m m' \<Longrightarrow> sealed m' \<Longrightarrow> writes m' (k (ok, m'))"
  shows "writes m (do { x \<leftarrow> r; k x })"
proof -
  from assms(1) obtain ok m' where r: "r = Some (ok, m')" "grows m m'" "sealed m'" by (auto simp: writes_def)
  with assms(2) obtain ok' m'' where "k (ok, m') = Some (ok', m'')" "grows m' m''" "sealed m''"
    unfolding writes_def by blast
  with r show ?thesis using grows_trans by (auto simp: writes_def)
qed

lemma grows_ok: "grows m m' \<Longrightarrow> tm_ok m'"
  by (simp add: grows_def)

lemma writes_return: "tm_ok m \<Longrightarrow> sealed m \<Longrightarrow> writes m (Some (ok, m))"
  by (auto intro: writesI grows_refl)

lemma writes_fail_then:
  assumes "grows m0 m" "writes m r"
  shows "writes m0 r"
  using assms by (auto simp: writes_def intro: grows_trans)

declare tm_write.simps [simp del]

section \<open>Simple values\<close>

lemma hex_char_not_NUL: "d < 16 \<Longrightarrow> hex_char d \<noteq> NUL"
proof
  assume d: "d < 16" and "hex_char d = NUL"
  then have "\<not> d < 10" using digit_char_not_NUL [of d] by (auto simp: hex_char_def)
  with \<open>hex_char d = NUL\<close> have "of_char (char_of (87 + d)) = (of_char NUL :: nat)" by (simp add: hex_char_def)
  with d show False by simp
qed

lemma fmt_x_no_NUL [no_NUL]: "NUL \<notin> set (fmt_x n)"
proof (induction n rule: fmt_x.induct)
  case (1 n)
  then show ?case using hex_char_not_NUL [of n] hex_char_not_NUL [of "n mod 16"] by (subst fmt_x.simps) auto
qed

lemma fmt_x_length: "n < 16 ^ Suc k \<Longrightarrow> length (fmt_x n) \<le> Suc k"
proof (induction k arbitrary: n)
  case 0
  then show ?case by (subst fmt_x.simps) simp
next
  case (Suc k)
  then have "n div 16 < 16 ^ Suc k" by (simp add: less_mult_imp_div_less)
  from Suc.IH [OF this] show ?case by (subst fmt_x.simps) simp
qed

lemma fmt_x_nonempty: "fmt_x n \<noteq> []"
  by (subst fmt_x.simps) simp

text \<open>What is assumed of an object and of the interpreter's \<open>repr\<close>: names are C strings of a
  sensible length, numbers and addresses have 64 bits, and \<open>repr\<close> quotes a string and writes at most
  ten characters for one of it.\<close>

definition name_ok :: "string \<Rightarrow> bool" where
  "name_ok s \<longleftrightarrow> NUL \<notin> set s \<and> length s < 2 ^ 30"

fun obj_ok :: "pyobj \<Rightarrow> bool" where
  "obj_ok (PyInt i) \<longleftrightarrow> nat \<bar>i\<bar> < 2 ^ 64"
| "obj_ok (PyFloat s) \<longleftrightarrow> name_ok s"
| "obj_ok (PyDict sub kvs) \<longleftrightarrow> (case sub of None \<Rightarrow> True | Some (tp_name, a) \<Rightarrow> name_ok tp_name \<and> a < 2 ^ 64) \<and>
     length kvs < 2147483648 \<and> (\<forall>(k, v) \<in> set kvs. obj_ok k \<and> obj_ok v)"
| "obj_ok (PyList xs) \<longleftrightarrow> length xs < 2147483648 \<and> (\<forall>x \<in> set xs. obj_ok x)"
| "obj_ok (PyTuple xs) \<longleftrightarrow> length xs < 2147483648 \<and> (\<forall>x \<in> set xs. obj_ok x)"
| "obj_ok (PyFunction f) \<longleftrightarrow> name_ok f"
| "obj_ok (PyMethod func klass self) \<longleftrightarrow> pred_option name_ok func \<and> pred_option name_ok klass \<and> pred_option (\<lambda>a. a < 2 ^ 64) self"
| "obj_ok (PyType name) \<longleftrightarrow> name_ok name"
| "obj_ok (PyOther tp_name a) \<longleftrightarrow> name_ok tp_name \<and> a < 2 ^ 64"
| "obj_ok x \<longleftrightarrow> True"

definition repr_ok :: "(bool \<Rightarrow> string \<Rightarrow> string) \<Rightarrow> bool" where
  "repr_ok rp \<longleftrightarrow> (\<forall>u s. rp u s \<noteq> [] \<and> NUL \<notin> set (rp u s) \<and> length (rp u s) \<le> 10 * length s + 3)"

lemma fmt_d_nonempty: "fmt_d i \<noteq> []"
  using fmt_u_nonempty by (simp add: fmt_d_def)

lemma trunc_no_NUL [no_NUL]: "NUL \<notin> set (init_trunc_len_str n)"
  by (simp add: init_trunc_len_str_def no_NUL)

lemma trunc_length: "length (init_trunc_len_str n) \<le> 21" "0 < length (init_trunc_len_str n)"
proof -
  have "- (2 ^ 31) \<le> int_of_size n" "int_of_size n < 2 ^ 31"
    unfolding int_of_size_def using sint_greater_eq [of "word_of_nat n :: 32 word"] sint_less [of "word_of_nat n :: 32 word"] by auto
  then have "nat \<bar>int_of_size n\<bar> < 10 ^ Suc 9" by auto
  then show "length (init_trunc_len_str n) \<le> 21" using fmt_d_length [of "int_of_size n" 9] by (simp add: init_trunc_len_str_def)
  show "0 < length (init_trunc_len_str n)" by (simp add: init_trunc_len_str_def)
qed

lemma int_repr_ok:
  assumes "tm_ok m" "nat \<bar>i\<bar> < 2 ^ 64"
  shows "writes m (int_repr i m)"
proof -
  have "nat \<bar>i\<bar> < 10 ^ Suc 19" using assms(2) by simp
  from fmt_d_length [OF this] fmt_d_no_NUL fmt_d_nonempty assms(1) show ?thesis
    unfolding int_repr_def by (intro writes_printf) auto
qed

lemma long_repr_ok: "tm_ok m \<Longrightarrow> sealed m \<Longrightarrow> writes m (long_repr i m)"
  by (auto simp: long_repr_def Let_def no_NUL intro: writes_write writes_return)

lemma float_repr_ok: "tm_ok m \<Longrightarrow> sealed m \<Longrightarrow> name_ok s \<Longrightarrow> writes m (float_repr s m)"
  unfolding float_repr_def name_ok_def
  by (auto intro!: bind_writes writes_write writes_return dest: grows_ok)

lemma obj_repr_ok:
  assumes "tm_ok m" "name_ok tp_name" "a < 2 ^ 64"
  shows "writes m (obj_repr tp_name a m)"
  using assms fmt_x_length [of a 15] fmt_x_no_NUL [of a]
  unfolding obj_repr_def name_ok_def by (intro writes_printf) auto

lemma str_repr_ok:
  assumes "tm_ok m" "sealed m" "repr_ok rp"
  shows "writes m (str_or_unicode_repr rp u s m)"
proof -
  let ?s = "if length s > MAX_STR_LEN then take MAX_STR_LEN s else s"
  have r: "rp u ?s \<noteq> []" "NUL \<notin> set (rp u ?s)" "length (rp u ?s) \<le> 643"
    using assms(3) order_trans [of "length (rp u ?s)" "10 * length ?s + 3" 643] unfolding repr_ok_def by simp_all
  have t: "length (init_trunc_len_str (length s)) \<le> 21" by (rule trunc_length)
  note av = avail_le [OF assms(1)]
  show ?thesis
    unfolding str_or_unicode_repr_def Let_def
    using r t trunc_no_NUL av by (auto intro!: writes_printf writes_return assms dest: in_set_takeD)
qed

lemma fallback_ok:
  assumes "tm_ok m" "grows m m'" "NUL \<notin> set s"
  shows "writes m (do { m \<leftarrow> rewind (write_index m) m'; (ok, m) \<leftarrow> tm_write s m; Some (True, m) })"
proof -
  obtain m1 where m1: "rewind (write_index m) m' = Some m1" "grows m m1" "sealed m1"
    using assms(1) grows_ok [OF assms(2)] assms(2) order_refl grows_write_index [OF assms(1,2)] by (rule rewind_ok)
  have "writes m1 (do { (ok, m) \<leftarrow> tm_write s m1; Some (True, m) })"
    using grows_ok [OF m1(2)] assms(3) by (auto intro!: bind_writes writes_write writes_return dest: grows_ok)
  from writes_fail_then [OF m1(2) this] m1(1) show ?thesis by simp
qed

lemma name_repr_ok:
  assumes "tm_ok m" "sealed m" "NUL \<notin> set opening" "\<And>m. tm_ok m \<Longrightarrow> writes m (write_name m)"
  shows "writes m (name_repr opening write_name room m)"
proof (cases "avail_size m < room")
  case True
  then show ?thesis using assms(1,2) by (simp add: name_repr_def writes_return)
next
  case False
  have "writes m' (do {
      (ok, m'') \<leftarrow> write_name m';
      (if \<not> ok then do { m \<leftarrow> rewind (write_index m') m''; (ok, m) \<leftarrow> tm_write ''?>'' m; Some (True, m) }
       else do { (ok, m) \<leftarrow> tm_write ''>'' m''; Some (True, m) }) })" if "grows m m'" for m'
  proof -
    from assms(4) [OF grows_ok [OF that]] obtain ok m'' where n: "write_name m' = Some (ok, m'')" "grows m' m''"
      by (auto simp: writes_def)
    have "writes m'' (do { (ok, m) \<leftarrow> tm_write ''>'' m''; Some (True, m) })"
      using grows_ok [OF n(2)] by (auto intro!: bind_writes writes_write writes_return dest: grows_ok)
    then show ?thesis
      using n(1) fallback_ok [OF grows_ok [OF that] n(2), of "''?>''"] writes_fail_then [OF n(2)] by simp
  qed
  with False assms(1,3) show ?thesis
    by (auto simp: name_repr_def Let_def intro!: bind_writes [where r = "tm_write opening m"] writes_write)
qed

lemma function_name_ok: "tm_ok m \<Longrightarrow> pred_option name_ok f \<Longrightarrow> writes m (write_function_name f m)"
  by (cases f) (auto simp: write_function_name_def name_ok_def intro: writes_write)

lemma function_repr_ok: "tm_ok m \<Longrightarrow> sealed m \<Longrightarrow> name_ok f \<Longrightarrow> writes m (function_repr f m)"
  unfolding function_repr_def by (intro name_repr_ok function_name_ok) auto

lemma type_repr_ok: "tm_ok m \<Longrightarrow> sealed m \<Longrightarrow> name_ok f \<Longrightarrow> writes m (type_repr f m)"
  unfolding type_repr_def by (intro name_repr_ok writes_write) (auto simp: name_ok_def)

lemma if_success_ok:
  assumes "grows m (snd r)" "sealed (snd r)" "\<And>m'. tm_ok m' \<Longrightarrow> writes m' (k m')"
  shows "writes m (if_success r k)"
  using assms grows_ok [OF assms(1)]
  by (auto simp: if_success_def split: prod.split intro: writes_fail_then writesI)

text \<open>The chain of \<open>success\<close>: from a result to the next.\<close>

lemma chain_ok:
  assumes "grows m (snd r)" "sealed (snd r)" "\<And>m'. tm_ok m' \<Longrightarrow> writes m' (k m')"
  obtains r' where "if_success r k = Some r'" "grows m (snd r')" "sealed (snd r')"
  using if_success_ok [of m r k, OF assms] by (auto simp: writes_def)

lemma method_repr_ok:
  assumes "tm_ok m" "sealed m" "pred_option name_ok func" "pred_option name_ok klass" "pred_option (\<lambda>a. a < 2 ^ 64) self"
  shows "writes m (method_repr func klass self m)"
proof (cases "avail_size m < 11")
  case True
  then show ?thesis using assms(1,2) by (simp add: method_repr_def writes_return)
next
  case False
  obtain ok m0 where m0: "tm_write ''<meth '' m = Some (ok, m0)" "grows m m0"
    using writes_write [OF assms(1), of "''<meth ''"] by (auto simp: writes_def)
  note ok0 = grows_ok [OF m0(2)]
  obtain r1 where r1: "write_function_name func m0 = Some r1" "grows m0 (snd r1)" "sealed (snd r1)"
    using function_name_ok [OF ok0 assms(3)] by (auto simp: writes_def)
  obtain r2 where r2: "(case klass of None \<Rightarrow> Some r1
      | Some name \<Rightarrow> do { r \<leftarrow> if_success r1 (tm_write '' cls ''); if_success r (tm_write name) }) = Some r2"
    "grows m0 (snd r2)" "sealed (snd r2)"
  proof (cases klass)
    case (Some name)
    obtain r where r: "if_success r1 (tm_write '' cls '') = Some r" "grows m0 (snd r)" "sealed (snd r)"
      using r1(2,3) by (rule chain_ok) (auto intro: writes_write)
    obtain r' where "if_success r (tm_write name) = Some r'" "grows m0 (snd r')" "sealed (snd r')"
      using r(2,3) by (rule chain_ok) (use assms(4) Some in \<open>auto simp: name_ok_def intro: writes_write\<close>)
    with r Some that show ?thesis by simp
  qed (use r1 that in simp)
  obtain r3 where r3: "(case self of None \<Rightarrow> Some r2
      | Some a \<Rightarrow> if_success r2 (tm_printf ('' obj 0x'' @ fmt_x a))) = Some r3" "grows m0 (snd r3)" "sealed (snd r3)"
  proof (cases self)
    case (Some a)
    have "length (fmt_x a) \<le> 16" using fmt_x_length [of a 15] assms(5) Some by simp
    then have p: "writes m' (tm_printf ('' obj 0x'' @ fmt_x a) m')" if "tm_ok m'" for m'
      using that fmt_x_no_NUL by (intro writes_printf) auto
    obtain r' where "if_success r2 (tm_printf ('' obj 0x'' @ fmt_x a)) = Some r'" "grows m0 (snd r')" "sealed (snd r')"
      using r2(2,3) p by (rule chain_ok)
    with Some that show ?thesis by simp
  qed (use r2 that in simp)
  obtain r4 where r4: "if_success r3 (tm_write ''>'') = Some r4" "grows m0 (snd r4)" "sealed (snd r4)"
    using r3(2,3) by (rule chain_ok) (auto intro: writes_write)
  have "writes m0 (if \<not> fst r4 then do { m \<leftarrow> rewind (write_index m0) (snd r4); (ok, m) \<leftarrow> tm_write ''?>'' m; Some (True, m) }
      else Some (True, snd r4))"
    using fallback_ok [OF ok0 r4(2), of "''?>''"] r4(2,3) by (auto intro: writesI)
  from writes_fail_then [OF m0(2) this] show ?thesis
    using False m0(1) r1(1) r2(1) r3(1) r4(1) by (simp add: method_repr_def Let_def split_beta)
qed

section \<open>Containers\<close>

lemma limit_grows:
  assumes "tm_ok m"
  shows "tm_ok (snd (limit n m))" "tm_text (snd (limit n m)) = tm_text m" "sealed m \<Longrightarrow> sealed (snd (limit n m))"
    "fst (limit n m) = limit_index m" "limit_index (snd (limit n m)) \<le> limit_index m"
proof -
  show "tm_ok (snd (limit n m))" using assms by (rule tm_ok_limit)
  have a: "0 \<le> clip n 0 (avail_size m)" "clip n 0 (avail_size m) \<le> avail_size m"
    using avail_nonneg [OF assms] clip_bounds [of 0 "avail_size m" n] by auto
  then show "limit_index (snd (limit n m)) \<le> limit_index m" by (simp add: limit_def avail_size_def)
  show "sealed m \<Longrightarrow> sealed (snd (limit n m))"
    using a by (auto simp: sealed_def limit_def tm_closed_def tm_bytes_def avail_size_def)
qed (simp_all add: limit_def tm_text_def tm_bytes_def)

lemma limited_ok:
  assumes "tm_ok m" "writes (snd (limit n m)) (f (snd (limit n m)))"
  shows "\<exists>ok m'. limited n f m = Some (ok, m') \<and> grows m m'"
proof -
  let ?m = "snd (limit n m)"
  obtain ok m1 where m1: "f ?m = Some (ok, m1)" "grows ?m m1" using assms(2) by (auto simp: writes_def)
  note l = limit_grows [OF assms(1), of n]
  have c: "clip (limit_index m) 0 (tm_capacity m) = limit_index m"
    using assms(1) by (auto simp: clip_def tm_ok_def)
  have cap: "tm_capacity ?m = tm_capacity m" "tm_severity ?m = tm_severity m" "tm_timestamp ?m = tm_timestamp m"
    by (simp_all add: limit_def)
  have "write_index m1 \<le> limit_index m" using m1(2) l(5) by (auto simp: grows_def tm_ok_def)
  then have "tm_ok (unlimit_to (limit_index m) m1)" using grows_ok [OF m1(2)] by (rule tm_ok_unlimit_to [rotated])
  moreover have "tm_text (unlimit_to (limit_index m) m1) = tm_text m1" by (simp add: unlimit_to_def tm_text_def tm_bytes_def)
  ultimately have "grows m (unlimit_to (limit_index m) m1)"
    using m1(2) l(2) c cap by (simp add: grows_def) (simp add: unlimit_to_def)
  moreover have "limited n f m = Some (ok, unlimit_to (limit_index m) m1)"
    using m1(1) l(4) by (simp add: limited_def split_beta)
  ultimately show ?thesis by blast
qed

text \<open>An offset from which the closing bracket and the length still fit.\<close>

definition room_at :: "int \<Rightarrow> int \<Rightarrow> int \<Rightarrow> trace_message \<Rightarrow> bool" where
  "room_at start tlen ofs m \<longleftrightarrow> start \<le> ofs \<and> ofs \<le> write_index m \<and> ofs + tlen + 2 \<le> limit_index m"

lemma room_at_grows: "room_at start tlen ofs m \<Longrightarrow> tm_ok m \<Longrightarrow> grows m m' \<Longrightarrow> room_at start tlen ofs m'"
  using grows_write_index [of m m'] by (auto simp: room_at_def grows_def)

lemma room_at_here:
  "tm_ok m \<Longrightarrow> start \<le> write_index m \<Longrightarrow> avail_size m \<ge> tlen + 2 \<or> room_at start tlen ofs m \<Longrightarrow>
   room_at start tlen (if avail_size m \<ge> tlen + 2 then write_index m else ofs) m"
  by (auto simp: room_at_def avail_size_def)

definition loop_result :: "int \<Rightarrow> int \<Rightarrow> nat \<Rightarrow> trace_message \<Rightarrow> (nat \<times> int \<times> bool \<times> trace_message) option \<Rightarrow> bool" where
  "loop_result start tlen n m r \<longleftrightarrow> (\<exists>i ofs tr m'. r = Some (i, ofs, tr, m') \<and> i \<le> n \<and> grows m m' \<and> room_at start tlen ofs m')"

lemma loop_result_trans:
  assumes "loop_result start tlen n m' r" "grows m m'" "n \<le> k"
  shows "loop_result start tlen k m r"
proof -
  from assms(1) obtain i ofs tr m1 where "r = Some (i, ofs, tr, m1)" "i \<le> n" "grows m' m1" "room_at start tlen ofs m1"
    unfolding loop_result_def by blast
  moreover from this(3) assms(2) have "grows m m1" by (blast intro: grows_trans)
  ultimately show ?thesis using assms(3) unfolding loop_result_def by fastforce
qed

lemma list_items_ok:
  assumes "\<forall>x \<in> set xs. \<forall>m. tm_ok m \<longrightarrow> sealed m \<longrightarrow> writes m (fast_repr rp x m)"
    and "tm_ok m" "i = 0 \<longrightarrow> sealed m" "start \<le> write_index m"
    and "room_at start tlen ofs m \<or> (n \<noteq> 0 \<and> xs \<noteq> [] \<and> avail_size m \<ge> tlen + 2)"
    and "n \<le> length xs"
  shows "loop_result start tlen (i + n - 1) m (list_items rp n i tlen ofs xs m)"
  using assms
proof (induction n arbitrary: i ofs xs m)
  case 0
  then show ?case by (auto simp: loop_result_def intro: grows_refl)
next
  case (Suc n)
  show ?case
  proof (cases xs)
    case Nil
    with Suc.prems(6) show ?thesis by simp
  next
    case (Cons x ys)
    let ?ofs = "if avail_size m \<ge> tlen + 2 then write_index m else ofs"
    let ?f = "\<lambda>m. do { (ok, m) \<leftarrow> (if i > 0 then tm_write '','' m else Some (True, m));
        (if ok then fast_repr rp x m else Some (False, m)) }"
    let ?l = "snd (limit MAX_LIST_ELEM_LEN m)"
    have x: "\<forall>m. tm_ok m \<longrightarrow> sealed m \<longrightarrow> writes m (fast_repr rp x m)" using Suc.prems(1) Cons by simp
    have "writes ?l (?f ?l)"
    proof (cases "i > 0")
      case True
      have "writes ?l (tm_write '','' ?l)" using limit_grows(1) [OF Suc.prems(2)] by (rule writes_write) simp
      then have "writes ?l (do { (ok, m) \<leftarrow> tm_write '','' ?l; (if ok then fast_repr rp x m else Some (False, m)) })"
        by (rule bind_writes) (use x in \<open>auto intro: writes_return dest: grows_ok\<close>)
      with True show ?thesis by simp
    next
      case False
      then show ?thesis using x limit_grows(1,3) [OF Suc.prems(2)] Suc.prems(3) by simp
    qed
    from limited_ok [where f = ?f, OF Suc.prems(2) this] obtain ok m1 where m1: "limited MAX_LIST_ELEM_LEN ?f m = Some (ok, m1)" "grows m m1"
      by blast
    have room: "room_at start tlen ?ofs m1"
      using room_at_here [OF Suc.prems(2,4)] Suc.prems(2,5) m1(2) by (blast intro: room_at_grows)
    have eq: "list_items rp (Suc n) i tlen ofs xs m =
        (if ok then list_items rp n (i + 1) tlen ?ofs ys m1 else Some (i, ?ofs, True, m1))"
      using m1(1) by (simp add: Cons Let_def)
    show ?thesis
    proof (cases ok)
      case True
      have "loop_result start tlen (i + 1 + n - 1) m1 (list_items rp n (i + 1) tlen ?ofs ys m1)"
        using Suc.prems(1) Cons grows_ok [OF m1(2)] grows_write_index [OF Suc.prems(2) m1(2)] Suc.prems(4,6) room
        by (intro Suc.IH) auto
      with True m1(2) show ?thesis unfolding eq by (auto elim: loop_result_trans)
    next
      case False
      with m1(2) room show ?thesis unfolding eq by (auto simp: loop_result_def)
    qed
  qed
qed

lemma dict_items_ok:
  assumes "\<forall>kv \<in> set kvs. \<forall>m. tm_ok m \<longrightarrow> sealed m \<longrightarrow> writes m (fast_repr rp (fst kv) m) \<and> writes m (fast_repr rp (snd kv) m)"
    and "tm_ok m" "i = 0 \<longrightarrow> sealed m" "start \<le> write_index m"
    and "room_at start tlen ofs m \<or> (n \<noteq> 0 \<and> kvs \<noteq> [] \<and> avail_size m \<ge> tlen + 2)"
  shows "loop_result start tlen (i + n - 1) m (dict_items rp n i tlen ofs kvs m)"
  using assms
proof (induction n arbitrary: i ofs kvs m)
  case 0
  then show ?case by (auto simp: loop_result_def intro: grows_refl)
next
  case (Suc n)
  show ?case
  proof (cases kvs)
    case Nil
    with Suc.prems show ?thesis by (auto simp: loop_result_def intro: grows_refl)
  next
    case (Cons kv ys)
    let ?ofs = "if avail_size m \<ge> tlen + 2 then write_index m else ofs"
    have kv: "writes m (fast_repr rp (fst kv) m)" "writes m (fast_repr rp (snd kv) m)" if "tm_ok m" "sealed m" for m
      using Suc.prems(1) Cons that by simp_all
    have part: "\<exists>ok m'. limited k (fast_repr rp x) m = Some (ok, m') \<and> grows m m'"
      if "x = fst kv \<or> x = snd kv" "tm_ok m" "sealed m" for x k m
      using limited_ok [OF that(2)] kv limit_grows(1,3) [OF that(2)] that(1,3) by blast
    obtain ok1 m1 where m1: "(if i > 0 then tm_write '','' m else Some (True, m)) = Some (ok1, m1)" "grows m m1" "sealed m1"
      using writes_write [OF Suc.prems(2), of "'',''"] Suc.prems(2,3) grows_refl
      by (cases "i > 0") (auto simp: writes_def)
    obtain ok2 m2 where m2: "(if ok1 then limited MAX_DICT_KEY_LEN (fast_repr rp (fst kv)) m1 else Some (False, m1)) = Some (ok2, m2)"
      "grows m m2"
      using part [of "fst kv" m1 MAX_DICT_KEY_LEN] grows_ok [OF m1(2)] m1(2,3) grows_trans by (cases ok1) auto
    obtain ok3 m3 where m3: "(if ok2 then tm_write '':'' m2 else Some (False, m2)) = Some (ok3, m3)"
      "grows m m3" "ok3 \<longrightarrow> sealed m3"
      using writes_write [OF grows_ok [OF m2(2)], of "'':''"] m2(2) grows_trans by (cases ok2) (auto simp: writes_def)
    obtain ok4 m4 where m4: "(if ok3 then limited MAX_DICT_VAL_LEN (fast_repr rp (snd kv)) m3 else Some (False, m3)) = Some (ok4, m4)"
      "grows m m4"
      using part [of "snd kv" m3 MAX_DICT_VAL_LEN] grows_ok [OF m3(2)] m3(2,3) grows_trans by (cases ok3) auto
    have room: "room_at start tlen ?ofs m4"
      using room_at_here [OF Suc.prems(2,4)] Suc.prems(2,5) m4(2) by (blast intro: room_at_grows)
    have eq: "dict_items rp (Suc n) i tlen ofs kvs m =
        (if ok4 then dict_items rp n (i + 1) tlen ?ofs ys m4 else Some (i, ?ofs, True, m4))"
      using m1(1) m2(1) m3(1) m4(1) by (simp add: Cons Let_def)
    show ?thesis
    proof (cases ok4)
      case True
      have "loop_result start tlen (i + 1 + n - 1) m4 (dict_items rp n (i + 1) tlen ?ofs ys m4)"
        using Suc.prems(1) Cons grows_ok [OF m4(2)] grows_write_index [OF Suc.prems(2) m4(2)] Suc.prems(4) room
        by (intro Suc.IH) auto
      with True m4(2) show ?thesis unfolding eq by (auto elim: loop_result_trans)
    next
      case False
      with m4(2) room show ?thesis unfolding eq by (auto simp: loop_result_def)
    qed
  qed
qed

text \<open>Around the loop: the value is closed, and says how long the container was when it left
  something out.\<close>

lemma with_mark_ok:
  assumes m1: "tm_ok m1" and m2: "grows m1 m2" "room_at (write_index m1) (int (length (init_trunc_len_str len))) ofs m2"
    and m3: "grows m2 m3" and paren: "length close_paren = 1" "NUL \<notin> set close_paren"
  obtains m' x where "with_mark close_paren (init_trunc_len_str len) ofs m3 = Some (True, m')" "grows m1 m'" "sealed m'"
    "tm_text m' = tm_text m1 @ x @ init_trunc_len_str len"
proof -
  let ?b = "init_trunc_len_str len"
  note ok2 = grows_ok [OF m2(1)] and ok3 = grows_ok [OF m3] and g3 = grows_trans [OF m2(1) m3]
  show thesis
  proof (cases "avail_size m3 < int (length ?b)")
    case True
    have "write_index m1 \<le> ofs" "ofs \<le> write_index m3"
      using m2(2) grows_write_index [OF ok2 m3] by (auto simp: room_at_def)
    with m1 ok3 g3 obtain m4 where m4: "rewind ofs m3 = Some m4" "grows m1 m4" "sealed m4" "write_index m4 = ofs"
      by (rule rewind_ok)
    have b: "NUL \<notin> set (close_paren @ ?b)" "close_paren @ ?b \<noteq> []" "int (length (close_paren @ ?b)) \<le> INT_MAX"
      using paren trunc_no_NUL trunc_length [of len] by auto
    obtain m5 where m5: "tm_printf (close_paren @ ?b) m4 = Some (int (length (close_paren @ ?b)) \<le> avail_size m4, m5)"
      "grows m4 m5" "sealed m5" "int (length (close_paren @ ?b)) < avail_size m4 \<longrightarrow> tm_text m5 = tm_text m4 @ close_paren @ ?b"
      using grows_ok [OF m4(2)] b by (rule printf_ok)
    have "limit_index m4 = limit_index m2" using m4(2) m2(1) by (simp add: grows_def)
    then have "int (length (close_paren @ ?b)) < avail_size m4"
      using m2(2) m4(4) paren(1) by (simp add: room_at_def avail_size_def)
    moreover obtain x where "tm_text m4 = tm_text m1 @ x" using m4(2) by (auto simp: grows_def)
    ultimately have "tm_text m5 = tm_text m1 @ (x @ close_paren) @ ?b" using m5(4) by simp
    moreover have "with_mark close_paren ?b ofs m3 = Some (True, m5)" using True m4(1) m5(1) by (simp add: with_mark_def)
    ultimately show thesis using that grows_trans [OF m4(2) m5(2)] m5(3) by blast
  next
    case False
    obtain m4 where m4: "tm_write ?b m3 = Some (int (length ?b) < avail_size m3, m4)" "grows m3 m4" "sealed m4"
      "tm_text m4 = tm_text m3 @ take (nat (avail_size m3)) ?b" using ok3 trunc_no_NUL by (rule write_ok)
    obtain x where "tm_text m3 = tm_text m1 @ x" using g3 by (auto simp: grows_def)
    then have "tm_text m4 = tm_text m1 @ x @ ?b" using m4(4) False by simp
    moreover have "with_mark close_paren ?b ofs m3 = Some (True, m4)" using False m4(1) by (simp add: with_mark_def)
    ultimately show thesis using that grows_trans [OF g3 m4(2)] m4(3) by blast
  qed
qed

lemma open_paren_ok:
  assumes "tm_ok m" "length open_paren = 1" "NUL \<notin> set open_paren" "n + 3 \<le> avail_size m" "0 \<le> n"
  obtains m1 where "tm_write open_paren m = Some (True, m1)" "grows m m1" "sealed m1"
    "tm_text m1 = tm_text m @ open_paren" "avail_size m1 \<ge> n + 2"
proof -
  obtain m1 where m1: "tm_write open_paren m = Some (int (length open_paren) < avail_size m, m1)" "grows m m1" "sealed m1"
    "tm_text m1 = tm_text m @ take (nat (avail_size m)) open_paren" using assms(1,3) by (rule write_ok)
  have t1: "tm_text m1 = tm_text m @ open_paren" using m1(4) assms(2,4,5) by simp
  have "write_index m1 = write_index m + 1"
    using t1 text_length [OF assms(1)] text_length [OF grows_ok [OF m1(2)]] assms(2) by simp
  then have "avail_size m1 \<ge> n + 2" using assms(4) m1(2) by (simp add: avail_size_def grows_def)
  with m1 t1 assms(2,4,5) show thesis by (intro that) simp_all
qed

lemma items_repr_ok:
  assumes m: "tm_ok m" "sealed m" and paren: "length open_paren = 1" "length close_paren = 1"
      "NUL \<notin> set open_paren" "NUL \<notin> set close_paren"
    and its: "\<And>m. tm_ok m \<Longrightarrow> sealed m \<Longrightarrow> avail_size m \<ge> int (length (init_trunc_len_str len)) + 2 \<Longrightarrow>
      loop_result (write_index m) (int (length (init_trunc_len_str len))) 3 m (items (int (length (init_trunc_len_str len))) m) \<or>
      (len = 0 \<and> items (int (length (init_trunc_len_str len))) m = Some (0, 0, False, m))"
  shows "writes m (items_repr open_paren close_paren len items m)"
    and "items_repr open_paren close_paren len items m = Some (True, m') \<Longrightarrow> 4 < len \<Longrightarrow>
      \<exists>x. tm_text m' = tm_text m @ open_paren @ x @ init_trunc_len_str len"
proof -
  let ?b = "init_trunc_len_str len" and ?r = "items_repr open_paren close_paren len items m"
  let ?t = "int (length ?b)"
  have "writes m ?r \<and> (\<forall>m'. ?r = Some (True, m') \<longrightarrow> 4 < len \<longrightarrow> (\<exists>x. tm_text m' = tm_text m @ open_paren @ x @ ?b))"
  proof (cases "?t + 3 > avail_size m")
    case True
    then have "?r = Some (False, m)" by (simp add: items_repr_def Let_def)
    with m show ?thesis by (simp add: writes_return)
  next
    case False
    then obtain m1 where m1: "tm_write open_paren m = Some (True, m1)" "grows m m1" "sealed m1"
      "tm_text m1 = tm_text m @ open_paren" "avail_size m1 \<ge> ?t + 2"
      using open_paren_ok [OF m(1) paren(1,3), of ?t] by (auto simp: not_less)
    note ok1 = grows_ok [OF m1(2)]
    consider (loop) i ofs tr m2 where "items ?t m1 = Some (i, ofs, tr, m2)" "i \<le> 3" "grows m1 m2" "room_at (write_index m1) ?t ofs m2"
      | (empty) "len = 0" "items ?t m1 = Some (0, 0, False, m1)"
      using its [OF ok1 m1(3,5)] by (auto simp: loop_result_def)
    then show ?thesis
    proof cases
      case empty
      obtain m3 where m3: "tm_write close_paren m1 = Some (int (length close_paren) < avail_size m1, m3)" "grows m1 m3" "sealed m3"
        using write_ok [OF ok1 paren(4)] by metis
      have "?r = Some (True, m3)" using False m1(1,5) empty m3(1) paren(2) by (simp add: items_repr_def Let_def)
      then show ?thesis using empty(1) m3 grows_trans [OF m1(2)] by (auto intro: writesI)
    next
      case (loop i ofs tr m2)
      obtain m3 where m3: "tm_write close_paren m2 = Some (int (length close_paren) < avail_size m2, m3)" "grows m2 m3" "sealed m3"
        using write_ok [OF grows_ok [OF loop(3)] paren(4)] by metis
      let ?cut = "i + 1 < len \<or> tr \<or> \<not> int (length close_paren) < avail_size m2"
      have r: "?r = (if ?cut then with_mark close_paren ?b ofs m3 else Some (True, m3))"
        using False m1(1) loop(1) m3(1) by (simp add: items_repr_def Let_def)
      show ?thesis
      proof (cases ?cut)
        case False
        then have "?r = Some (True, m3)" unfolding r by (simp only: if_False)
        then show ?thesis using False loop(2) m3(3) grows_trans [OF m1(2) grows_trans [OF loop(3) m3(2)]] by (auto intro: writesI)
      next
        case True
        obtain m4 x where m4: "with_mark close_paren ?b ofs m3 = Some (True, m4)" "grows m1 m4" "sealed m4"
          "tm_text m4 = tm_text m1 @ x @ ?b"
          using ok1 loop(3,4) m3(2) paren(2,4) by (rule with_mark_ok)
        have "?r = Some (True, m4)" unfolding r using True m4(1) by simp
        then show ?thesis using m4(3,4) m1(4) grows_trans [OF m1(2) m4(2)] by (auto intro: writesI)
      qed
    qed
  qed
  then show "writes m ?r" "?r = Some (True, m') \<Longrightarrow> 4 < len \<Longrightarrow> \<exists>x. tm_text m' = tm_text m @ open_paren @ x @ ?b"
    by blast+
qed

lemma passes_small: "len < 2147483648 \<Longrightarrow> passes k len = min len k"
  by (simp add: passes_def)

text \<open>A container of \<open>2 ^ 31\<close> elements or more, up to \<open>2 ^ 32\<close>, is shown without any.\<close>

lemma passes_huge: "2147483648 \<le> len \<Longrightarrow> len < 4294967296 \<Longrightarrow> passes k len = 0"
proof -
  assume len: "2147483648 \<le> len" "len < 4294967296"
  have z: "(4294967296 :: u32) = 0" by code_simp
  have "word_of_int (int len - 4294967296) = (word_of_nat len :: u32)"
    by (simp only: of_int_diff of_int_of_nat_eq of_int_numeral z diff_zero)
  moreover have s: "sint (word_of_int q :: u32) = q" if "- 2147483648 \<le> q" "q < 2147483648" for q :: int
    using that by (simp add: signed_of_int signed_take_bit_int_eq_self)
  have "sint (word_of_int (int len - 4294967296) :: u32) = int len - 4294967296"
    by (rule s) (use len in linarith)+
  ultimately have "sint (word_of_nat len :: u32) = int len - 4294967296" by (simp only:)
  then show ?thesis using len by (simp add: int_of_size_def passes_def)
qed

lemma loop_result_le: "loop_result start tlen k m r \<Longrightarrow> k \<le> k' \<Longrightarrow> loop_result start tlen k' m r"
  by (auto simp: loop_result_def intro: order_trans)

lemma list_loop:
  assumes "length xs < 2147483648" and "\<forall>x \<in> set xs. \<forall>m. tm_ok m \<longrightarrow> sealed m \<longrightarrow> writes m (fast_repr rp x m)"
    and "tm_ok m" "sealed m" "avail_size m \<ge> tlen + 2"
  shows "loop_result (write_index m) tlen 3 m (list_items rp (passes MAX_LIST_ELEMS (length xs)) 0 tlen 0 xs m) \<or>
    (length xs = 0 \<and> list_items rp (passes MAX_LIST_ELEMS (length xs)) 0 tlen 0 xs m = Some (0, 0, False, m))"
proof (cases xs)
  case Nil
  then show ?thesis by (simp add: passes_def)
next
  case (Cons x ys)
  have "loop_result (write_index m) tlen (0 + min (length xs) 4 - 1) m (list_items rp (min (length xs) 4) 0 tlen 0 xs m)"
    using assms(4,5) Cons by (intro list_items_ok [OF assms(2,3)]) simp_all
  then show ?thesis unfolding passes_small [OF assms(1)] by (intro disjI1, rule loop_result_le) simp
qed

lemma dict_loop:
  assumes "length kvs < 2147483648" and "\<forall>kv \<in> set kvs. \<forall>m. tm_ok m \<longrightarrow> sealed m \<longrightarrow> writes m (fast_repr rp (fst kv) m) \<and> writes m (fast_repr rp (snd kv) m)"
    and "tm_ok m" "sealed m" "avail_size m \<ge> tlen + 2"
  shows "loop_result (write_index m) tlen 3 m (dict_items rp (passes MAX_DICT_ELEMS (length kvs)) 0 tlen 0 kvs m) \<or>
    (length kvs = 0 \<and> dict_items rp (passes MAX_DICT_ELEMS (length kvs)) 0 tlen 0 kvs m = Some (0, 0, False, m))"
proof (cases kvs)
  case Nil
  then show ?thesis by (simp add: passes_def)
next
  case (Cons x ys)
  have "loop_result (write_index m) tlen (0 + min (length kvs) 4 - 1) m (dict_items rp (min (length kvs) 4) 0 tlen 0 kvs m)"
    using assms(4,5) Cons by (intro dict_items_ok [OF assms(2,3)]) simp_all
  then show ?thesis unfolding passes_small [OF assms(1)] by (intro disjI1, rule loop_result_le) simp
qed

lemma list_repr_ok:
  assumes small: "length xs < 2147483648" and "\<forall>x \<in> set xs. \<forall>m. tm_ok m \<longrightarrow> sealed m \<longrightarrow> writes m (fast_repr rp x m)" "tm_ok m" "sealed m"
  shows "writes m (list_or_tuple_repr is_list (length xs) (\<lambda>tlen. list_items rp (passes MAX_LIST_ELEMS (length xs)) 0 tlen 0 xs) m)"
    and "list_or_tuple_repr is_list (length xs) (\<lambda>tlen. list_items rp (passes MAX_LIST_ELEMS (length xs)) 0 tlen 0 xs) m = Some (True, m') \<Longrightarrow>
      4 < length xs \<Longrightarrow> \<exists>x. tm_text m' = tm_text m @ (if is_list then ''['' else ''('') @ x @ init_trunc_len_str (length xs)"
proof -
  note loop = list_loop [OF small assms(2)]
  show "writes m (list_or_tuple_repr is_list (length xs) (\<lambda>tlen. list_items rp (passes MAX_LIST_ELEMS (length xs)) 0 tlen 0 xs) m)"
    unfolding list_or_tuple_repr_def by (cases is_list; simp only: if_True if_False)
      (rule items_repr_ok(1) [OF assms(3,4)]; (simp; fail | rule loop; assumption))+
  show "list_or_tuple_repr is_list (length xs) (\<lambda>tlen. list_items rp (passes MAX_LIST_ELEMS (length xs)) 0 tlen 0 xs) m = Some (True, m') \<Longrightarrow>
      4 < length xs \<Longrightarrow> \<exists>x. tm_text m' = tm_text m @ (if is_list then ''['' else ''('') @ x @ init_trunc_len_str (length xs)"
    unfolding list_or_tuple_repr_def by (cases is_list; simp only: if_True if_False)
      (rule items_repr_ok(2) [OF assms(3,4)]; (simp; fail | rule loop; assumption | assumption))+
qed

lemma dict_repr_ok:
  assumes small: "length kvs < 2147483648" and "\<forall>kv \<in> set kvs. \<forall>m. tm_ok m \<longrightarrow> sealed m \<longrightarrow> writes m (fast_repr rp (fst kv) m) \<and> writes m (fast_repr rp (snd kv) m)"
    "tm_ok m" "sealed m"
  shows "writes m (dict_repr (length kvs) (\<lambda>tlen. dict_items rp (passes MAX_DICT_ELEMS (length kvs)) 0 tlen 0 kvs) m)"
  unfolding dict_repr_def
  by (rule items_repr_ok(1) [OF assms(3,4)]; (simp; fail | rule dict_loop [OF small assms(2)]; assumption))

lemma fast_repr_ok:
  assumes "repr_ok rp"
  shows "obj_ok x \<Longrightarrow> tm_ok m \<Longrightarrow> sealed m \<Longrightarrow> writes m (fast_repr rp x m)"
proof (induction x arbitrary: m)
  case (PyDict sub kvs)
  have kvs: "\<forall>kv \<in> set kvs. \<forall>m. tm_ok m \<longrightarrow> sealed m \<longrightarrow> writes m (fast_repr rp (fst kv) m) \<and> writes m (fast_repr rp (snd kv) m)"
    using PyDict.IH PyDict.prems(1) by (auto simp: split_beta fsts.simps snds.simps)
  have "writes m (case sub of None \<Rightarrow> Some (True, m) | Some (tp_name, a) \<Rightarrow> obj_repr tp_name a m)"
    using PyDict.prems by (auto split: option.split intro: obj_repr_ok writes_return)
  then show ?case
    by (simp only: fast_repr.simps) (rule bind_writes, assumption, use dict_repr_ok [OF _ kvs] PyDict.prems(1) in \<open>auto intro: writes_return dest: grows_ok\<close>)
next
  case (PyList xs)
  then show ?case using list_repr_ok(1) [of xs rp m True] by simp
next
  case (PyTuple xs)
  then show ?case using list_repr_ok(1) [of xs rp m False] by simp
qed (use assms in \<open>simp_all add: writes_write int_repr_ok long_repr_ok float_repr_ok str_repr_ok function_repr_ok
    method_repr_ok type_repr_ok obj_repr_ok\<close>)


section \<open>Properties\<close>

text \<open>C25: whatever object is traced, however deep, serialising it is defined, stays inside the buffer and
  below the limit, leaves what was written before, the limit, the capacity, the severity and the
  time as they were, and ends the text with a NUL unless the room is used up.  The names are C
  strings of less than 2^30 bytes, lists, tuples and dicts have fewer than 2^31 elements, and
  \<open>repr\<close> makes at most ten bytes of one.\<close>

theorem fast_repr_safe:
  assumes "repr_ok rp" "obj_ok x" "tm_ok m" "sealed m"
  shows "\<exists>ok m'. fast_repr rp x m = Some (ok, m') \<and> tm_ok m' \<and> (\<exists>s. tm_text m' = tm_text m @ s) \<and>
    limit_index m' = limit_index m \<and> tm_capacity m' = tm_capacity m \<and> tm_severity m' = tm_severity m \<and>
    tm_timestamp m' = tm_timestamp m \<and> (tm_closed m' \<or> write_index m' = limit_index m')"
  using fast_repr_ok [OF assms] by (auto simp: writes_def grows_def sealed_def)

definition quote_repr :: "bool \<Rightarrow> string \<Rightarrow> string" where
  "quote_repr is_unicode s =
     (if is_unicode then ''u'' else []) @ [CHR 0x27] @ List.filter (\<lambda>c. c \<noteq> NUL) s @ [CHR 0x27]"

lemma quote_repr_ok: "repr_ok quote_repr"
proof -
  have "length (List.filter (\<lambda>c. c \<noteq> NUL) s) \<le> Suc (10 * length s)" "length (List.filter (\<lambda>c. c \<noteq> NUL) s) \<le> 10 * length s"
    for s :: string using length_filter_le [of "\<lambda>c. c \<noteq> NUL" s] by linarith+
  then show ?thesis by (simp add: repr_ok_def quote_repr_def)
qed

definition sample_object :: pyobj where
  "sample_object = PyList [PyInt 1, PyStr True ''ab'', PyTuple [], PyDict None [(PyNone, PyFloat ''2.5'')], PyInt 5]"

definition line_message :: trace_message where
  "line_message = \<lparr>tm_capacity = 64, tm_buffer = Heap (replicate 65 NUL), write_index = 0, limit_index = 64,
     tm_severity = 0, tm_timestamp = 0\<rparr>"

lemma line_message_ok: "tm_ok line_message" "sealed line_message" "tm_text line_message = []"
  by (simp_all add: line_message_def tm_ok_def tm_alloc_def sealed_def tm_closed_def tm_text_def)

lemma sample_object_ok: "obj_ok sample_object"
  by (simp add: sample_object_def name_ok_def)

lemma sample_object_text:
  "(case fast_repr quote_repr sample_object line_message of
      Some (ok, m') \<Rightarrow> (ok, get_buffer m') = (True, Some ''[1,u'ab',(),{None:2.5f}]... <len=5>'') | None \<Rightarrow> False)"
  by code_simp

theorem fast_repr_safe_witness:
  "\<exists>m'. fast_repr quote_repr sample_object line_message = Some (True, m') \<and> limit_index m' = 64 \<and>
     get_buffer m' = Some ''[1,u'ab',(),{None:2.5f}]... <len=5>''"
  using fast_repr_safe [OF quote_repr_ok sample_object_ok line_message_ok(1,2)] sample_object_text
  by (auto simp: line_message_def)

text \<open>C26: a list or tuple of more than four elements (and fewer than 2^31) is never shown as if it were whole: whenever
  the call reports success, the text ends in the mark with the length of the list, also when the
  elements filled the room and had to be taken back.\<close>

theorem long_list_marked:
  assumes "repr_ok rp" "\<forall>x \<in> set xs. obj_ok x" "tm_ok m" "sealed m" "4 < length xs" "length xs < 2147483648"
    and "fast_repr rp (PyList xs) m = Some (True, m1)" "fast_repr rp (PyTuple xs) m = Some (True, m2)"
  shows "\<exists>s1 s2. tm_text m1 = tm_text m @ ''['' @ s1 @ ''... <len='' @ fmt_d (int_of_size (length xs)) @ ''>'' \<and>
    tm_text m2 = tm_text m @ ''('' @ s2 @ ''... <len='' @ fmt_d (int_of_size (length xs)) @ ''>''"
proof -
  have "\<forall>x \<in> set xs. \<forall>m. tm_ok m \<longrightarrow> sealed m \<longrightarrow> writes m (fast_repr rp x m)"
    using assms(1,2) fast_repr_ok by blast
  note marked = list_repr_ok(2) [OF assms(6) this assms(3,4) _ assms(5)]
  from marked [of True m1] marked [of False m2] assms(7,8) show ?thesis by (simp add: init_trunc_len_str_def)
qed

definition long_items :: "pyobj list" where
  "long_items = replicate 6 (PyStr False ''a long string'')"

lemma long_items_runs:
  "(case fast_repr quote_repr (PyList long_items) line_message of Some (ok, m') \<Rightarrow> ok | None \<Rightarrow> False)"
  "(case fast_repr quote_repr (PyTuple long_items) line_message of Some (ok, m') \<Rightarrow> ok | None \<Rightarrow> False)"
  by code_simp+

theorem long_list_marked_witness:
  "\<exists>m1 s. fast_repr quote_repr (PyList long_items) line_message = Some (True, m1) \<and>
     tm_text m1 = ''['' @ s @ ''... <len=6>''"
proof -
  obtain m1 m2 where m: "fast_repr quote_repr (PyList long_items) line_message = Some (True, m1)"
    "fast_repr quote_repr (PyTuple long_items) line_message = Some (True, m2)"
    using long_items_runs by (auto split: option.splits prod.splits)
  have "fmt_d (int_of_size (length long_items)) = ''6''" by code_simp
  with long_list_marked [OF quote_repr_ok _ line_message_ok(1,2) _ _ m] m(1) line_message_ok(3) show ?thesis
    by (auto simp: long_items_def)
qed

lemma get_buffer_cut:
  assumes "tm_ok m" "NUL \<in> set (tm_text m)"
  shows "get_buffer m = Some (takeWhile (\<lambda>c. c \<noteq> NUL) (tm_text m))"
proof -
  from assms(1) obtain cs where cs: "tm_buffer m = Heap cs" by (elim tm_okE)
  let ?w = "nat (write_index m)"
  have t: "tm_text m = take ?w cs" using cs by (simp add: tm_text_def)
  have "takeWhile (\<lambda>c. c \<noteq> NUL) (take ?w cs @ drop ?w cs) = takeWhile (\<lambda>c. c \<noteq> NUL) (take ?w cs)"
    using assms(2) t by (intro takeWhile_append1 [of NUL]) simp_all
  moreover have "NUL \<in> set cs" using assms(2) t by (metis in_set_takeD)
  ultimately show ?thesis using cs t by (simp add: get_buffer_def c_str_def)
qed

text \<open>C27: an object whose text is as long as the room under its limit hides the rest of the line:
  the call reports success, but the last byte of the text is the NUL of \<open>vsnprintf\<close>, so a reader
  never sees it, nor anything that is written after it once the limit is lifted.\<close>

theorem exact_fit_hides_rest:
  assumes "tm_ok m" "name_ok tp_name" "a < 2 ^ 64"
    and "int (length (''<'' @ tp_name @ '' 0x'' @ fmt_x a @ ''>'')) = avail_size m"
    and "fast_repr rp (PyOther tp_name a) m = Some (ok, m1)" "limit_index m \<le> l" "NUL \<notin> set s"
    and "tm_write s (unlimit_to l m1) = Some (ok', m2)"
  shows "ok \<and> get_buffer m2 = Some (takeWhile (\<lambda>c. c \<noteq> NUL) (tm_text m) @
      (if NUL \<in> set (tm_text m) then [] else ''<'' @ tp_name @ '' 0x'' @ fmt_x a))"
proof -
  let ?b = "''<'' @ tp_name @ '' 0x'' @ fmt_x a" let ?s = "?b @ ''>''"
  have no: "NUL \<notin> set ?b" using assms(2) fmt_x_no_NUL by (simp add: name_ok_def)
  have len: "int (length ?s) = avail_size m" using assms(4) by simp
  then have "int (length ?s) \<le> INT_MAX" using avail_le [OF assms(1)] by simp
  moreover have "NUL \<notin> set ?s" using no by simp
  ultimately obtain m' where m': "tm_printf ?s m = Some (int (length ?s) \<le> avail_size m, m')" "tm_ok m'"
    "limit_index m' = limit_index m"
    "int (length ?s) = avail_size m \<longrightarrow> tm_text m' = tm_text m @ butlast ?s @ [NUL]"
    using vnprintf_spec [OF assms(1) avail_nonneg [OF assms(1)], of ?s] unfolding tm_printf_def by auto
  have "Some (ok, m1) = Some (int (length ?s) \<le> avail_size m, m')"
    unfolding assms(5) [symmetric] m'(1) [symmetric] by (simp add: obj_repr_def)
  then have m1: "ok" "m1 = m'" using len by simp_all
  have t1: "tm_text m1 = tm_text m @ ?b @ [NUL]" using m'(4) len m1(2) by (simp add: butlast_append)
  have "write_index m1 \<le> l" using m'(2,3) m1(2) assms(6) by (auto elim!: tm_okE)
  then have u: "tm_ok (unlimit_to l m1)" using m'(2) m1(2) by (simp add: tm_ok_unlimit_to)
  have tu: "tm_text (unlimit_to l m1) = tm_text m1" by (simp add: unlimit_to_def tm_text_def tm_bytes_def)
  obtain m3 where "tm_write s (unlimit_to l m1) = Some (int (length s) < avail_size (unlimit_to l m1), m3)"
    "grows (unlimit_to l m1) m3" using u assms(7) by (rule write_ok)
  then have g: "grows (unlimit_to l m1) m2" using assms(8) by simp
  then obtain x where x: "tm_text m2 = tm_text m @ ?b @ NUL # x" using t1 tu by (auto simp: grows_def)
  have "get_buffer m2 = Some (takeWhile (\<lambda>c. c \<noteq> NUL) (tm_text m @ ?b @ NUL # x))"
    using get_buffer_cut [OF grows_ok [OF g]] x by simp
  also have "takeWhile (\<lambda>c. c \<noteq> NUL) (tm_text m @ ?b @ NUL # x) =
      takeWhile (\<lambda>c. c \<noteq> NUL) (tm_text m) @ (if NUL \<in> set (tm_text m) then [] else ?b)"
  proof (cases "NUL \<in> set (tm_text m)")
    case True
    then show ?thesis by (subst takeWhile_append1 [of NUL]) simp_all
  next
    case False
    then have "\<forall>c \<in> set (tm_text m). c \<noteq> NUL" by blast
    moreover have "\<forall>c \<in> set ?b. c \<noteq> NUL" using no by blast
    ultimately show ?thesis using False by (simp only: takeWhile_append2 if_False takeWhile_eq_all_conv [THEN iffD2]) (simp add: takeWhile_append takeWhile_eq_all_conv)
  qed
  finally show ?thesis using m1(1) by simp
qed

text \<open>A key of a dict that is an object has 32 bytes.\<close>

definition key_message :: trace_message where
  "key_message = snd (limit 32 line_message)"

lemma key_message_ok: "tm_ok key_message" "sealed key_message" "avail_size key_message = 32" "tm_text key_message = []"
    "limit_index key_message = 32"
  by (simp_all add: key_message_def line_message_def limit_def clip_def tm_ok_def tm_alloc_def tm_bytes_def sealed_def tm_closed_def
      tm_text_def avail_size_def)

lemma sample_address: "fmt_x 140234567890944 = ''7f8ae79ab800''"
  by (simp add: fmt_x.simps hex_char_def digit_char_def char_of_def bit_0)

theorem exact_fit_hides_rest_witness:
  "\<exists>m1 ok m2. fast_repr quote_repr (PyOther ''models.Customer'' 140234567890944) key_message = Some (True, m1) \<and>
     tm_write '':42}'' (unlimit_to 64 m1) = Some (ok, m2) \<and> get_buffer m2 = Some ''<models.Customer 0x7f8ae79ab800''"
proof -
  let ?x = "PyOther ''models.Customer'' 140234567890944"
  have x: "name_ok ''models.Customer''" "obj_ok ?x" by (simp_all add: name_ok_def)
  obtain ok m1 where m1: "fast_repr quote_repr ?x key_message = Some (ok, m1)" "grows key_message m1"
    using fast_repr_ok [OF quote_repr_ok x(2) key_message_ok(1,2)] by (auto simp: writes_def)
  have "tm_ok (unlimit_to 64 m1)"
    using m1(2) key_message_ok(5) by (intro tm_ok_unlimit_to) (auto simp: grows_def elim!: tm_okE)
  moreover have "NUL \<notin> set '':42}''" by simp
  ultimately obtain m2 where m2: "tm_write '':42}'' (unlimit_to 64 m1) =
      Some (int (length '':42}'') < avail_size (unlimit_to 64 m1), m2)" by (rule write_ok)
  have "ok \<and> get_buffer m2 = Some (takeWhile (\<lambda>c. c \<noteq> NUL) (tm_text key_message) @
      (if NUL \<in> set (tm_text key_message) then [] else ''<'' @ ''models.Customer'' @ '' 0x'' @ fmt_x 140234567890944))"
    by (rule exact_fit_hides_rest [OF key_message_ok(1) x(1) _ _ m1(1) _ _ m2])
      (simp_all add: key_message_ok sample_address)
  with m1(1) m2 key_message_ok(4) show ?thesis by (auto simp: sample_address)
qed

end
