(* ===== verification/Trace_Log.thy ===== *)
theory Trace_Log
  imports Serialize Call_Trees
begin

text \<open>
  \<open>ctracing_log.pyx\<close>: the line that is written into the ring buffer for a traced call or return:
  a header with the ids, the depth and the place in the code, and then, for the levels that want
  them, the arguments or the result.
\<close>

section \<open>Log lines\<close>

text \<open>What the code reads from a frame: the texts of the header, the local variables and the shape of
  the argument list.\<close>

record frame_info =
  fi_file :: string
  fi_line :: int
  fi_module :: "string option"
  fi_func :: string
  fi_locals :: "pyobj list"
  fi_argcount :: nat
  fi_varargs :: bool
  fi_varkeywords :: bool

abbreviation TRACE_FUNC_NAME :: int where "TRACE_FUNC_NAME \<equiv> 2"

definition log_header :: "char \<Rightarrow> int \<Rightarrow> u64 \<Rightarrow> u64 \<Rightarrow> int \<Rightarrow> frame_info \<Rightarrow> string" where
  "log_header direction pid tid gid depth fi =
     [direction] @ '','' @ fmt_d pid @ '':'' @ fmt_u (nat (sint tid mod 32768)) @ '':'' @ fmt_d (sint gid mod 32768) @ '':'' @
     fmt_d depth @ '','' @ fi_file fi @ '':'' @ fmt_d (fi_line fi) @ '','' @
     (case fi_module fi of None \<Rightarrow> ''<unknown>'' | Some name \<Rightarrow> name) @ '','' @ fi_func fi"

definition serialize_prefix :: "char \<Rightarrow> int \<Rightarrow> u64 \<Rightarrow> u64 \<Rightarrow> int \<Rightarrow> frame_info \<Rightarrow> trace_message \<Rightarrow> tm_result" where
  "serialize_prefix direction pid tid gid depth fi m = tm_printf (log_header direction pid tid gid depth fi) m"

text \<open>A label and a local variable.\<close>

definition write_local :: "(bool \<Rightarrow> string \<Rightarrow> string) \<Rightarrow> string \<Rightarrow> frame_info \<Rightarrow> nat \<Rightarrow> trace_message \<Rightarrow> trace_message option" where
  "write_local rp label fi i m = do {
     (ok, m) \<leftarrow> tm_write label m;
     x \<leftarrow> arr_get (fi_locals fi) (int i);
     (ok, m) \<leftarrow> fast_repr rp x m;
     Some m }"

fun write_locals :: "(bool \<Rightarrow> string \<Rightarrow> string) \<Rightarrow> frame_info \<Rightarrow> nat list \<Rightarrow> trace_message \<Rightarrow> trace_message option" where
  "write_locals rp fi [] m = Some m"
| "write_locals rp fi (i # is) m = do { m \<leftarrow> write_local rp '','' fi i m; write_locals rp fi is m }"

definition call_message ::
  "(bool \<Rightarrow> string \<Rightarrow> string) \<Rightarrow> int \<Rightarrow> int \<times> int \<Rightarrow> int \<Rightarrow> u64 \<Rightarrow> u64 \<Rightarrow> int \<Rightarrow> frame_info \<Rightarrow>
   trace_message \<Rightarrow> trace_message option" where
  "call_message rp pid time trace_level tid gid depth fi m = do {
     (ok, m) \<leftarrow> serialize_prefix (CHR ''>'') pid tid gid depth fi m;
     m \<leftarrow> (if ok \<and> trace_level > TRACE_FUNC_NAME
          then do {
            m \<leftarrow> write_locals rp fi [0..<fi_argcount fi] m;
            (let i = fi_argcount fi
             in do {
               m \<leftarrow> (if fi_varargs fi then write_local rp '',vargs='' fi i m else Some m);
               (let i = (if fi_varargs fi then i + 1 else i)
                in if fi_varkeywords fi then write_local rp '',kwargs='' fi i m else Some m) }) }
          else Some m);
     Some (set_timestamp (fst time) (snd time) m) }"

definition return_message ::
  "(bool \<Rightarrow> string \<Rightarrow> string) \<Rightarrow> int \<Rightarrow> int \<times> int \<Rightarrow> int \<Rightarrow> u64 \<Rightarrow> u64 \<Rightarrow> int \<Rightarrow> frame_info \<Rightarrow> pyobj \<Rightarrow>
   trace_message \<Rightarrow> trace_message option" where
  "return_message rp pid time trace_level tid gid depth fi arg m = do {
     (ok, m) \<leftarrow> serialize_prefix (CHR ''<'') pid tid gid depth fi m;
     m \<leftarrow> (if ok \<and> trace_level > TRACE_FUNC_NAME
          then do {
            (ok, m) \<leftarrow> tm_write '','' m;
            (ok, m) \<leftarrow> (if arg \<noteq> PyNull then fast_repr rp arg m else tm_write ''exc'' m);
            Some m }
          else Some m);
     Some (set_timestamp (fst time) (snd time) m) }"

text \<open>\<open>reserve_push\<close> does not return NULL, so a line is always written.\<close>

definition log_call ::
  "(u32 \<Rightarrow> u32) list \<Rightarrow> (bool \<Rightarrow> string \<Rightarrow> string) \<Rightarrow> int \<Rightarrow> int \<times> int \<Rightarrow> int \<Rightarrow> u64 \<Rightarrow> u64 \<Rightarrow> int \<Rightarrow> frame_info \<Rightarrow>
   ring \<Rightarrow> ring option" where
  "log_call es rp pid time trace_level tid gid depth fi =
     push_with es (call_message rp pid time trace_level tid gid depth fi)"

definition log_return ::
  "(u32 \<Rightarrow> u32) list \<Rightarrow> (bool \<Rightarrow> string \<Rightarrow> string) \<Rightarrow> int \<Rightarrow> int \<times> int \<Rightarrow> int \<Rightarrow> u64 \<Rightarrow> u64 \<Rightarrow> int \<Rightarrow> frame_info \<Rightarrow> pyobj \<Rightarrow>
   ring \<Rightarrow> ring option" where
  "log_return es rp pid time trace_level tid gid depth fi arg =
     push_with es (return_message rp pid time trace_level tid gid depth fi arg)"

section \<open>What a line contains\<close>

definition frame_ok :: "frame_info \<Rightarrow> bool" where
  "frame_ok fi \<longleftrightarrow> name_ok (fi_file fi) \<and> NUL \<notin> set (fi_func fi) \<and> pred_option (\<lambda>s. NUL \<notin> set s) (fi_module fi) \<and>
     (\<forall>x \<in> set (fi_locals fi). obj_ok x) \<and>
     fi_argcount fi + (if fi_varargs fi then 1 else 0) + (if fi_varkeywords fi then 1 else 0) \<le> length (fi_locals fi)"

text \<open>A message that is used up to its capacity ends in the NUL after it.\<close>

lemma sealed_closed:
  assumes "tm_ok m" "sealed m" "limit_index m = tm_capacity m"
  shows "tm_closed m"
  using assms by (auto simp: sealed_def tm_closed_def tm_ok_def)

lemma get_buffer_shown:
  assumes "tm_ok m" "tm_closed m"
  shows "get_buffer m = Some (takeWhile (\<lambda>c. c \<noteq> NUL) (tm_text m))"
proof -
  from assms(1) obtain cs where cs: "tm_buffer m = Heap cs" "length cs = Suc (nat (tm_capacity m))"
    "0 \<le> write_index m" "write_index m \<le> tm_capacity m" by (elim tm_okE) auto
  let ?w = "nat (write_index m)"
  have w: "?w < length cs" "cs ! ?w = NUL" using cs assms(2) by (auto simp: tm_closed_def)
  then have "cs = take ?w cs @ NUL # drop (Suc ?w) cs" by (metis id_take_nth_drop)
  then have "takeWhile (\<lambda>c. c \<noteq> NUL) cs = takeWhile (\<lambda>c. c \<noteq> NUL) (take ?w cs @ NUL # drop (Suc ?w) cs)" by simp
  also have "\<dots> = takeWhile (\<lambda>c. c \<noteq> NUL) (take ?w cs)"
    by (cases "\<forall>c \<in> set (take ?w cs). c \<noteq> NUL") (simp_all add: takeWhile_append takeWhile_eq_all_conv [THEN iffD2])
  finally have "takeWhile (\<lambda>c. c \<noteq> NUL) cs = takeWhile (\<lambda>c. c \<noteq> NUL) (tm_text m)" using cs(1) by (simp add: tm_text_def)
  moreover have "NUL \<in> set cs" using w nth_mem by metis
  ultimately show ?thesis using cs(1) by (simp add: get_buffer_def c_str_def)
qed

text \<open>The steps after the header only extend the message.\<close>

definition extends :: "trace_message \<Rightarrow> trace_message option \<Rightarrow> bool" where
  "extends m r \<longleftrightarrow> (\<exists>m'. r = Some m' \<and> grows m m' \<and> sealed m')"

lemma extends_bind:
  assumes "extends m r" "\<And>m'. r = Some m' \<Longrightarrow> grows m m' \<Longrightarrow> sealed m' \<Longrightarrow> extends m' (k m')"
  shows "extends m (do { x \<leftarrow> r; k x })"
proof -
  from assms(1) obtain m' where r: "r = Some m'" "grows m m'" "sealed m'" by (auto simp: extends_def)
  with assms(2) obtain m'' where "k m' = Some m''" "grows m' m''" "sealed m''" unfolding extends_def by blast
  with r show ?thesis using grows_trans by (auto simp: extends_def)
qed

lemma extends_refl: "tm_ok m \<Longrightarrow> sealed m \<Longrightarrow> extends m (Some m)"
  by (auto simp: extends_def intro: grows_refl)

lemma writes_extends:
  assumes "writes m r" "\<And>ok m'. r = Some (ok, m') \<Longrightarrow> grows m m' \<Longrightarrow> sealed m' \<Longrightarrow> extends m' (k (ok, m'))"
  shows "extends m (do { x \<leftarrow> r; k x })"
proof -
  from assms(1) obtain ok m' where r: "r = Some (ok, m')" "grows m m'" "sealed m'" by (auto simp: writes_def)
  with assms(2) obtain m'' where "k (ok, m') = Some m''" "grows m' m''" "sealed m''" unfolding extends_def by blast
  with r show ?thesis using grows_trans by (auto simp: extends_def)
qed

lemma write_local_ok:
  assumes "repr_ok rp" "frame_ok fi" "tm_ok m" "NUL \<notin> set label" "i < length (fi_locals fi)"
  shows "extends m (write_local rp label fi i m)"
proof -
  have x: "arr_get (fi_locals fi) (int i) = Some (fi_locals fi ! i)" "obj_ok (fi_locals fi ! i)"
    using assms(2,5) by (auto simp: frame_ok_def)
  have "extends m' (do { x \<leftarrow> arr_get (fi_locals fi) (int i); (ok, m) \<leftarrow> fast_repr rp x m'; Some m })"
    if "grows m m'" "sealed m'" for m'
    using fast_repr_ok [OF assms(1) x(2) grows_ok [OF that(1)] that(2)]
    by (auto simp: x(1) intro!: writes_extends extends_refl dest: grows_ok)
  then show ?thesis
    unfolding write_local_def by (auto intro!: writes_extends [where r = "tm_write label m"] writes_write assms(3,4))
qed

lemma write_locals_ok:
  assumes "repr_ok rp" "frame_ok fi"
  shows "tm_ok m \<Longrightarrow> sealed m \<Longrightarrow> \<forall>i \<in> set is. i < length (fi_locals fi) \<Longrightarrow> extends m (write_locals rp fi is m)"
proof (induction "is" arbitrary: m)
  case (Cons i "is")
  then show ?case
    by (auto intro!: extends_bind write_local_ok assms dest: grows_ok)
qed (simp add: extends_refl)

text \<open>A line: the header that fits is shown whole, and the values follow where they are wanted.\<close>

definition shows_line :: "bool \<Rightarrow> string \<Rightarrow> int \<times> int \<Rightarrow> msg_view \<Rightarrow> bool" where
  "shows_line values header time v \<longleftrightarrow>
     (\<exists>x. v = (header @ x, SEVERITY_NOTSET, word_of_int (fst time * 1000 + snd time div 1000)) \<and> (values \<or> x = []))"

lemma line_ok:
  assumes "tm_fresh m" "int (length header) < tm_capacity m" "header \<noteq> []" "NUL \<notin> set header"
    and rest: "\<And>m'. tm_ok m' \<Longrightarrow> sealed m' \<Longrightarrow> extends m' (rest m')"
    and eq: "line m = do { (ok, m) \<leftarrow> tm_printf header m; m \<leftarrow> (if ok \<and> wanted then rest m else Some m);
        Some (set_timestamp (fst time) (snd time) m) }"
  shows "\<exists>m'. line m = Some m' \<and> tm_ok m' \<and> tm_capacity m' = tm_capacity m \<and> shows_line wanted header time (msg_view m')"
proof -
  have ok: "tm_ok m" and fresh: "avail_size m = tm_capacity m" "tm_text m = []" "limit_index m = tm_capacity m"
    "tm_severity m = SEVERITY_NOTSET"
    using assms(1) tm_fresh_text [of m] by (simp_all add: tm_fresh_def avail_size_def)
  have "int (length header) \<le> INT_MAX" using assms(2) ok by (auto elim!: tm_okE)
  with ok assms(4,3) obtain m1 where m1: "tm_printf header m = Some (int (length header) \<le> avail_size m, m1)"
    "grows m m1" "sealed m1" "int (length header) < avail_size m \<longrightarrow> tm_text m1 = tm_text m @ header" by (rule printf_ok)
  have "extends m1 (if wanted then rest m1 else Some m1)"
    using rest extends_refl grows_ok [OF m1(2)] m1(3) by simp
  then obtain m2 where m2: "(if wanted then rest m1 else Some m1) = Some m2" "grows m1 m2" "sealed m2"
    by (auto simp: extends_def)
  let ?m = "set_timestamp (fst time) (snd time) m2"
  have g: "grows m m2" using m1(2) m2(2) by (rule grows_trans)
  have "line m = Some ?m" using m1(1) m2(1) assms(2) fresh(1) by (simp add: eq)
  moreover have "tm_ok ?m" "tm_capacity ?m = tm_capacity m" using g by (simp_all add: set_timestamp_def grows_def)
  moreover have "shows_line wanted header time (msg_view ?m)"
  proof -
    have "tm_text m1 = header" using m1(4) assms(2) fresh by simp
    with m2(1,2) obtain x where x: "tm_text m2 = header @ x" "wanted \<or> x = []"
      by (cases wanted) (auto simp: grows_def)
    have "tm_closed m2" using g fresh(3) by (intro sealed_closed [OF grows_ok [OF g] m2(3)]) (simp add: grows_def)
    then have "get_buffer m2 = Some (header @ takeWhile (\<lambda>c. c \<noteq> NUL) x)"
      using get_buffer_shown [OF grows_ok [OF g]] x(1) assms(4) by (simp add: takeWhile_append)
    moreover have "get_buffer ?m = get_buffer m2" by (simp add: get_buffer_def set_timestamp_def)
    ultimately show ?thesis
      using g fresh(4) x(2) by (auto simp: shows_line_def msg_view_def set_timestamp_def grows_def)
  qed
  ultimately show ?thesis by blast
qed

lemma header_ok:
  assumes "frame_ok fi" "direction \<noteq> NUL"
  shows "NUL \<notin> set (log_header direction pid tid gid depth fi)" "log_header direction pid tid gid depth fi \<noteq> []"
  using assms fmt_d_no_NUL fmt_u_no_NUL
  by (auto simp: log_header_def frame_ok_def name_ok_def split: option.splits)

lemma call_message_ok:
  assumes "repr_ok rp" "frame_ok fi" "tm_fresh m" "int (length (log_header (CHR ''>'') pid tid gid depth fi)) < tm_capacity m"
  shows "\<exists>m'. call_message rp pid time level tid gid depth fi m = Some m' \<and> tm_ok m' \<and> tm_capacity m' = tm_capacity m \<and>
    shows_line (level > TRACE_FUNC_NAME) (log_header (CHR ''>'') pid tid gid depth fi) time (msg_view m')"
proof (rule line_ok [OF assms(3,4)])
  let ?rest = "\<lambda>m. do {
            m \<leftarrow> write_locals rp fi [0..<fi_argcount fi] m;
            (let i = fi_argcount fi
             in do {
               m \<leftarrow> (if fi_varargs fi then write_local rp '',vargs='' fi i m else Some m);
               (let i = (if fi_varargs fi then i + 1 else i)
                in if fi_varkeywords fi then write_local rp '',kwargs='' fi i m else Some m) }) }"
  show "extends m' (?rest m')" if "tm_ok m'" "sealed m'" for m'
    using assms(2) that unfolding Let_def
    by (auto simp: frame_ok_def intro!: extends_bind write_locals_ok write_local_ok extends_refl assms(1,2) dest: grows_ok
        split: if_splits)
  show "call_message rp pid time level tid gid depth fi m = do {
      (ok, m) \<leftarrow> tm_printf (log_header (CHR ''>'') pid tid gid depth fi) m;
      m \<leftarrow> (if ok \<and> level > TRACE_FUNC_NAME then ?rest m else Some m);
      Some (set_timestamp (fst time) (snd time) m) }"
    by (simp only: call_message_def serialize_prefix_def)
qed (use header_ok [OF assms(2)] in simp_all)

lemma return_message_ok:
  assumes "repr_ok rp" "frame_ok fi" "obj_ok arg" "tm_fresh m"
    "int (length (log_header (CHR ''<'') pid tid gid depth fi)) < tm_capacity m"
  shows "\<exists>m'. return_message rp pid time level tid gid depth fi arg m = Some m' \<and> tm_ok m' \<and> tm_capacity m' = tm_capacity m \<and>
    shows_line (level > TRACE_FUNC_NAME) (log_header (CHR ''<'') pid tid gid depth fi) time (msg_view m')"
proof (rule line_ok [OF assms(4,5)])
  let ?rest = "\<lambda>m. do {
            (ok, m) \<leftarrow> tm_write '','' m;
            (ok, m) \<leftarrow> (if arg \<noteq> PyNull then fast_repr rp arg m else tm_write ''exc'' m);
            Some m }"
  show "extends m' (?rest m')" if "tm_ok m'" "sealed m'" for m'
  proof (rule writes_extends [where r = "tm_write '','' m'"])
    show "writes m' (tm_write '','' m')" using that by (simp add: writes_write)
    show "extends m1 (case (ok, m1) of (ok, m) \<Rightarrow> do {
        (ok, m) \<leftarrow> (if arg \<noteq> PyNull then fast_repr rp arg m else tm_write ''exc'' m);
        Some m })" if "grows m' m1" "sealed m1" for ok m1
      using fast_repr_ok [OF assms(1,3) grows_ok [OF that(1)] that(2)] writes_write [OF grows_ok [OF that(1)], of "''exc''"]
      by (auto intro!: writes_extends extends_refl dest: grows_ok)
  qed
  show "return_message rp pid time level tid gid depth fi arg m = do {
      (ok, m) \<leftarrow> tm_printf (log_header (CHR ''<'') pid tid gid depth fi) m;
      m \<leftarrow> (if ok \<and> level > TRACE_FUNC_NAME then ?rest m else Some m);
      Some (set_timestamp (fst time) (snd time) m) }"
    by (simp only: return_message_def serialize_prefix_def)
qed (use header_ok [OF assms(2)] in simp_all)

section \<open>From the traced program to the ring\<close>

text \<open>What the interpreter shows for a line: the time, the frame and, for a return, the result.\<close>

type_synonym line_context = "(int \<times> int) \<times> frame_info \<times> pyobj"

fun log_line ::
  "(u32 \<Rightarrow> u32) list \<Rightarrow> (bool \<Rightarrow> string \<Rightarrow> string) \<Rightarrow> int \<Rightarrow> line_context \<Rightarrow> log_entry \<Rightarrow> ring \<Rightarrow> ring option" where
  "log_line es rp pid (time, fi, arg) (Log_Call level tid gid depth code) =
     log_call es rp pid time level tid gid depth fi"
| "log_line es rp pid (time, fi, arg) (Log_Return level tid gid depth code) =
     log_return es rp pid time level tid gid depth fi arg"

fun log_lines ::
  "(u32 \<Rightarrow> u32) list \<Rightarrow> (bool \<Rightarrow> string \<Rightarrow> string) \<Rightarrow> int \<Rightarrow> (nat \<Rightarrow> line_context) \<Rightarrow> nat \<Rightarrow> log_entry list \<Rightarrow>
   ring \<Rightarrow> ring option" where
  "log_lines es rp pid ctx k [] rb = Some rb"
| "log_lines es rp pid ctx k (l # ls) rb = do {
     rb \<leftarrow> log_line es rp pid (ctx k) l rb;
     log_lines es rp pid ctx (k + 1) ls rb }"

definition entry_header :: "int \<Rightarrow> frame_info \<Rightarrow> log_entry \<Rightarrow> string" where
  "entry_header pid fi l =
     log_header (case l of Log_Call _ _ _ _ _ \<Rightarrow> CHR ''>'' | Log_Return _ _ _ _ _ \<Rightarrow> CHR ''<'')
       pid (lg_tid l) (lg_gid l) (lg_depth l) fi"

definition shows_entry :: "int \<Rightarrow> line_context \<Rightarrow> log_entry \<Rightarrow> msg_view \<Rightarrow> bool" where
  "shows_entry pid cx l v \<longleftrightarrow>
     (case cx of (time, fi, arg) \<Rightarrow> shows_line (lg_level l > TRACE_FUNC_NAME) (entry_header pid fi l) time v)"

definition line_fits :: "nat \<Rightarrow> int \<Rightarrow> line_context \<Rightarrow> log_entry \<Rightarrow> bool" where
  "line_fits c pid cx l \<longleftrightarrow>
     (case cx of (time, fi, arg) \<Rightarrow> frame_ok fi \<and> obj_ok arg \<and> length (entry_header pid fi l) < c)"

lemma log_line_at:
  assumes "repr_ok rp" "line_fits (trace_message_capacity rb) pid cx l" "ring_at rb w 0" "w < capacity rb"
  obtains rb' v where "log_line es rp pid cx l rb = Some rb'" "ring_at rb' (w + 1) 0"
    "capacity rb' = capacity rb" "trace_message_capacity rb' = trace_message_capacity rb"
    "waiting rb' = waiting rb @ [v]" "shows_entry pid cx l v"
proof -
  obtain time fi arg where cx: "cx = (time, fi, arg)" by (cases cx)
  note el = head_element [OF assms(3,4)]
  have fits: "frame_ok fi" "obj_ok arg" "int (length (entry_header pid fi l)) < tm_capacity (elements rb ! slot_at rb w)"
    using assms(2) el(2) by (simp_all add: cx line_fits_def)
  obtain f m where m: "log_line es rp pid cx l = push_with es f" "f (elements rb ! slot_at rb w) = Some m" "tm_ok m"
    "tm_capacity m = int (trace_message_capacity rb)" "shows_entry pid cx l (msg_view m)"
  proof (cases l)
    case (Log_Call level tid gid depth code)
    with call_message_ok [OF assms(1) fits(1) el(1), of pid tid gid depth time level] fits(3) el(2) show thesis
      by (auto simp: cx shows_entry_def entry_header_def log_call_def fun_eq_iff intro!: that)
  next
    case (Log_Return level tid gid depth code)
    with return_message_ok [OF assms(1) fits(1,2) el(1), of pid tid gid depth time level] fits(3) el(2) show thesis
      by (auto simp: cx shows_entry_def entry_header_def log_return_def fun_eq_iff intro!: that)
  qed
  obtain rb' where "push_with es f rb = Some rb'" "ring_at rb' (w + 1) 0"
    "capacity rb' = capacity rb" "trace_message_capacity rb' = trace_message_capacity rb"
    "waiting rb' = waiting rb @ [msg_view m]"
    by (rule put_at [where f = f and es = es, OF assms(3,4) m(2,3,4)])
  with m(1,5) show thesis by (intro that [of rb' "msg_view m"]) simp_all
qed

lemma log_lines_at:
  assumes "repr_ok rp"
  shows "ring_at rb w 0 \<Longrightarrow> w + length ls \<le> capacity rb \<Longrightarrow>
    \<forall>i < length ls. line_fits (trace_message_capacity rb) pid (ctx (k + i)) (ls ! i) \<Longrightarrow>
    \<exists>rb' vs. log_lines es rp pid ctx k ls rb = Some rb' \<and> waiting rb' = waiting rb @ vs \<and> length vs = length ls \<and>
      (\<forall>i < length ls. shows_entry pid (ctx (k + i)) (ls ! i) (vs ! i))"
proof (induction ls arbitrary: k w rb)
  case (Cons l ls)
  have "line_fits (trace_message_capacity rb) pid (ctx k) l" "w < capacity rb"
    using Cons.prems(2,3) by force+
  with assms Cons.prems(1) obtain rb1 v where rb1: "log_line es rp pid (ctx k) l rb = Some rb1" "ring_at rb1 (w + 1) 0"
    "capacity rb1 = capacity rb" "trace_message_capacity rb1 = trace_message_capacity rb"
    "waiting rb1 = waiting rb @ [v]" "shows_entry pid (ctx k) l v" by (metis log_line_at)
  have "w + 1 + length ls \<le> capacity rb1" using Cons.prems(2) rb1(3) by simp
  moreover have "\<forall>i < length ls. line_fits (trace_message_capacity rb1) pid (ctx (k + 1 + i)) (ls ! i)"
    using Cons.prems(3) rb1(4) by (metis Suc_mono add.assoc add.commute length_Cons nth_Cons_Suc plus_1_eq_Suc)
  ultimately obtain rb2 vs where rb2: "log_lines es rp pid ctx (k + 1) ls rb1 = Some rb2" "waiting rb2 = waiting rb1 @ vs"
    "length vs = length ls" "\<forall>i < length ls. shows_entry pid (ctx (k + 1 + i)) (ls ! i) (vs ! i)"
    using Cons.IH [OF rb1(2)] by blast
  have "shows_entry pid (ctx (k + i)) ((l # ls) ! i) ((v # vs) ! i)" if "i < length (l # ls)" for i
    using that rb1(6) rb2(4) by (cases i) auto
  with rb1 rb2 show ?case by (intro exI [of _ rb2] exI [of _ "v # vs"]) simp
qed simp

section \<open>Properties\<close>

text \<open>C24: a line of the log stands in the ring for every traced call and return of a program: with
  room for all of them, the run of the tracer leaves in an empty ring, in the order of the
  history, one message for each entry of the per-greenlet log; it starts with the direction, the
  process, thread and greenlet ids, the depth and the place in the code, whole, carries the time
  of the event, and holds nothing else where the level does not want the values.  The headers fit
  the messages, and the low 32 bits tell the code objects, and the greenlets, apart.\<close>

theorem traced_program_in_ring:
  assumes "stacks_ok st" "history_ok acts st"
    and "run_ok env f (codes_of (history acts st)) c" "keys_ok (codes_of (history acts st)) (gids_of (history acts st))"
    and "repr_ok rp" "k \<le> 30" "0 < cap" "int cap < INT_MAX" "ring_new junk (2 ^ k) cap = Some rb"
    and "log = spec_log f tid 1 Map.empty (history acts st)" "length log \<le> 2 ^ k"
    and "\<forall>i < length log. line_fits cap pid (ctx i) (log ! i)"
  shows "trace_events env f (history acts st) (tstorage_new tid c) = Some Fatal \<or>
    (\<exists>s' rb'. trace_events env f (history acts st) (tstorage_new tid c) = Some (Done (log, s')) \<and>
       log_lines es rp pid ctx 0 log rb = Some rb' \<and> length (waiting rb') = length log \<and>
       (\<forall>i < length log. shows_entry pid (ctx i) (log ! i) (waiting rb' ! i)))"
proof -
  obtain rb0 where "ring_new junk (2 ^ k) cap = Some rb0" "ring_at rb0 0 0" "capacity rb0 = 2 ^ k"
    "trace_message_capacity rb0 = cap" using assms(6-8) by (rule ring_new_at)
  then have rb: "ring_at rb 0 0" "capacity rb = 2 ^ k" "trace_message_capacity rb = cap" using assms(9) by auto
  moreover have "waiting rb = []" using waiting_at [OF rb(1)] by simp
  ultimately have "\<exists>rb'. log_lines es rp pid ctx 0 log rb = Some rb' \<and> length (waiting rb') = length log \<and>
      (\<forall>i < length log. shows_entry pid (ctx i) (log ! i) (waiting rb' ! i))"
    using log_lines_at [OF assms(5) rb(1), of log pid ctx 0 es] assms(11,12) by auto
  with history_log [OF assms(1-4), of tid] assms(10) show ?thesis by blast
qed

definition sample_context :: line_context where
  "sample_context = ((1700000000, 250000), \<lparr>fi_file = ''a.py'', fi_line = 10, fi_module = Some ''m'', fi_func = ''f'',
     fi_locals = [], fi_argcount = 0, fi_varargs = False, fi_varkeywords = False\<rparr>, PyNone)"

definition sample_log :: "log_entry list" where
  "sample_log = [Log_Call 2 5 7 1 10, Log_Call 2 5 8 1 10, Log_Return 2 5 8 1 10, Log_Call 3 5 7 3 40,
     Log_Return 3 5 7 3 40, Log_Return 2 5 7 1 10]"

lemma sample_log_spec: "spec_log sample_levels 5 1 Map.empty (history sample_acts Map.empty) = sample_log"
  by code_simp

lemma sample_headers:
  "map (entry_header 9 (fst (snd sample_context))) sample_log =
     [''>,9:5:7:1,a.py:10,m,f'', ''>,9:5:8:1,a.py:10,m,f'', ''<,9:5:8:1,a.py:10,m,f'', ''>,9:5:7:3,a.py:10,m,f'',
      ''<,9:5:7:3,a.py:10,m,f'', ''<,9:5:7:1,a.py:10,m,f'']"
  by code_simp

lemma sample_lines_fit: "\<forall>i < length sample_log. line_fits 128 9 sample_context (sample_log ! i)"
proof -
  have "\<forall>h \<in> set (map (entry_header 9 (fst (snd sample_context))) sample_log). length h < 128"
    unfolding sample_headers by simp
  then have "length (entry_header 9 (fst (snd sample_context)) (sample_log ! i)) < 128" if "i < length sample_log" for i
    using that nth_mem [OF that] by simp
  then show ?thesis by (simp add: line_fits_def sample_context_def frame_ok_def name_ok_def)
qed

theorem traced_program_in_ring_witness:
  "\<exists>rb s' rb'. ring_new (\<lambda>_ _. CHR ''?'') 8 128 = Some rb \<and>
     trace_events sample_env sample_levels (history sample_acts Map.empty) (tstorage_new 5 2) = Some (Done (sample_log, s')) \<and>
     log_lines [id] quote_repr 9 (\<lambda>_. sample_context) 0 sample_log rb = Some rb' \<and> length (waiting rb') = 6 \<and>
     waiting rb' ! 2 = (''<,9:5:8:1,a.py:10,m,f'', -1, 1700000000250)"
proof -
  obtain rb where rb: "ring_new (\<lambda>_ _. CHR ''?'') (2 ^ 3) 128 = Some rb"
    by (rule ring_new_at [of 3 128 "\<lambda>_ _. CHR ''?''"]) simp_all
  obtain s' rb' where r: "trace_events sample_env sample_levels (history sample_acts Map.empty) (tstorage_new 5 2) = Some (Done (sample_log, s'))"
    "log_lines [id] quote_repr 9 (\<lambda>_. sample_context) 0 sample_log rb = Some rb'" "length (waiting rb') = length sample_log"
    "\<forall>i < length sample_log. shows_entry 9 sample_context (sample_log ! i) (waiting rb' ! i)"
    using traced_program_in_ring [OF no_stacks sample_acts_ok sample_run sample_keys quote_repr_ok _ _ _ rb
        sample_log_spec [symmetric] _ sample_lines_fit, of "[id]"] not_fatal [OF sample_acts_not_fatal]
    by (auto simp: sample_log_def)
  have n: "length sample_log = 6" "(2::nat) < length sample_log" by (simp_all add: sample_log_def)
  have "map (entry_header 9 (fst (snd sample_context))) sample_log ! 2 = ''<,9:5:8:1,a.py:10,m,f''"
    unfolding sample_headers by simp
  then have "entry_header 9 (fst (snd sample_context)) (sample_log ! 2) = ''<,9:5:8:1,a.py:10,m,f''"
    using n(2) by simp
  moreover have "lg_level (sample_log ! 2) = 2" by (simp add: sample_log_def)
  moreover have "shows_entry 9 sample_context (sample_log ! 2) (waiting rb' ! 2)" using r(4) n(2) by blast
  ultimately have "waiting rb' ! 2 = (''<,9:5:8:1,a.py:10,m,f'', SEVERITY_NOTSET, 1700000000250)"
    by (auto simp: shows_entry_def shows_line_def sample_context_def)
  with rb r(1,2,3) n(1) show ?thesis by (intro exI [of _ rb] exI [of _ s'] exI [of _ rb']) simp
qed


end
