(* ===== verification/Mintsystem.thy ===== *)
theory Mintsystem
  imports Mintomic "HOL-Library.Signed_Division"
begin

text \<open>
  \<open>mintsystem/\<close>: semaphores, threads, mutexes, clocks and sleeping, on Unix (\<open>gcc/\<close>, \<open>*_gcc.h\<close>) and
  on Windows (\<open>msvc/\<close>, \<open>*_msvc.h\<close>).  What the operating system answers is a parameter.
\<close>

section \<open>Semaphores\<close>

text \<open>What a call returns, with \<open>errno\<close>.\<close>

type_synonym sys_result = "int \<times> int"

abbreviation EINTR :: int where "EINTR \<equiv> 4"

datatype sem_handle = MINT_SEM_FAILED | Sem nat

text \<open>The blocks that \<open>malloc\<close> gave out are the state: \<open>malloc\<close> returns \<open>a\<close> or fails, \<open>sem_init\<close>
  returns \<open>rc\<close>.\<close>

definition mint_sem_create :: "nat option \<Rightarrow> int \<Rightarrow> nat set \<Rightarrow> sem_handle \<times> nat set" where
  "mint_sem_create block rc live =
     (case block of None \<Rightarrow> (MINT_SEM_FAILED, live)
      | Some a \<Rightarrow> (let live = insert a live
                  in if rc = - 1 then (MINT_SEM_FAILED, live - {a}) else (Sem a, live)))"

definition mint_sem_destroy :: "int \<Rightarrow> nat \<Rightarrow> nat set \<Rightarrow> int \<times> nat set" where
  "mint_sem_destroy rc a live = (rc, live - {a})"

text \<open>\<open>n\<close> counts the calls of \<open>sem_wait\<close>, the \<open>n\<close>th of which returns \<open>os n\<close>.\<close>

partial_function (option) mint_sem_wait :: "(nat \<Rightarrow> sys_result) \<Rightarrow> nat \<Rightarrow> (int \<times> nat) option" where
  "mint_sem_wait os n =
     (let (rc, errno) = os n
      in if rc = - 1 \<and> errno = EINTR then mint_sem_wait os (n + 1) else Some (rc, n + 1))"

declare mint_sem_wait.simps [code]

text \<open>Windows.\<close>

abbreviation WAIT_OBJECT_0 :: u32 where "WAIT_OBJECT_0 \<equiv> 0"

definition mint_sem_post_msvc :: "int \<Rightarrow> int" where
  "mint_sem_post_msvc rc = (if rc \<noteq> 0 then 0 else - 1)"

definition mint_sem_wait_msvc :: "u32 \<Rightarrow> int" where
  "mint_sem_wait_msvc rc = (if rc = WAIT_OBJECT_0 then 0 else - 1)"

abbreviation MINT_MUTEX_EBUSY :: int where "MINT_MUTEX_EBUSY \<equiv> 16"

definition mint_mutex_trylock_msvc :: "bool \<Rightarrow> int" where
  "mint_mutex_trylock_msvc entered = (if entered then 0 else MINT_MUTEX_EBUSY)"

section \<open>Clocks\<close>

text \<open>A \<open>timespec\<close>: seconds and nanoseconds.\<close>

definition mint_timer_get :: "int \<times> int \<Rightarrow> u64" where
  "mint_timer_get tick = word_of_int (fst tick) * 1000000000 + word_of_int (snd tick)"

definition mint_timer_greater_or_equal :: "u64 \<Rightarrow> u64 \<Rightarrow> bool" where
  "mint_timer_greater_or_equal a b \<longleftrightarrow> sint (a - b) \<ge> 0"

text \<open>Microseconds since 1601: from a \<open>timespec\<close> since 1970, from a \<open>timeval\<close>, and from the two
  halves of a \<open>FILETIME\<close>.\<close>

definition mint_get_current_utc_time :: "int \<times> int \<Rightarrow> u64" where
  "mint_get_current_utc_time tick =
     word_of_int (fst tick) * 1000000 + word_of_int (snd tick sdiv 1000) + 11644473600000000"

definition mint_get_current_utc_time_timeval :: "int \<times> int \<Rightarrow> u64" where
  "mint_get_current_utc_time_timeval tick =
     word_of_int (fst tick) * 1000000 + word_of_int (snd tick) + 11644473600000000"

definition mint_get_current_utc_time_msvc :: "u32 \<times> u32 \<Rightarrow> u64" where
  "mint_get_current_utc_time_msvc file_time = halves (fst file_time) (snd file_time) div 10"

section \<open>Sleeping\<close>

text \<open>The \<open>timespec\<close> for \<open>nanosleep\<close>, and the milliseconds for \<open>Sleep\<close>.\<close>

definition mint_sleep_millis :: "int \<Rightarrow> int \<times> int" where
  "mint_sleep_millis millis = (millis sdiv 1000, (millis smod 1000) * 1000)"

definition mint_sleep_millis_msvc :: "int \<Rightarrow> u32" where
  "mint_sleep_millis_msvc millis = word_of_int millis"

section \<open>Threads on Windows\<close>

text \<open>The block a thread shares with its creator: the argument of the start routine, and then what it
  returns.\<close>

record msvc_thread =
  hThread :: "nat option"
  start_routine :: "u64 \<Rightarrow> u64"
  arg_or_retval :: u64

type_synonym thread_blocks = "nat \<rightharpoonup> msvc_thread"

definition mint_thread_create ::
  "nat option \<Rightarrow> nat option \<Rightarrow> (u64 \<Rightarrow> u64) \<Rightarrow> u64 \<Rightarrow> thread_blocks \<Rightarrow> (int \<times> nat \<times> thread_blocks) option" where
  "mint_thread_create block handle routine arg hp = do {
     a \<leftarrow> block;
     (let t = \<lparr>hThread = handle, start_routine = routine, arg_or_retval = arg\<rparr>
      in Some (if hThread t \<noteq> None then 0 else - 1, a, hp(a \<mapsto> t))) }"

definition mint_thread_entry_point :: "nat \<Rightarrow> thread_blocks \<Rightarrow> thread_blocks option" where
  "mint_thread_entry_point a hp = do {
     t \<leftarrow> hp a;
     Some (hp(a \<mapsto> t\<lparr>arg_or_retval := start_routine t (arg_or_retval t)\<rparr>)) }"

text \<open>\<open>wait\<close> is what \<open>WaitForSingleObject\<close> returns.\<close>

definition mint_thread_join :: "u32 \<Rightarrow> nat \<Rightarrow> thread_blocks \<Rightarrow> (int \<times> u64 \<times> thread_blocks) option" where
  "mint_thread_join wait a hp = do {
     t \<leftarrow> hp a;
     Some (if wait = WAIT_OBJECT_0 then 0 else - 1, arg_or_retval t, hp(a := None)) }"

section \<open>Waiting on a semaphore\<close>

lemma sem_wait_step:
  "mint_sem_wait os n = (if fst (os n) = - 1 \<and> snd (os n) = EINTR then mint_sem_wait os (n + 1) else Some (fst (os n), n + 1))"
  by (subst mint_sem_wait.simps) (simp add: split_beta)

lemma sem_wait_skip:
  assumes "\<And>i. i < k \<Longrightarrow> os (n + i) = (- 1, EINTR)"
  shows "mint_sem_wait os n = mint_sem_wait os (n + k)"
  using assms
proof (induction k)
  case (Suc k)
  have "mint_sem_wait os (n + k) = mint_sem_wait os (n + Suc k)"
    using Suc.prems [of k] by (subst sem_wait_step) simp
  with Suc show ?case by simp
qed simp

lemma sem_wait_found:
  assumes "mint_sem_wait os n = Some r"
  shows "\<exists>m \<ge> n. os m \<noteq> (- 1, EINTR)"
proof (rule mint_sem_wait.raw_induct [where P = "\<lambda>os n r. \<exists>m \<ge> n. os m \<noteq> (- 1, EINTR)", OF _ assms])
  fix rec and os :: "nat \<Rightarrow> sys_result" and n :: nat and r :: "int \<times> nat"
  assume ih: "\<And>(os :: nat \<Rightarrow> sys_result) (n :: nat) r. rec os n = Some r \<Longrightarrow> \<exists>m \<ge> n. os m \<noteq> (- 1, EINTR)"
    and run: "(let (rc, errno) = os n in if rc = - 1 \<and> errno = EINTR then rec os (n + 1) else Some (rc, n + 1)) = Some r"
  show "\<exists>m \<ge> n. os m \<noteq> (- 1, EINTR)"
  proof (cases "os n = (- 1, EINTR)")
    case True
    with run have "rec os (n + 1) = Some r" by simp
    from ih [OF this] obtain m where "n + 1 \<le> m" "os m \<noteq> (- 1, EINTR)" by blast
    then show ?thesis by (intro exI [of _ m]) simp
  qed auto
qed

text \<open>C39: waiting on a semaphore is not disturbed by signals: \<open>mint_sem_wait\<close> returns if and only if
  some call of \<open>sem_wait\<close> is not interrupted, and then with the result of the first such call, be
  it success or another error, and without calling again.\<close>

theorem sem_wait_first_uninterrupted:
  "mint_sem_wait os n =
     (if \<exists>m \<ge> n. os m \<noteq> (- 1, EINTR)
      then (let m = (LEAST m. n \<le> m \<and> os m \<noteq> (- 1, EINTR)) in Some (fst (os m), m + 1))
      else None)"
proof (cases "\<exists>m \<ge> n. os m \<noteq> (- 1, EINTR)")
  case True
  let ?m = "LEAST m. n \<le> m \<and> os m \<noteq> (- 1, EINTR)"
  have m: "n \<le> ?m" "os ?m \<noteq> (- 1, EINTR)" using LeastI_ex [of "\<lambda>m. n \<le> m \<and> os m \<noteq> (- 1, EINTR)"] True by blast+
  have "os (n + i) = (- 1, EINTR)" if "i < ?m - n" for i
    using not_less_Least [of "n + i" "\<lambda>m. n \<le> m \<and> os m \<noteq> (- 1, EINTR)"] that by auto
  from sem_wait_skip [where os = os, OF this] m(1) have "mint_sem_wait os n = mint_sem_wait os ?m" by simp
  also have "\<dots> = Some (fst (os ?m), ?m + 1)" using m(2) by (subst sem_wait_step) (auto simp: prod_eq_iff)
  finally show ?thesis using True by (simp add: Let_def)
next
  case False
  then show ?thesis using sem_wait_found [of os n] by (cases "mint_sem_wait os n") auto
qed

section \<open>Clocks and sleeping\<close>

text \<open>The comparison of two timer readings is right although the counter wraps: for instants less
  than 2^63 ticks apart, wherever the 64-bit counter has wrapped in between, the first reading
  counts as greater or equal exactly when its instant is not earlier.\<close>

lemma timer_comparison_wraps:
  fixes a b :: int
  assumes "\<bar>a - b\<bar> < 2 ^ 63"
  shows "mint_timer_greater_or_equal (word_of_int a) (word_of_int b) \<longleftrightarrow> b \<le> a"
proof -
  have "sint (word_of_int (a - b) :: u64) = a - b"
    using assms by (simp only: signed_of_int) (simp add: signed_take_bit_int_eq_self)
  moreover have "(word_of_int a :: u64) - word_of_int b = word_of_int (a - b)" by simp
  ultimately show ?thesis by (simp only: mint_timer_greater_or_equal_def) linarith
qed

lemma timer_comparison_wraps_example:
  "mint_timer_greater_or_equal (word_of_int (2 ^ 64 + 5)) (word_of_int (2 ^ 64 - 7)) \<and>
   \<not> mint_timer_greater_or_equal (word_of_int (2 ^ 64 - 7)) (word_of_int (2 ^ 64 + 5)) \<and>
   (word_of_int (2 ^ 64 + 5) :: u64) < word_of_int (2 ^ 64 - 7)"
  using timer_comparison_wraps [of "2 ^ 64 + 5" "2 ^ 64 - 7"] timer_comparison_wraps [of "2 ^ 64 - 7" "2 ^ 64 + 5"]
  by simp

text \<open>The same instant, as the two systems give it.\<close>

definition file_time_of :: "int \<times> int \<Rightarrow> u32 \<times> u32" where
  "file_time_of tick =
     (let t = word_of_int (fst tick * 10000000 + snd tick div 100 + 116444736000000000) :: u64
      in (high_half t, low_half t))"

text \<open>C40: \<open>mint_get_current_utc_time\<close> counts microseconds since 1601 on both systems: for every instant
  until the year 30000, the value computed from the Unix clock equals the one computed from the
  Windows file time, in which the epochs and the units differ.\<close>

theorem utc_time_agrees:
  assumes "0 \<le> sec" "sec < 900000000000" "0 \<le> nsec" "nsec < 1000000000"
  shows "mint_get_current_utc_time (sec, nsec) = mint_get_current_utc_time_msvc (file_time_of (sec, nsec)) \<and>
    uint (mint_get_current_utc_time (sec, nsec)) = sec * 1000000 + nsec div 1000 + 11644473600000000"
proof -
  let ?t = "sec * 10000000 + nsec div 100 + 116444736000000000"
  let ?us = "sec * 1000000 + nsec div 1000 + 11644473600000000"
  have "nsec sdiv 1000 = nsec div 1000" using assms(3) by (cases "nsec = 0") (simp_all add: signed_divide_int_def)
  then have gcc: "mint_get_current_utc_time (sec, nsec) = word_of_int ?us"
    by (simp add: mint_get_current_utc_time_def)
  have u: "uint (word_of_int x :: u64) = x" if "0 \<le> x" "x < 18446744073709551616" for x
    using that by (simp add: unsigned_of_int take_bit_int_eq_self)
  have uint_numeral_10: "uint (10 :: u64) = 10" by simp
  have us: "uint (word_of_int ?us :: u64) = ?us" by (rule u) (use assms in linarith)+
  have t: "uint (word_of_int ?t :: u64) = ?t" by (rule u) (use assms in linarith)+
  have "mint_get_current_utc_time_msvc (file_time_of (sec, nsec)) = word_of_int ?t div 10"
    by (simp add: mint_get_current_utc_time_msvc_def file_time_of_def Let_def halves_halves)
  also have "\<dots> = word_of_int (?t div 10)"
    by (rule word_uint_eq_iff [THEN iffD2], unfold uint_div t, simp only: uint_numeral_10, rule u [symmetric]) (use assms in linarith)+
  also have "?t div 10 = ?us" using assms by linarith
  finally show ?thesis using gcc us by (simp only: simp_thms)
qed

theorem utc_time_agrees_witness:
  "uint (mint_get_current_utc_time (1700000000, 123456789)) = 13344473600123456 \<and>
   mint_get_current_utc_time_msvc (file_time_of (1700000000, 123456789)) = 13344473600123456"
  using utc_time_agrees [of 1700000000 123456789] by (simp add: mint_get_current_utc_time_def signed_divide_int_def)

text \<open>\<open>mint_sleep_millis\<close> sleeps too short on Unix: the remainder of the milliseconds is taken as
  microseconds, so every sleep that is not a whole number of seconds is shorter than asked, and one
  below a second is a thousandth of it; on Windows it is as asked.\<close>

lemma sleep_millis_short:
  assumes "0 \<le> millis" "millis < 2 ^ 31"
  shows "fst (mint_sleep_millis millis) * 1000000000 + snd (mint_sleep_millis millis) =
      millis * 1000000 - (millis mod 1000) * 999000 \<and>
    uint (mint_sleep_millis_msvc millis) = millis"
proof -
  have "millis sdiv 1000 = millis div 1000" "millis smod 1000 = millis mod 1000"
    using assms(1) by (cases "millis = 0"; simp add: signed_divide_int_def signed_modulo_int_def minus_div_mult_eq_mod)+
  moreover have "millis div 1000 * 1000000000 + millis mod 1000 * 1000 = millis * 1000000 - (millis mod 1000) * 999000"
    by presburger
  ultimately show ?thesis using assms by (simp add: mint_sleep_millis_def mint_sleep_millis_msvc_def uint_word_of_int)
qed

lemma sleep_millis_short_example:
  "mint_sleep_millis 250 = (0, 250000) \<and>
   fst (mint_sleep_millis 250) * 1000000000 + snd (mint_sleep_millis 250) = 250000 \<and> uint (mint_sleep_millis_msvc 250) = 250"
  using sleep_millis_short [of 250] by (simp add: mint_sleep_millis_def signed_divide_int_def signed_modulo_int_def)

section \<open>Threads\<close>

text \<open>A thread that was created on Windows and has run is joined with what its routine returned:
  the block is reused for the result, is freed, and no other thread's block is touched.\<close>

lemma thread_result_joined:
  assumes "hp a = None"
  shows "\<exists>hp1 hp2. mint_thread_create (Some a) (Some h) routine arg hp = Some (0, a, hp1) \<and>
    mint_thread_entry_point a hp1 = Some hp2 \<and>
    mint_thread_join WAIT_OBJECT_0 a hp2 = Some (0, routine arg, hp)"
  using assms by (auto simp: mint_thread_create_def mint_thread_entry_point_def mint_thread_join_def fun_upd_idem)

lemma thread_result_joined_example:
  "\<exists>hp1 hp2. mint_thread_create (Some 8) (Some 3) (\<lambda>x. x * x) 12 Map.empty = Some (0, 8, hp1) \<and>
    mint_thread_entry_point 8 hp1 = Some hp2 \<and> mint_thread_join WAIT_OBJECT_0 8 hp2 = Some (0, 144, Map.empty)"
  using thread_result_joined [of Map.empty 8 3 "\<lambda>x. x * x" 12] by simp

end
