(* ===== verification/Exit_Watcher.thy ===== *)
theory Exit_Watcher
  imports Mintsystem
begin

text \<open>
  \<open>wait_and_ensure_exit.cpp\<close>: a thread that waits and then ends the process, so that a program that
  hangs while it shuts down still exits.
\<close>

section \<open>The class\<close>

record exit_watcher =
  ew_seconds :: int
  ew_exit_code :: int
  ew_thread :: "nat option"

definition exit_watcher_new :: exit_watcher where
  "exit_watcher_new = \<lparr>ew_seconds = 0, ew_exit_code = 10, ew_thread = None\<rparr>"

text \<open>The handle of the new thread, or None when it could not be created, which goes unnoticed.\<close>

definition go :: "nat option \<Rightarrow> int \<Rightarrow> int \<Rightarrow> exit_watcher \<Rightarrow> exit_watcher" where
  "go created seconds exit_code w = w\<lparr>ew_seconds := seconds, ew_exit_code := exit_code, ew_thread := created\<rparr>"

text \<open>What the thread asks of the system.  \<open>sleep\<close> takes an \<open>unsigned\<close>; on Windows the seconds are
  multiplied as an \<open>int\<close>, which must not overflow.\<close>

datatype exit_step = Sleep_Seconds u32 | Sleep_Millis u32 | Exit int

definition thread_func :: "exit_watcher \<Rightarrow> exit_step list" where
  "thread_func w = [Sleep_Seconds (word_of_int (ew_seconds w)), Exit (ew_exit_code w)]"

definition thread_func_msvc :: "exit_watcher \<Rightarrow> exit_step list option" where
  "thread_func_msvc w =
     (if is_c_int (ew_seconds w * 1000)
      then Some [Sleep_Millis (word_of_int (ew_seconds w * 1000)), Exit (ew_exit_code w)] else None)"

section \<open>The time until the exit\<close>

text \<open>The milliseconds before the process ends, and its code.\<close>

fun exits_after :: "exit_step list \<Rightarrow> (int \<times> int) option" where
  "exits_after [] = None"
| "exits_after (Sleep_Seconds n # es) = map_option (\<lambda>(t, c). (uint n * 1000 + t, c)) (exits_after es)"
| "exits_after (Sleep_Millis n # es) = map_option (\<lambda>(t, c). (uint n + t, c)) (exits_after es)"
| "exits_after (Exit c # es) = Some (0, c)"

text \<open>For up to 24 days both systems wait the seconds that were asked for and exit with the code.\<close>

lemma exit_watcher_waits:
  assumes "0 \<le> seconds" "seconds \<le> 2147483"
  shows "exits_after (thread_func (go h seconds exit_code w)) = Some (seconds * 1000, exit_code) \<and>
    (\<exists>es. thread_func_msvc (go h seconds exit_code w) = Some es \<and> exits_after es = Some (seconds * 1000, exit_code))"
proof -
  have "uint (word_of_int x :: u32) = x" if "0 \<le> x" "x < 4294967296" for x
    using that by (simp add: unsigned_of_int take_bit_int_eq_self)
  from this [of seconds] this [of "seconds * 1000"] show ?thesis
    using assms by (simp add: thread_func_def thread_func_msvc_def go_def is_c_int_def)
qed

text \<open>Beyond, the multiplication overflows on Windows.\<close>

lemma exit_watcher_overflow:
  "2147483 < seconds \<Longrightarrow> thread_func_msvc (go h seconds exit_code w) = None"
  by (simp add: thread_func_msvc_def go_def is_c_int_def)

end
