(* ===== verification/Spec2Isabelle.thy ===== *)
theory Spec2Isabelle
  imports Prelude Trace_Message Mintomic Mintomic_Ports Ring_Buffer Ring_Concurrent
    Calendar Trace_Dump Syslog_Socket Syslog_Dump
    Hash_Functions Murmur_Portable Linked_Lists Uthash Uthash_Invariant Uthash_Correct Uthash_Map
    Uthash_Sort Uthash_Select Lru
    Thread_Storage Greenlet_Trace Call_Trees Tracer_Threads Serialize Trace_Log
    Mintsystem Exit_Watcher
begin

text \<open>
  infi.tracing: the core of a tracer for Python programs with greenlets, and the libraries it is
  built on. All files named below are under \<open>src/\<close> of the repository.

  \<^bold>\<open>The program.\<close> The interpreter calls the profile function (\<open>infi/tracing/ctracing.pyx\<close>) at every
  call and return of the traced program. It finds the storage of the running greenlet in the storage
  of the running thread (\<open>thread_storage.h\<close>, \<open>thread_storage.cpp\<close>), counts the depth, asks the
  cached level of the code object (\<open>lru.hpp\<close>, \<open>trace_level_func_cache.pyx\<close>) and, if the event is to
  be logged, writes a line (\<open>ctracing_log.pyx\<close>, \<open>ctracing_log_serialize.pyx\<close>) into a message
  (\<open>trace_message.h\<close>) of a ring that all threads share (\<open>trace_message_ring_buffer.h\<close>, on the
  atomics of \<open>mintomic/\<close>). One thread takes the messages out of the ring and writes them to a file
  or to a syslog daemon (\<open>trace_dump.h\<close>, \<open>trace_dump.cpp\<close>). The tables are those of \<open>uthash.h\<close>;
  threads, semaphores and clocks come from \<open>mintsystem/\<close>; \<open>wait_and_ensure_exit.cpp\<close> ends a process
  that hangs while it shuts down.

  \<^bold>\<open>The model.\<close> A class or struct is a record with the fields of the source, an operation a function
  from the state to its result and the new state, with the names of the source (a suffix tells the
  platform where there are several versions). Undefined behaviour, which is an access outside an
  object or after its deletion, a null pointer followed, a signed overflow, and a loop that does not
  end, is \<^const>\<open>None\<close>, so that each theorem that a call is defined excludes it. A failed allocation of
  \<open>uthash.h\<close>, which ends the process, is the outcome \<open>Fatal\<close>. Machine integers are words of their
  width. Loops that may run for ever are partial functions, and no definition of the model counts
  fuel (\<open>solo_producer\<close> and \<open>solo_dump\<close>, which compare the step machines of the ring with its
  functions, run at most the given number of steps; seven are enough). What the
  operating system, the interpreter and the filter function answer, what other threads do to a
  memory cell between two instructions, and where the allocator puts an object are parameters.

  \<^bold>\<open>The theories.\<close> Each begins with what it holds.

  \<^item> \<open>Prelude\<close>: machine integers, arrays, C strings, \<open>snprintf\<close> and its conversions.
  \<^item> \<open>Trace_Message\<close> (\<open>trace_message.h\<close>): \<open>TraceMessage\<close>, a buffer with a write index and a movable
    limit; well-formed messages (\<open>tm_ok\<close>), that every operation keeps them, and what each does to
    the text.
  \<^item> \<open>Mintomic\<close>, \<open>Mintomic_Ports\<close> (\<open>mintomic/\<close>): the atomic operations of each platform, instruction
    by instruction where the source is assembly. The locale \<open>rmw_loop\<close> has what the retry loops
    share; it is interpreted on the \<open>cmpxchg\<close>, the interlocked and the \<open>ldrex\<close>/\<open>strex\<close> loops.
  \<^item> \<open>Ring_Buffer\<close> (\<open>trace_message_ring_buffer.h\<close>): \<open>reserve_push\<close>, \<open>commit_push\<close>, \<open>pop\<close> and the
    counters, composed of the atomic steps they make; the ring implements the locale
    \<open>bounded_queue\<close>.
  \<^item> \<open>Ring_Concurrent\<close>: the same steps under any interleaving of any number of producers with the
    dump thread, the reachable states, and the invariant \<open>sys_inv\<close>. The totals of the state record
    what the threads find (a data flag set or clear, a counter that changes between load and store)
    apart from what they count.
  \<^item> \<open>Calendar\<close>, \<open>Trace_Dump\<close> (\<open>trace_dump.h\<close>, \<open>trace_dump.cpp\<close>): the timestamps; the dump thread,
    its life and the file dump. The locale \<open>message_sink\<close> is what a dump promises of its \<open>process\<close>
    method; the file dump on both systems, the base class and the syslog dump are its instances.
  \<^item> \<open>Syslog_Socket\<close>, \<open>Syslog_Dump\<close> (\<open>trace_dump.cpp\<close>): the two sockets over an arbitrary operating
    system (locale \<open>syslog_connection\<close>), the two formats, and the syslog dump. \<open>open_fds\<close> reads the log
    of calls and rejects one that uses or closes a descriptor that is not open; \<open>read_stream\<close> reads
    all that was sent on a connection and rejects anything left over.
  \<^item> \<open>Hash_Functions\<close>, \<open>Murmur_Portable\<close>, \<open>Linked_Lists\<close>, \<open>Uthash\<close>, \<open>Uthash_Invariant\<close>,
    \<open>Uthash_Correct\<close>, \<open>Uthash_Map\<close>, \<open>Uthash_Sort\<close>, \<open>Uthash_Select\<close> (\<open>uthash.h\<close>): the hash functions;
    the macros on the level of pointers; the invariant \<open>table_ok\<close>; each macro against a list of
    keyed elements, which is the locale \<open>keyed_list\<close> that the caches use; the merge sort against the
    sort of the library.
  \<^item> \<open>Lru\<close> (\<open>lru.hpp\<close>, \<open>trace_level_func_cache.pyx\<close>): the cache on that table, against a list of
    bounded length, and the level the tracer gets from it.
  \<^item> \<open>Thread_Storage\<close>, \<open>Greenlet_Trace\<close>, \<open>Call_Trees\<close>, \<open>Tracer_Threads\<close> (\<open>thread_storage.h\<close>,
    \<open>ctracing.pyx\<close>, \<open>thread_storage.cpp\<close>): the storages, the profile function and its memory safety;
    the refinement of the tracer by machines of one greenlet each, and their logs as call trees; the
    threads.
  \<^item> \<open>Serialize\<close>, \<open>Trace_Log\<close> (\<open>ctracing_log_serialize.pyx\<close>, \<open>ctracing_log.pyx\<close>): the values and the
    lines, and the lines of a whole traced program in the ring.
  \<^item> \<open>Mintsystem\<close>, \<open>Exit_Watcher\<close> (\<open>mintsystem/\<close>, \<open>wait_and_ensure_exit.cpp\<close>): waiting on semaphores,
    clocks, sleeping, Windows threads; the exit watcher.

  \<^bold>\<open>What the theorems show.\<close> Safety: no call on a message writes outside its buffer, no interleaving
  of producers and consumer does anything undefined, a slot has one owner, no storage is used after
  its deletion, no descriptor leaks, and serialising any object stays in its room. Function: the
  ring is first-in-first-out, a file or syslog dump is complete and ordered, the hash table, its
  sort and the caches are the lists they stand for, the log of a greenlet is its call tree, the
  threads do not disturb each other, and the lines of a run stand in the ring. Liveness and
  termination: a spinning thread waits for one that can move, draining a ring ends, a sort returns,
  a semaphore is waited for as long as signals interrupt and no longer. Other theorems state where
  the code fails to do what it means to: an overrun ring hides and merges messages, a reset wipes
  counts, a stopped dump stays dead, long syslog texts are sent with bytes beyond the buffer, a text
  that fits exactly hides what follows, code objects collide in their low 32 bits, a first event
  that is a return shifts the depth for as long as its greenlet runs, suspending tracing in a
  suppressed function leaves the cut-off behind, and a filter that answers True or False traces
  nothing.

  \<^bold>\<open>Bounds and hypotheses.\<close> The ring has a power of two of slots, which the commented-out check of
  its constructor demands. The allocator of a table refuses 2^34 bytes or more (\<open>memory_limited\<close>),
  so that the bucket count fits 32 bits; a table is sorted with at most 2^31 elements, since the run
  length doubles in an \<open>unsigned\<close>. A cache has between 1 and 2^32 - 1 entries, and its theorems say
  where they need the low 32 bits of the keys to differ and the filter not to answer -1. The filter
  is a function of the address of the code object: its answer, an integer or None, does not depend on
  the rest of the frame or on the call, and it does not raise. Names of traced objects are C strings
  below 2^30 bytes (\<open>name_ok\<close>), \<open>repr\<close> makes at most ten bytes of one (\<open>repr_ok\<close>), lists, tuples
  and dicts have fewer than 2^31 elements (\<open>obj_ok\<close>; the code truncates longer lengths, as the model
  does), and other lengths fit a C \<open>long\<close>. Messages that are dumped hold at least 67 characters, the
  room of the line about lost messages. A syslog facility is at least 0 and below 2^28, and
  severities are at most 7, so that the priority can be computed (\<open>priority_ok\<close>). Depths are unbounded integers; a greenlet's calls nest
  less than 314159 deep, the value the code uses for no cut-off. Memory is sequentially consistent;
  the ring's indices wrap at 64 bits. Where a theorem needs the operating system to cooperate,
  \<open>accepting\<close> or a hypothesis on one call says so.

  \<^bold>\<open>Not modelled.\<close> The memory fences and the reordering of relaxed operations. The parts of
  \<open>mintsystem/\<close> that pass their arguments to one system call, its conversion factors, which are
  floating point, and the branches for Apple systems and the Xbox. \<open>platform_detect.h\<close> and the other
  headers that only choose a platform. \<open>HASH_EMIT_KEY\<close>, a debugging aid that writes to a file
  descriptor. \<open>greenlet.h\<close>, the vendored interface of the greenlet package. The Cython classes that
  make the C++ objects available to Python, the argument checks of \<open>set_profile\<close>, the statistics
  counters with \<open>ctracing_print_stats\<close>, and \<open>py_repr\<close>, which nothing calls.
\<close>

end
